(* ===== verification/Prelude.thy ===== *)
theory Prelude
  imports Main "HOL-Library.Word"
begin

unbundle bit_operations_syntax

text \<open>
  Shared ground of the development: names for the machine integers of the 32-bit
  Android ABIs the native libraries are built for (armeabi-v7a and x86, so \<open>size_t\<close>
  and pointers are 32 bits wide), collections of rewrite rules, and the generic facts on
  words and lists that the component theories use.
\<close>

section \<open>Machine integers\<close>

type_synonym u8 = "8 word"
type_synonym u16 = "16 word"
type_synonym u32 = "32 word"
type_synonym u64 = "64 word"
type_synonym size_t = "32 word"
type_synonym uintptr = "32 word"

text \<open>\<open>word_eval\<close> collects the constants that evaluation on closed words unfolds.\<close>

named_theorems word_eval
named_theorems inv_defs

section \<open>Words with a reserved high bit\<close>

lemma high_bit_clear_iff:
  fixes w :: u32
  shows "w AND 0x80000000 = 0 \<longleftrightarrow> unat w < 2 ^ 31"
proof -
  have "w AND 0x80000000 = 0 \<longleftrightarrow> \<not> bit w 31"
  proof
    assume "w AND 0x80000000 = 0"
    then have "\<not> bit (w AND 0x80000000) 31" by simp
    then show "\<not> bit w 31" by (simp add: bit_simps)
  next
    assume "\<not> bit w 31"
    then show "w AND 0x80000000 = 0"
      by (intro bit_word_eqI) (auto simp: bit_simps less_Suc_eq numeral_eq_Suc)
  qed
  also have "\<dots> \<longleftrightarrow> unat w < 2 ^ 31"
  proof -
    have "bit w 31 \<longleftrightarrow> odd (unat w div 2 ^ 31)"
      by (metis bit_iff_odd bit_unsigned_iff possible_bit_nat)
    moreover have "unat w < 2 ^ 32" using unsigned_less [of w, where 'a = nat] by simp
    then have "unat w div 2 ^ 31 < 2" by (simp add: div_less_iff_less_mult)
    ultimately have "bit w 31 \<longleftrightarrow> unat w div 2 ^ 31 \<noteq> 0" by (auto simp: less_2_cases_iff)
    then show ?thesis by (simp add: div_eq_0_iff)
  qed
  finally show ?thesis .
qed

lemma or_and_not_disjoint:
  fixes a b :: "'a::len word"
  assumes "a AND b = 0"
  shows "(a OR b) AND NOT b = a"
proof (rule bit_word_eqI)
  fix n
  assume "n < LENGTH('a)"
  moreover have "\<not> (bit a n \<and> bit b n)" using assms by (metis bit_and_iff bit_0_eq bot_apply bot_bool_def)
  ultimately show "bit ((a OR b) AND NOT b) n \<longleftrightarrow> bit a n" by (auto simp: bit_simps)
qed

lemma unat_and_mask: "unat (w AND mask n) = unat w mod 2 ^ n"
  unfolding take_bit_eq_mask [symmetric] unsigned_take_bit_eq by (rule take_bit_eq_mod)

lemma unat_and_not_mask: "unat (w AND NOT (mask n)) = unat w - unat w mod 2 ^ n"
proof -
  have "(w AND NOT (mask n)) + (w AND mask n) = (w AND NOT (mask n)) OR (w AND mask n)"
    by (rule disjunctive_add_eq_or) (rule bit_word_eqI, auto simp: bit_simps)
  also have "\<dots> = w" by (rule bit_word_eqI) (auto simp: bit_simps)
  finally have "w AND NOT (mask n) = w - (w AND mask n)" by (simp add: eq_diff_eq)
  moreover have "w AND mask n \<le> w" by (simp add: word_le_nat_alt unat_and_mask)
  ultimately show ?thesis by (simp add: unat_sub unat_and_mask)
qed

section \<open>Runs of a labelled step relation\<close>

inductive runs :: "('e \<Rightarrow> 's \<Rightarrow> 's \<Rightarrow> bool) \<Rightarrow> 's \<Rightarrow> 'e list \<Rightarrow> 's \<Rightarrow> bool" for st where
  runs_Nil: "runs st s [] s"
| runs_snoc: "runs st s es s' \<Longrightarrow> st e s' s'' \<Longrightarrow> runs st s (es @ [e]) s''"

lemma runs_one: "st e s s' \<Longrightarrow> runs st s [e] s'"
  using runs_snoc [OF runs_Nil, of st e s s'] by simp

lemma runs_append: "runs st s' fs s'' \<Longrightarrow> runs st s es s' \<Longrightarrow> runs st s (es @ fs) s''"
proof (induction rule: runs.induct)
  case (runs_snoc s' fs s'' e s3)
  then show ?case using runs.runs_snoc [of st s "es @ fs" s'' e s3] by simp
qed simp

lemma runs_Cons: "st e s s' \<Longrightarrow> runs st s' es s'' \<Longrightarrow> runs st s (e # es) s''"
  using runs_append [of st s' es s'' s "[e]"] runs_one [of st e s s'] by simp

lemma runs_invariant:
  assumes "runs st s es s'" "P s" "\<And>e s s'. st e s s' \<Longrightarrow> P s \<Longrightarrow> P s'"
  shows "P s'"
  using assms(1,2) by (induction rule: runs.induct) (auto intro: assms(3))

section \<open>Numbers in decimal\<close>

text \<open>\<open>%d\<close> of \<open>printf\<close>.\<close>

fun digits :: "nat \<Rightarrow> string" where
  "digits n = (if n < 10 then [char_of (48 + n)] else digits (n div 10) @ [char_of (48 + n mod 10)])"

declare digits.simps [simp del]

definition show_int :: "int \<Rightarrow> string" where
  "show_int i = (if i < 0 then CHR ''-'' # digits (nat (- i)) else digits (nat i))"

lemma digits_length: "n < 10 ^ Suc k \<Longrightarrow> length (digits n) \<le> Suc k"
proof (induction k arbitrary: n)
  case (Suc k)
  then have "n div 10 < 10 ^ Suc k" by (simp add: div_less_iff_less_mult)
  from Suc.IH [OF this] show ?case by (subst digits.simps) simp
qed (simp add: digits.simps)

lemma show_int_length: "length (show_int (sint (w :: u32))) \<le> 11"
proof -
  have "- (2 ^ 31) \<le> sint w" "sint w < 2 ^ 31" using sint_ge [of w] sint_lt [of w] by simp_all
  then have "nat (sint w) < 10 ^ Suc 9" "nat (- sint w) < 10 ^ Suc 9" by simp_all
  then show ?thesis unfolding show_int_def using digits_length [of _ 9] by fastforce
qed

section \<open>Pages\<close>

text \<open>The pages that \<open>mprotect\<close> is asked for cover the range they are computed from.\<close>

lemma page_range_covers:
  fixes a p :: "'w::len word"
  assumes "unat p = 4096" "i < n" "n \<le> 2 ^ 16" "2 ^ 18 \<le> (2 ^ LENGTH('w) :: nat)" "unat a + n \<le> 2 ^ LENGTH('w)"
  shows "unat (a + of_nat i - a div p * p) < unat (((a + of_nat n - 1) div p + 1) * p - a div p * p)"
proof -
  define q q' where "q = unat a div 4096" and "q' = (unat a + n - 1) div 4096"
  have u: "unat (of_nat k :: 'w word) = k" if "k < 2 ^ LENGTH('w)" for k
    using that by (simp add: unat_of_nat)
  have p: "p = of_nat 4096" using u [of 4096] assms(1,4) by (simp add: word_unat_eq_iff)
  have dp: "x div p = of_nat (unat x div 4096)" for x :: "'w word"
    by (simp add: word_unat_eq_iff unat_div assms(1) u order_le_less_trans [OF div_le_dividend])
  have qq: "q \<le> q'" unfolding q_def q'_def using assms(2) by (intro div_le_mono) simp
  have base: "a div p * p = of_nat (4096 * q)" unfolding dp by (simp add: p q_def mult.commute)
  have "unat (a + of_nat n - 1) = unat a + n - 1"
  proof -
    have e: "a + of_nat n - 1 = (of_nat (unat a + n - 1) :: 'w word)" using assms(2) by (simp add: of_nat_diff)
    show ?thesis unfolding e using assms(2,5) by (intro u) linarith
  qed
  then have "(a + of_nat n - 1) div p = of_nat q'" by (simp add: dp q'_def)
  then have w: "((a + of_nat n - 1) div p + 1) * p - a div p * p = of_nat ((q' + 1 - q) * 4096)"
    unfolding base using qq by (simp add: p of_nat_diff algebra_simps)
  have "(q' + 1 - q) * 4096 \<le> n + 8192" unfolding q_def q'_def by (simp add: algebra_simps)
  then have uw: "unat (of_nat ((q' + 1 - q) * 4096) :: 'w word) = (q' + 1 - q) * 4096"
    using assms(3,4) by (intro u) simp
  have le: "4096 * q \<le> unat a" by (simp add: q_def)
  have "a + of_nat i - a div p * p = of_nat (unat a + i - 4096 * q)"
    unfolding base using le by (simp add: of_nat_diff)
  moreover have "unat (of_nat (unat a + i - 4096 * q) :: 'w word) = unat a + i - 4096 * q"
    using assms(2,5) by (intro u) linarith
  moreover have "unat a + i < (q' + 1) * 4096" using assms(2) unfolding q'_def by simp
  ultimately show ?thesis unfolding w uw using qq le by (simp add: algebra_simps)
qed

end
