(* ===== verification/Phaser.thy ===== *)
theory Phaser
  imports Prelude
begin

text \<open>
  The phaser of \<open>phaser.c\<close>: two counters with a DRAINING bit. The first part translates
  each function as it runs when nothing interferes. The second part is the interleaving
  semantics: one rule per atomic access, any number of readers (threads, or activations
  of the signal handler on a thread) and one drainer, as the callers' lock guarantees.
  The third part states the contract as a locale of grace periods and interprets it on
  the interleaving semantics.
\<close>

section \<open>Data and constants\<close>

definition NUM_PHASES :: u32 where
  "NUM_PHASES = 2"

definition SIZE_MAX :: size_t where
  "SIZE_MAX = - 1"

definition SIZE_T_HIGH_BIT :: size_t where
  "SIZE_T_HIGH_BIT = SIZE_MAX - drop_bit 1 SIZE_MAX"

definition DRAINING :: size_t where
  "DRAINING = SIZE_T_HIGH_BIT"

definition COUNT_DRAINED :: size_t where
  "COUNT_DRAINED = SIZE_T_HIGH_BIT OR 0"

type_synonym phaser_phase = u32

record phaser_t =
  counter :: "size_t list"

section \<open>The functions without interference\<close>

text \<open>\<open>phaser_init\<close> clears the array; under the futex strategy it cannot fail.\<close>

definition phaser_init :: "phaser_t \<Rightarrow> int \<times> phaser_t" where
  "phaser_init ph = (0, ph\<lparr>counter := replicate (unat NUM_PHASES) 0\<rparr>)"

definition phaser_counter_try_inc :: "size_t \<Rightarrow> bool \<times> size_t" where
  "phaser_counter_try_inc c = (if c AND DRAINING \<noteq> 0 then (False, c) else (True, c + 1))"

text \<open>The search loop of \<open>phaser_enter\<close>; \<open>None\<close> is a search that never ends.\<close>

partial_function (option) phaser_enter_from ::
  "phaser_t \<Rightarrow> phaser_phase \<Rightarrow> (phaser_phase \<times> phaser_t) option" where
  "phaser_enter_from ph phase =
     (let (ok, c) = phaser_counter_try_inc (counter ph ! unat phase)
      in if ok then Some (phase, ph\<lparr>counter := (counter ph)[unat phase := c]\<rparr>)
         else phaser_enter_from ph ((phase + 1) AND (NUM_PHASES - 1)))"

definition phaser_enter :: "phaser_t \<Rightarrow> (phaser_phase \<times> phaser_t) option" where
  "phaser_enter ph = phaser_enter_from ph 0"

text \<open>\<open>phaser_exit\<close> returns the new counters and whether it issued the \<open>FUTEX_WAKE\<close>.\<close>

definition phaser_exit :: "phaser_t \<Rightarrow> phaser_phase \<Rightarrow> phaser_t \<times> bool" where
  "phaser_exit ph phase =
     (let value = counter ph ! unat phase - 1
      in (ph\<lparr>counter := (counter ph)[unat phase := value]\<rparr>, value = COUNT_DRAINED))"

text \<open>The wait loop of \<open>phaser_drain_counter\<close>: with nobody else running, every reload
  reads the same value, so a counter that is not drained blocks for ever.\<close>

partial_function (option) drain_wait :: "size_t \<Rightarrow> size_t \<Rightarrow> unit option" where
  "drain_wait c value = (if value \<noteq> COUNT_DRAINED then drain_wait c c else Some ())"

definition phaser_drain_counter :: "phaser_t \<Rightarrow> phaser_phase \<Rightarrow> phaser_t option" where
  "phaser_drain_counter ph phase =
     (let c = counter ph ! unat phase OR DRAINING
      in case drain_wait c c of
           None \<Rightarrow> None
         | Some _ \<Rightarrow> Some (ph\<lparr>counter := (counter ph)[unat phase := c AND NOT DRAINING]\<rparr>))"

fun phaser_drain_from :: "nat \<Rightarrow> phaser_phase \<Rightarrow> phaser_t \<Rightarrow> phaser_t option" where
  "phaser_drain_from 0 i ph = Some ph"
| "phaser_drain_from (Suc n) i ph =
     (case phaser_drain_counter ph i of
        None \<Rightarrow> None
      | Some ph' \<Rightarrow> phaser_drain_from n (i + 1) ph')"

definition phaser_drain :: "phaser_t \<Rightarrow> phaser_t option" where
  "phaser_drain ph = phaser_drain_from (unat NUM_PHASES) 0 ph"

section \<open>Interleaving semantics\<close>

text \<open>
  Program counters of a reader: outside, about to load counter \<open>p\<close>, about to increment
  it, inside its critical section with token \<open>p\<close>, about to issue the wake-up. Program
  counters of the drainer: idle, about to set the bit of counter \<open>p\<close>, holding a value
  of it to test, asleep in \<open>FUTEX_WAIT\<close>, about to reload, about to clear the bit, returned.
\<close>

datatype rpc = RIdle | RLoad phaser_phase | RInc phaser_phase | RIn phaser_phase
  | RWake phaser_phase

datatype dpc = DIdle | DOr phaser_phase | DTest phaser_phase size_t | DAsleep phaser_phase
  | DLoad phaser_phase | DAnd phaser_phase | DDone

text \<open>\<open>awaited\<close> is a history variable: the critical sections that were active when the
  current drain was called and have not ended since.\<close>

record psys =
  ph :: phaser_t
  rd :: "nat \<Rightarrow> rpc"
  dr :: dpc
  awaited :: "nat set"

definition cnt :: "psys \<Rightarrow> phaser_phase \<Rightarrow> size_t" where
  "cnt s p = counter (ph s) ! unat p"

definition set_cnt :: "phaser_phase \<Rightarrow> size_t \<Rightarrow> psys \<Rightarrow> psys" where
  "set_cnt p v s = s\<lparr>ph := (ph s)\<lparr>counter := (counter (ph s))[unat p := v]\<rparr>\<rparr>"

definition set_rd :: "nat \<Rightarrow> rpc \<Rightarrow> psys \<Rightarrow> psys" where
  "set_rd t r s = s\<lparr>rd := (rd s)(t := r)\<rparr>"

definition active :: "psys \<Rightarrow> nat set" where
  "active s = {t. \<exists>p. rd s t = RIn p}"

text \<open>\<open>leave t\<close> ends reader \<open>t\<close>'s section: nobody waits for it any more.\<close>

definition leave :: "nat \<Rightarrow> psys \<Rightarrow> psys" where
  "leave t s = s\<lparr>awaited := awaited s - {t}\<rparr>"

definition wake :: "phaser_phase \<Rightarrow> psys \<Rightarrow> psys" where
  "wake p s = s\<lparr>dr := (if dr s = DAsleep p then DLoad p else dr s)\<rparr>"

definition init_psys :: "phaser_t \<Rightarrow> psys" where
  "init_psys ph0 =
     \<lparr>ph = snd (phaser_init ph0), rd = (\<lambda>_. RIdle), dr = DIdle, awaited = {}\<rparr>"

datatype pevent = Enter nat | Leave nat | Drain_call | Drain_return | Internal

text \<open>\<open>phaser_step N e s s'\<close>: one atomic step with \<open>N\<close> readers; \<open>e\<close> says what it means to
  the callers. A reader is inside once its increment is done and outside once its
  decrement is done.\<close>

inductive phaser_step :: "nat \<Rightarrow> pevent \<Rightarrow> psys \<Rightarrow> psys \<Rightarrow> bool" for N where
  enter_call: "t < N \<Longrightarrow> rd s t = RIdle \<Longrightarrow>
     phaser_step N Internal s (set_rd t (RLoad 0) s)"
| load_draining: "rd s t = RLoad p \<Longrightarrow> cnt s p AND DRAINING \<noteq> 0 \<Longrightarrow>
     phaser_step N Internal s (set_rd t (RLoad ((p + 1) AND (NUM_PHASES - 1))) s)"
| load_clear: "rd s t = RLoad p \<Longrightarrow> cnt s p AND DRAINING = 0 \<Longrightarrow>
     phaser_step N Internal s (set_rd t (RInc p) s)"
| inc: "rd s t = RInc p \<Longrightarrow>
     phaser_step N (Enter t) s (set_rd t (RIn p) (set_cnt p (cnt s p + 1) s))"
| exit_quiet: "rd s t = RIn p \<Longrightarrow> cnt s p - 1 \<noteq> COUNT_DRAINED \<Longrightarrow>
     phaser_step N (Leave t) s (leave t (set_rd t RIdle (set_cnt p (cnt s p - 1) s)))"
| exit_drained: "rd s t = RIn p \<Longrightarrow> cnt s p - 1 = COUNT_DRAINED \<Longrightarrow>
     phaser_step N (Leave t) s (leave t (set_rd t (RWake p) (set_cnt p (cnt s p - 1) s)))"
| futex_wake: "rd s t = RWake p \<Longrightarrow>
     phaser_step N Internal s (wake p (set_rd t RIdle s))"
| drain_call: "dr s = DIdle \<or> dr s = DDone \<Longrightarrow>
     phaser_step N Drain_call s (s\<lparr>dr := DOr 0, awaited := active s\<rparr>)"
| drain_or: "dr s = DOr p \<Longrightarrow>
     phaser_step N Internal s
       ((set_cnt p (cnt s p OR DRAINING) s)\<lparr>dr := DTest p (cnt s p OR DRAINING)\<rparr>)"
| test_done: "dr s = DTest p v \<Longrightarrow> v = COUNT_DRAINED \<Longrightarrow>
     phaser_step N Internal s (s\<lparr>dr := DAnd p\<rparr>)"
| futex_sleep: "dr s = DTest p v \<Longrightarrow> v \<noteq> COUNT_DRAINED \<Longrightarrow> cnt s p = v \<Longrightarrow>
     phaser_step N Internal s (s\<lparr>dr := DAsleep p\<rparr>)"
| futex_wouldblock: "dr s = DTest p v \<Longrightarrow> v \<noteq> COUNT_DRAINED \<Longrightarrow> cnt s p \<noteq> v \<Longrightarrow>
     phaser_step N Internal s (s\<lparr>dr := DLoad p\<rparr>)"
| futex_eintr: "dr s = DAsleep p \<Longrightarrow>
     phaser_step N Internal s (s\<lparr>dr := DLoad p\<rparr>)"
| drain_load: "dr s = DLoad p \<Longrightarrow>
     phaser_step N Internal s (s\<lparr>dr := DTest p (cnt s p)\<rparr>)"
| drain_and_next: "dr s = DAnd p \<Longrightarrow> p + 1 < NUM_PHASES \<Longrightarrow>
     phaser_step N Internal s
       ((set_cnt p (cnt s p AND NOT DRAINING) s)\<lparr>dr := DOr (p + 1)\<rparr>)"
| drain_and_last: "dr s = DAnd p \<Longrightarrow> \<not> p + 1 < NUM_PHASES \<Longrightarrow>
     phaser_step N Drain_return s
       ((set_cnt p (cnt s p AND NOT DRAINING) s)\<lparr>dr := DDone\<rparr>)"

inductive phaser_reach :: "nat \<Rightarrow> psys \<Rightarrow> bool" for N where
  start: "phaser_reach N (init_psys ph0)"
| step: "phaser_reach N s \<Longrightarrow> phaser_step N e s s' \<Longrightarrow> phaser_reach N s'"

section \<open>Word facts of the counters\<close>

lemma phaser_consts [word_eval]:
  "NUM_PHASES = 2" "DRAINING = 0x80000000" "COUNT_DRAINED = 0x80000000"
  by (simp_all add: NUM_PHASES_def DRAINING_def COUNT_DRAINED_def SIZE_T_HIGH_BIT_def
      SIZE_MAX_def drop_bit_minus_one mask_numeral)

lemma high_plus_or:
  fixes w :: u32
  assumes "unat w < 2 ^ 31"
  shows "w OR 0x80000000 = 0x80000000 + w"
proof -
  have "0x80000000 AND w = 0"
    using assms by (simp add: high_bit_clear_iff and.commute)
  then show ?thesis by (simp add: disjunctive_add_eq_or or.commute)
qed

lemma count_of_nat:
  assumes "k < 2 ^ 31"
  shows "unat (of_nat k :: u32) = k"
  using assms by (simp add: unat_of_nat take_bit_nat_eq_self)

lemma high_count_test:
  assumes "k < 2 ^ 31"
  shows "(of_nat k :: u32) AND 0x80000000 = 0"
    and "((0x80000000::u32) + of_nat k) AND 0x80000000 \<noteq> 0"
    and "(of_nat k :: u32) OR 0x80000000 = 0x80000000 + of_nat k"
    and "((0x80000000::u32) + of_nat k) AND NOT 0x80000000 = of_nat k"
    and "(0x80000000::u32) + of_nat k = 0x80000000 \<longleftrightarrow> k = 0"
    and "(of_nat k :: u32) \<noteq> 0x80000000"
proof -
  let ?w = "of_nat k :: u32"
  have u: "unat ?w = k" using assms by (rule count_of_nat)
  then show clear: "?w AND 0x80000000 = 0" using assms by (simp add: high_bit_clear_iff)
  show plus: "?w OR 0x80000000 = 0x80000000 + ?w" using u assms by (intro high_plus_or) simp
  show "(0x80000000 + ?w) AND 0x80000000 \<noteq> 0"
    by (simp flip: plus add: and.commute [of "_ OR _"])
  show "(0x80000000 + ?w) AND NOT 0x80000000 = ?w"
    unfolding plus [symmetric] by (rule or_and_not_disjoint) (rule clear)
  show "0x80000000 + ?w = 0x80000000 \<longleftrightarrow> k = 0"
  proof
    assume "0x80000000 + ?w = 0x80000000"
    then have "?w = 0" by simp
    with u show "k = 0" by simp
  qed simp
  show "?w \<noteq> 0x80000000"
  proof
    assume "?w = 0x80000000"
    with clear show False by simp
  qed
qed

section \<open>The invariant of the interleaving semantics\<close>

definition drain_phase :: "dpc \<Rightarrow> phaser_phase option" where
  "drain_phase d = (case d of DTest p _ \<Rightarrow> Some p | DAsleep p \<Rightarrow> Some p | DLoad p \<Rightarrow> Some p
     | DAnd p \<Rightarrow> Some p | _ \<Rightarrow> None)"

text \<open>\<open>passed d p\<close>: the drainer at \<open>d\<close> has seen counter \<open>p\<close> at \<open>COUNT_DRAINED\<close>.\<close>

definition passed :: "dpc \<Rightarrow> phaser_phase \<Rightarrow> bool" where
  "passed d p = (case d of DIdle \<Rightarrow> True | DDone \<Rightarrow> True | DOr q \<Rightarrow> p < q
     | DTest q v \<Rightarrow> p < q \<or> p = q \<and> v = COUNT_DRAINED | DAsleep q \<Rightarrow> p < q | DLoad q \<Rightarrow> p < q
     | DAnd q \<Rightarrow> p \<le> q)"

definition in_phase :: "psys \<Rightarrow> phaser_phase \<Rightarrow> nat set" where
  "in_phase s p = {t. rd s t = RIn p}"

definition count_ok :: "psys \<Rightarrow> phaser_phase \<Rightarrow> bool" where
  "count_ok s p \<longleftrightarrow>
     cnt s p = (if drain_phase (dr s) = Some p then 0x80000000 else 0) + of_nat (card (in_phase s p))"

fun rpc_ok :: "rpc \<Rightarrow> bool" where
  "rpc_ok RIdle = True"
| "rpc_ok (RLoad p) = (p = 0 \<or> p = 1)"
| "rpc_ok (RInc p) = (p = 0 \<or> p = 1)"
| "rpc_ok (RIn p) = (p = 0 \<or> p = 1)"
| "rpc_ok (RWake p) = (p = 0 \<or> p = 1)"

fun dpc_ok :: "dpc \<Rightarrow> bool" where
  "dpc_ok DIdle = True"
| "dpc_ok DDone = True"
| "dpc_ok (DOr p) = (p = 0 \<or> p = 1)"
| "dpc_ok (DTest p v) = (p = 0 \<or> p = 1)"
| "dpc_ok (DAsleep p) = (p = 0 \<or> p = 1)"
| "dpc_ok (DLoad p) = (p = 0 \<or> p = 1)"
| "dpc_ok (DAnd p) = (p = 0 \<or> p = 1)"

definition shape_inv :: "nat \<Rightarrow> psys \<Rightarrow> bool" where
  "shape_inv N s \<longleftrightarrow> length (counter (ph s)) = 2 \<and> (\<forall>t. N \<le> t \<longrightarrow> rd s t = RIdle)
     \<and> (\<forall>t. rpc_ok (rd s t)) \<and> dpc_ok (dr s)"

definition counts_inv :: "psys \<Rightarrow> bool" where
  "counts_inv s \<longleftrightarrow> count_ok s 0 \<and> count_ok s 1"

definition wakeup_inv :: "psys \<Rightarrow> bool" where
  "wakeup_inv s \<longleftrightarrow> (\<forall>p. dr s = DAsleep p \<longrightarrow> cnt s p = COUNT_DRAINED \<longrightarrow> (\<exists>t. rd s t = RWake p))"

definition awaited_inv :: "psys \<Rightarrow> bool" where
  "awaited_inv s \<longleftrightarrow>
     awaited s \<subseteq> active s \<and> (\<forall>t p. t \<in> awaited s \<longrightarrow> rd s t = RIn p \<longrightarrow> \<not> passed (dr s) p)"

definition phaser_inv :: "nat \<Rightarrow> psys \<Rightarrow> bool" where
  "phaser_inv N s \<longleftrightarrow> shape_inv N s \<and> counts_inv s \<and> wakeup_inv s \<and> awaited_inv s"

lemmas psys_upd = set_cnt_def set_rd_def leave_def wake_def

lemma psys_upd_sel [simp]:
  "rd (set_cnt p v s) = rd s" "dr (set_cnt p v s) = dr s" "awaited (set_cnt p v s) = awaited s"
  "ph (set_rd t r s) = ph s" "rd (set_rd t r s) = (rd s)(t := r)" "dr (set_rd t r s) = dr s"
  "awaited (set_rd t r s) = awaited s"
  "ph (leave t s) = ph s" "rd (leave t s) = rd s" "dr (leave t s) = dr s"
  "awaited (leave t s) = awaited s - {t}"
  "ph (wake p s) = ph s" "rd (wake p s) = rd s" "awaited (wake p s) = awaited s"
  "length (counter (ph (set_cnt p v s))) = length (counter (ph s))"
  by (simp_all add: psys_upd)

lemma cnt_upd [simp]:
  "cnt (set_rd t r s) p = cnt s p" "cnt (leave t s) p = cnt s p" "cnt (wake q s) p = cnt s p"
  "cnt (s\<lparr>dr := d\<rparr>) p = cnt s p" "cnt (s\<lparr>awaited := a\<rparr>) p = cnt s p"
  by (simp_all add: cnt_def psys_upd)

lemma cnt_set_cnt:
  assumes "length (counter (ph s)) = 2" "q = 0 \<or> q = 1" "p = 0 \<or> p = 1"
  shows "cnt (set_cnt q v s) p = (if p = q then v else cnt s p)"
  using assms by (auto simp: cnt_def set_cnt_def)

lemma in_phase_upd [simp]:
  "in_phase (set_cnt p v s) q = in_phase s q" "in_phase (leave t s) q = in_phase s q"
  "in_phase (wake p s) q = in_phase s q" "in_phase (s\<lparr>dr := d\<rparr>) q = in_phase s q"
  "in_phase (s\<lparr>awaited := a\<rparr>) q = in_phase s q"
  "in_phase (set_rd t r s) q =
     (if r = RIn q then insert t (in_phase s q) else in_phase s q - {t})"
  by (auto simp: in_phase_def)

lemma active_upd [simp]:
  "active (set_cnt p v s) = active s" "active (leave t s) = active s" "active (wake p s) = active s"
  "active (s\<lparr>dr := d\<rparr>) = active s" "active (s\<lparr>awaited := a\<rparr>) = active s"
  "active (set_rd t r s) = (if \<exists>p. r = RIn p then insert t (active s) else active s - {t})"
  by (auto simp: active_def)

lemma active_phases: "shape_inv N s \<Longrightarrow> active s = in_phase s 0 \<union> in_phase s 1"
  by (auto simp: active_def in_phase_def shape_inv_def) (metis rpc_ok.simps(4))

lemma in_phase_subset: "shape_inv N s \<Longrightarrow> in_phase s p \<subseteq> {..<N}"
  by (force simp: shape_inv_def in_phase_def not_le [symmetric])

lemma in_phase_finite [intro]: "shape_inv N s \<Longrightarrow> finite (in_phase s p)"
  by (rule finite_subset [OF in_phase_subset]) auto

lemma in_phase_card: "shape_inv N s \<Longrightarrow> card (in_phase s p) \<le> N"
  using card_mono [OF _ in_phase_subset] by fastforce

lemma next_phase: "p = 0 \<or> p = 1 \<Longrightarrow> ((p + 1) AND (NUM_PHASES - 1)) = (if p = 0 then 1 else (0::u32))"
  by (auto simp: word_eval)

lemma shape_rd:
  assumes "shape_inv N s"
  shows "rd s t = RLoad p \<Longrightarrow> p = 0 \<or> p = 1" and "rd s t = RInc p \<Longrightarrow> p = 0 \<or> p = 1"
    and "rd s t = RIn p \<Longrightarrow> p = 0 \<or> p = 1" and "rd s t = RWake p \<Longrightarrow> p = 0 \<or> p = 1"
  using assms by (auto simp: shape_inv_def elim!: allE [of _ t])

lemma shape_dr:
  assumes "shape_inv N s"
  shows "dr s = DOr p \<Longrightarrow> p = 0 \<or> p = 1" and "dr s = DTest p v \<Longrightarrow> p = 0 \<or> p = 1"
    and "dr s = DAsleep p \<Longrightarrow> p = 0 \<or> p = 1" and "dr s = DLoad p \<Longrightarrow> p = 0 \<or> p = 1"
    and "dr s = DAnd p \<Longrightarrow> p = 0 \<or> p = 1"
  using assms by (auto simp: shape_inv_def)

lemma shape_inv_step:
  assumes "phaser_step N e s s'" "shape_inv N s"
  shows "shape_inv N s'"
  using assms(1)
  by cases
    (use assms(2) shape_rd [OF assms(2)] in
      \<open>auto simp: shape_inv_def wake_def word_eval and_one_eq mod_2_eq_odd\<close>)

text \<open>A counter, read as the number of readers it counts and whether it drains.\<close>

lemma count_okD:
  assumes "counts_inv s" "shape_inv N s" "N < 2 ^ 31" "p = 0 \<or> p = 1"
  shows "cnt s p = (if drain_phase (dr s) = Some p then 0x80000000 else 0)
      + of_nat (card (in_phase s p))" (is ?val)
    and "card (in_phase s p) < 2 ^ 31" (is ?bound)
proof -
  show ?val using assms(1,4) by (auto simp: counts_inv_def count_ok_def)
  show ?bound using in_phase_card [OF assms(2), of p] assms(3) by simp
qed

lemma in_phase_remove:
  assumes "shape_inv N s" "rd s t = RIn p"
  shows "(of_nat (card (in_phase s p - {t})) :: size_t) = of_nat (card (in_phase s p)) - 1"
proof -
  have "t \<in> in_phase s p" and fin: "finite (in_phase s p)"
    using assms in_phase_finite by (auto simp: in_phase_def)
  then have "card (in_phase s p) = Suc (card (in_phase s p - {t}))"
    by (metis card.remove)
  then show ?thesis by simp
qed

lemma in_phase_other: "rd s t = RIn p \<Longrightarrow> p \<noteq> q \<Longrightarrow> in_phase s q - {t} = in_phase s q"
  by (auto simp: in_phase_def)

lemma in_phase_outside: "\<forall>p. rd s t \<noteq> RIn p \<Longrightarrow> in_phase s q - {t} = in_phase s q"
  by (auto simp: in_phase_def)

lemma counts_inv_step:
  assumes "phaser_step N e s s'" "phaser_inv N s" "N < 2 ^ 31"
  shows "counts_inv s'"
proof -
  have sh: "shape_inv N s" and c: "counts_inv s" using assms(2) by (auto simp: phaser_inv_def)
  have len: "length (counter (ph s)) = 2" using sh by (simp add: shape_inv_def)
  have ok: "count_ok s p" if "p = 0 \<or> p = 1" for p using c that by (auto simp: counts_inv_def)
  have k: "card (in_phase s p) < 2 ^ 31" for p
    using in_phase_card [OF sh, of p] assms(3) by simp
  have "count_ok s' q" if q: "q = 0 \<or> q = 1" for q
    using assms(1)
  proof cases
    case (inc t p)
    have p: "p = 0 \<or> p = 1" using shape_rd(2) [OF sh] inc by blast
    have "t \<notin> in_phase s p" and "finite (in_phase s p)" using inc in_phase_finite [OF sh]
      by (auto simp: in_phase_def)
    then show ?thesis
      using inc ok [OF q] cnt_set_cnt [OF len p q] in_phase_outside [of s t q]
      by (auto simp: count_ok_def)
  next
    case (exit_quiet t p)
    have p: "p = 0 \<or> p = 1" using shape_rd(3) [OF sh] exit_quiet by blast
    show ?thesis
      using exit_quiet ok [OF q] cnt_set_cnt [OF len p q] in_phase_remove [OF sh] in_phase_other [of s t p q]
      by (auto simp: count_ok_def)
  next
    case (exit_drained t p)
    have p: "p = 0 \<or> p = 1" using shape_rd(3) [OF sh] exit_drained by blast
    show ?thesis
      using exit_drained(1-3) ok [OF q] cnt_set_cnt [OF len p q] in_phase_remove [OF sh]
        in_phase_other [of s t p q]
      by (auto simp: count_ok_def)
  next
    case (drain_or p)
    have p: "p = 0 \<or> p = 1" using shape_dr(1) [OF sh] drain_or by blast
    show ?thesis
      using drain_or ok [OF q] cnt_set_cnt [OF len p q] high_count_test(3) [OF k]
      by (auto simp: count_ok_def drain_phase_def word_eval)
  next
    case (drain_and_next p)
    have p: "p = 0 \<or> p = 1" using shape_dr(5) [OF sh] drain_and_next by blast
    show ?thesis
      using drain_and_next ok [OF q] cnt_set_cnt [OF len p q] high_count_test(4) [OF k]
      by (auto simp: count_ok_def drain_phase_def phaser_consts(2))
  next
    case (drain_and_last p)
    have p: "p = 0 \<or> p = 1" using shape_dr(5) [OF sh] drain_and_last by blast
    show ?thesis
      using drain_and_last ok [OF q] cnt_set_cnt [OF len p q] high_count_test(4) [OF k]
      by (auto simp: count_ok_def drain_phase_def phaser_consts(2))
  qed (use ok [OF q] in \<open>auto simp: count_ok_def drain_phase_def wake_def in_phase_outside
        split: dpc.splits\<close>)
  then show ?thesis by (auto simp: counts_inv_def)
qed

lemma drained_empty:
  assumes "shape_inv N s" "counts_inv s" "N < 2 ^ 31" "p = 0 \<or> p = 1"
    and "drain_phase (dr s) = Some p" "cnt s p = COUNT_DRAINED"
  shows "in_phase s p = {}"
proof -
  note c = count_okD [OF assms(2,1,3,4)]
  have "(0x80000000::size_t) + of_nat (card (in_phase s p)) = 0x80000000"
    using c(1) assms(5,6) by (simp add: word_eval)
  then have "card (in_phase s p) = 0" using high_count_test(5) [OF c(2)] by simp
  with in_phase_finite [OF assms(1)] show ?thesis by simp
qed

lemma wakeup_inv_step:
  assumes st: "phaser_step N e s s'" and inv: "phaser_inv N s" and N: "N < 2 ^ 31"
  shows "wakeup_inv s'"
  unfolding wakeup_inv_def
proof (intro allI impI)
  fix q
  assume d: "dr s' = DAsleep q" and c: "cnt s' q = COUNT_DRAINED"
  have sh: "shape_inv N s" and w: "wakeup_inv s" using inv by (auto simp: phaser_inv_def)
  have len: "length (counter (ph s)) = 2" using sh by (simp add: shape_inv_def)
  have sh': "shape_inv N s'" using shape_inv_step [OF st sh] .
  have q: "q = 0 \<or> q = 1" using shape_dr(3) [OF sh' d] .
  have empty: "in_phase s' q = {}"
    using drained_empty [OF sh' counts_inv_step [OF st inv N] N q] d c
    by (simp add: drain_phase_def)
  have old: "\<exists>t. rd s t = RWake q" if "dr s = DAsleep q" "cnt s q = COUNT_DRAINED"
    using w that by (simp add: wakeup_inv_def)
  have keep: "\<exists>u. ((rd s)(t := r)) u = RWake q"
    if "dr s = DAsleep q" "cnt s q = COUNT_DRAINED" "rd s t \<noteq> RWake q" for t r
    using old [OF that(1,2)] that(3) by (metis fun_upd_other)
  show "\<exists>t. rd s' t = RWake q"
    using st
  proof cases
    case (inc t p)
    have p: "p = 0 \<or> p = 1" using shape_rd(2) [OF sh] inc by blast
    have "q \<noteq> p" using empty inc by auto
    then show ?thesis using inc c d keep cnt_set_cnt [OF len p q] by auto
  next
    case (exit_quiet t p)
    have p: "p = 0 \<or> p = 1" using shape_rd(3) [OF sh] exit_quiet by blast
    then have "q \<noteq> p" using exit_quiet c cnt_set_cnt [OF len p q] by auto
    then show ?thesis using exit_quiet c d keep cnt_set_cnt [OF len p q] by auto
  next
    case (exit_drained t p)
    have p: "p = 0 \<or> p = 1" using shape_rd(3) [OF sh] exit_drained by blast
    show ?thesis
    proof (cases "q = p")
      case True
      then show ?thesis using exit_drained by auto
    next
      case False
      then show ?thesis using exit_drained(1-3) c d keep cnt_set_cnt [OF len p q] by auto
    qed
  next
    case (futex_wake t p)
    then have "q \<noteq> p" "dr s = DAsleep q" using d by (auto simp: wake_def split: if_splits)
    then show ?thesis using keep c futex_wake by auto
  qed (use c d keep in auto)
qed

lemma awaited_inv_step:
  assumes st: "phaser_step N e s s'" and inv: "phaser_inv N s" and N: "N < 2 ^ 31"
  shows "awaited_inv s'"
proof -
  have sh: "shape_inv N s" and a: "awaited_inv s" and c: "counts_inv s"
    using inv by (auto simp: phaser_inv_def)
  show ?thesis
    using st
  proof cases
    case (drain_or p)
    have p: "p = 0 \<or> p = 1" using shape_dr(1) [OF sh] drain_or by blast
    have sh': "shape_inv N s'" using shape_inv_step [OF st sh] .
    have len: "length (counter (ph s)) = 2" using sh by (simp add: shape_inv_def)
    have "cnt s p OR DRAINING = COUNT_DRAINED \<Longrightarrow> in_phase s p = {}"
      using drained_empty [OF sh' counts_inv_step [OF st inv N] N p] drain_or cnt_set_cnt [OF len p p]
      by (simp add: drain_phase_def)
    then show ?thesis
      using a drain_or by (auto simp: awaited_inv_def passed_def in_phase_def)
  next
    case (drain_load p)
    have p: "p = 0 \<or> p = 1" using shape_dr(4) [OF sh] drain_load by blast
    have "cnt s p = COUNT_DRAINED \<Longrightarrow> in_phase s p = {}"
      using drained_empty [OF sh c N p] drain_load by (simp add: drain_phase_def)
    then show ?thesis
      using a drain_load by (auto simp: awaited_inv_def passed_def in_phase_def)
  next
    case (drain_and_next p)
    have "p = 0" using shape_dr(5) [OF sh] drain_and_next by (auto simp: word_eval)
    then show ?thesis using a drain_and_next
      by (auto simp: awaited_inv_def passed_def word_eval)
  next
    case (drain_and_last p)
    have "p = 1" using shape_dr(5) [OF sh] drain_and_last by (auto simp: word_eval)
    have False if t: "t \<in> awaited s" for t
    proof -
      obtain q where q: "rd s t = RIn q" using t a unfolding awaited_inv_def active_def by blast
      then have "\<not> q \<le> 1" using t a drain_and_last \<open>p = 1\<close> by (auto simp: awaited_inv_def passed_def)
      with shape_rd(3) [OF sh q] show False by auto
    qed
    then have "awaited s = {}" by blast
    then show ?thesis using drain_and_last by (simp add: awaited_inv_def)
  qed (use a in \<open>auto simp: awaited_inv_def passed_def wake_def active_def split: if_splits dpc.splits\<close>)
qed

lemma phaser_init_counters: "counter (snd (phaser_init ph0)) = [0, 0]"
proof -
  have "unat NUM_PHASES = 2" by (simp add: word_eval)
  moreover have "replicate 2 x = [x, x]" for x :: size_t by (simp add: numeral_2_eq_2)
  ultimately show ?thesis by (simp add: phaser_init_def)
qed

lemma phaser_inv_init: "phaser_inv N (init_psys ph0)"
  using phaser_init_counters [of ph0]
  by (simp add: phaser_inv_def init_psys_def shape_inv_def counts_inv_def count_ok_def
      wakeup_inv_def awaited_inv_def cnt_def drain_phase_def in_phase_def)

lemma phaser_inv_step:
  assumes "phaser_step N e s s'" "phaser_inv N s" "N < 2 ^ 31"
  shows "phaser_inv N s'"
  using shape_inv_step [OF assms(1)] counts_inv_step [OF assms] wakeup_inv_step [OF assms]
    awaited_inv_step [OF assms] assms(2)
  by (simp add: phaser_inv_def)

lemma phaser_reach_inv: "phaser_reach N s \<Longrightarrow> N < 2 ^ 31 \<Longrightarrow> phaser_inv N s"
  by (induction rule: phaser_reach.induct) (auto intro: phaser_inv_init phaser_inv_step)

section \<open>The contract: grace periods\<close>

text \<open>The abstract machine: who is inside, and whom a running drain still waits for.\<close>

record rcu =
  inside :: "nat set"
  waiting :: "nat set option"

inductive rcu_step :: "pevent \<Rightarrow> rcu \<Rightarrow> rcu \<Rightarrow> bool" where
  rcu_enter: "t \<notin> inside a \<Longrightarrow> rcu_step (Enter t) a (a\<lparr>inside := insert t (inside a)\<rparr>)"
| rcu_leave: "t \<in> inside a \<Longrightarrow> rcu_step (Leave t) a
     (a\<lparr>inside := inside a - {t}, waiting := map_option (\<lambda>w. w - {t}) (waiting a)\<rparr>)"
| rcu_call: "waiting a = None \<Longrightarrow> rcu_step Drain_call a (a\<lparr>waiting := Some (inside a)\<rparr>)"
| rcu_return: "waiting a = Some {} \<Longrightarrow> rcu_step Drain_return a (a\<lparr>waiting := None\<rparr>)"
| rcu_internal: "rcu_step Internal a a"

inductive_cases rcu_stepE:
  "rcu_step (Enter t) a a'" "rcu_step (Leave t) a a'" "rcu_step Drain_call a a'"
  "rcu_step Drain_return a a'" "rcu_step Internal a a'"

text \<open>A provider of grace periods is a step relation that the abstract machine simulates.\<close>

locale grace_period =
  fixes gstep :: "pevent \<Rightarrow> 's \<Rightarrow> 's \<Rightarrow> bool"
    and ginv :: "'s \<Rightarrow> bool"
    and gabs :: "'s \<Rightarrow> rcu"
  assumes ginv_step: "gstep e s s' \<Longrightarrow> ginv s \<Longrightarrow> ginv s'"
    and gabs_step: "gstep e s s' \<Longrightarrow> ginv s \<Longrightarrow> rcu_step e (gabs s) (gabs s')"
begin

lemma runs_waiting:
  assumes "runs gstep s es s'" "ginv s" "waiting (gabs s) = Some w"
    and "Drain_return \<notin> set es"
  shows "waiting (gabs s') = Some (w - {t. Leave t \<in> set es}) \<and> ginv s'"
  using assms
proof (induction rule: runs.induct)
  case (runs_snoc s es s' e s'')
  have IH: "waiting (gabs s') = Some (w - {t. Leave t \<in> set es})" "ginv s'"
    using runs_snoc by auto
  have "rcu_step e (gabs s') (gabs s'')" using gabs_step runs_snoc IH by blast
  then show ?case
    using IH runs_snoc.prems(3) ginv_step [OF runs_snoc.hyps(2) IH(2)]
    by cases auto
qed simp

lemma grace_period:
  assumes "ginv s0" "gstep Drain_call s0 s1" "runs gstep s1 es s2" "gstep Drain_return s2 s3"
    and "Drain_return \<notin> set es" "t \<in> inside (gabs s0)"
  shows "Leave t \<in> set es"
proof -
  have "rcu_step Drain_call (gabs s0) (gabs s1)" using assms(1,2) gabs_step by blast
  then have "waiting (gabs s1) = Some (inside (gabs s0))" by (auto elim: rcu_stepE)
  then have w: "waiting (gabs s2) = Some (inside (gabs s0) - {t. Leave t \<in> set es})"
    and "ginv s2"
    using runs_waiting assms ginv_step by blast+
  then have "rcu_step Drain_return (gabs s2) (gabs s3)" using assms(4) gabs_step by blast
  then have "waiting (gabs s2) = Some {}" by (auto elim: rcu_stepE)
  with w assms(6) show ?thesis by auto
qed

end

definition drain_running :: "psys \<Rightarrow> bool" where
  "drain_running s \<longleftrightarrow> dr s \<noteq> DIdle \<and> dr s \<noteq> DDone"

definition rcu_of :: "psys \<Rightarrow> rcu" where
  "rcu_of s = \<lparr>inside = active s, waiting = (if drain_running s then Some (awaited s) else None)\<rparr>"

lemma active_outside: "\<forall>p. rd s t \<noteq> RIn p \<Longrightarrow> active s - {t} = active s"
  by (auto simp: active_def)

lemma awaited_done:
  assumes "awaited_inv s" "dr s = DDone"
  shows "awaited s = {}"
proof (rule ccontr)
  assume "awaited s \<noteq> {}"
  then obtain t where t: "t \<in> awaited s" by blast
  then obtain p where "rd s t = RIn p" using assms(1) by (force simp: awaited_inv_def active_def)
  with t assms show False by (auto simp: awaited_inv_def passed_def)
qed

lemma rcu_of_step:
  assumes "phaser_step N e s s'" "phaser_inv N s" "N < 2 ^ 31"
  shows "rcu_step e (rcu_of s) (rcu_of s')"
  using assms(1)
proof cases
  case (inc t p)
  then have "t \<notin> active s" by (auto simp: active_def)
  then show ?thesis
    using rcu_enter [of t "rcu_of s"] inc by (auto simp: rcu_of_def drain_running_def split: if_splits)
next
  case (exit_quiet t p)
  then have "t \<in> active s" by (auto simp: active_def)
  then show ?thesis
    using rcu_leave [of t "rcu_of s"] exit_quiet
    by (auto simp: rcu_of_def drain_running_def split: if_splits)
next
  case (exit_drained t p)
  then have "t \<in> active s" by (auto simp: active_def)
  then show ?thesis
    using rcu_leave [of t "rcu_of s"] exit_drained(1-3)
    by (auto simp: rcu_of_def drain_running_def split: if_splits)
next
  case (futex_wake t p)
  then have "t \<notin> active s" by (auto simp: active_def)
  then show ?thesis
    using rcu_internal [of "rcu_of s"] futex_wake
    by (auto simp: rcu_of_def drain_running_def wake_def split: if_splits)
next
  case drain_call
  then show ?thesis
    using rcu_call [of "rcu_of s"] by (auto simp: rcu_of_def drain_running_def)
next
  case (drain_and_last p)
  have "awaited_inv s'" using awaited_inv_step [OF assms] .
  then have "awaited s = {}" using awaited_done [of s'] drain_and_last by simp
  then show ?thesis
    using rcu_return [of "rcu_of s"] drain_and_last by (simp add: rcu_of_def drain_running_def)
qed (use rcu_internal [of "rcu_of s"] in \<open>auto simp: rcu_of_def drain_running_def active_outside\<close>)

text \<open>The interpretation: at most \<open>2^31 - 1\<close> readers, so that a count cannot reach the bit.\<close>

definition max_readers :: nat where
  "max_readers = 2 ^ 31 - 1"

interpretation phaser_gp: grace_period "phaser_step max_readers" "phaser_inv max_readers" rcu_of
  by unfold_locales (auto simp: max_readers_def intro: phaser_inv_step rcu_of_step)

lemma phaser_reach_max_inv: "phaser_reach max_readers s \<Longrightarrow> phaser_inv max_readers s"
  by (rule phaser_reach_inv) (simp_all add: max_readers_def)

section \<open>The contract of the functions run alone\<close>

definition phaser_ready :: "phaser_t \<Rightarrow> bool" where
  "phaser_ready p \<longleftrightarrow> (\<exists>a b. counter p = [a, b] \<and> a AND DRAINING = 0 \<and> b AND DRAINING = 0)"

definition phaser_quiet :: "phaser_t \<Rightarrow> bool" where
  "phaser_quiet p \<longleftrightarrow> counter p = [0, 0]"

lemma phaser_enter_first:
  assumes "counter p = [a, b]" "a AND DRAINING = 0"
  shows "phaser_enter p = Some (0, p\<lparr>counter := [a + 1, b]\<rparr>)"
  using assms
  by (simp add: phaser_enter_def phaser_enter_from.simps [of p 0] phaser_counter_try_inc_def)

lemma phaser_enter_second:
  assumes "counter p = [a, b]" "a AND DRAINING \<noteq> 0" "b AND DRAINING = 0"
  shows "phaser_enter p = Some (1, p\<lparr>counter := [a, b + 1]\<rparr>)"
  using assms
  by (simp add: phaser_enter_def phaser_enter_from.simps [of p 0] phaser_enter_from.simps [of p 1]
      phaser_counter_try_inc_def NUM_PHASES_def)

lemma drain_wait_Some:
  assumes "drain_wait c v = Some r"
  shows "c = COUNT_DRAINED \<or> v = COUNT_DRAINED"
proof (rule drain_wait.raw_induct [where P = "\<lambda>c v r. c = COUNT_DRAINED \<or> v = COUNT_DRAINED", OF _ assms])
  fix f c v r
  assume "\<And>c v r. f c v = Some r \<Longrightarrow> c = COUNT_DRAINED \<or> v = COUNT_DRAINED"
    and "(if v \<noteq> COUNT_DRAINED then f c c else Some ()) = Some r"
  then show "c = COUNT_DRAINED \<or> v = COUNT_DRAINED" by (auto split: if_splits)
qed

lemma drain_wait_iff: "drain_wait c c = (if c = COUNT_DRAINED then Some () else None)"
proof (cases "c = COUNT_DRAINED")
  case True
  then show ?thesis by (subst drain_wait.simps) simp
next
  case False
  then show ?thesis using drain_wait_Some [of c c] by (cases "drain_wait c c") auto
qed

lemma phaser_drain_quiet:
  assumes "phaser_quiet p"
  shows "phaser_drain p = Some p"
proof -
  have "phaser_drain p = phaser_drain_from (Suc (Suc 0)) 0 p"
    by (simp add: phaser_drain_def NUM_PHASES_def numeral_2_eq_2 [symmetric])
  then show ?thesis using assms
    by (simp add: phaser_quiet_def phaser_drain_counter_def drain_wait_iff word_eval)
qed

text \<open>What a client of the phaser relies on when its own code runs alone.\<close>

locale critical_region =
  fixes cr_init :: "'p \<Rightarrow> int \<times> 'p"
    and cr_enter :: "'p \<Rightarrow> ('tok \<times> 'p) option"
    and cr_exit :: "'p \<Rightarrow> 'tok \<Rightarrow> 'p \<times> bool"
    and cr_drain :: "'p \<Rightarrow> 'p option"
    and ready :: "'p \<Rightarrow> bool"
    and quiet :: "'p \<Rightarrow> bool"
  assumes init_quiet: "quiet (snd (cr_init p))"
    and init_succeeds: "fst (cr_init p) = 0"
    and quiet_ready: "quiet p \<Longrightarrow> ready p"
    and enter_returns: "ready p \<Longrightarrow> \<exists>tok p'. cr_enter p = Some (tok, p')"
    and exit_enter: "ready p \<Longrightarrow> cr_enter p = Some (tok, p') \<Longrightarrow> fst (cr_exit p' tok) = p"
    and exit_silent: "ready p \<Longrightarrow> cr_enter p = Some (tok, p') \<Longrightarrow> \<not> snd (cr_exit p' tok)"
    and drain_quiet: "quiet p \<Longrightarrow> cr_drain p = Some p"
begin

text \<open>A bracketed body leaves the primitive as it found it, so brackets can follow each other.\<close>

lemma bracket:
  assumes "ready p"
  obtains tok p' where "cr_enter p = Some (tok, p')" "cr_exit p' tok = (p, False)"
  using enter_returns [OF assms] exit_enter [OF assms] exit_silent [OF assms]
  by (metis prod.collapse)

end

lemma phaser_enter_ready:
  assumes "phaser_ready p"
  obtains a b where "counter p = [a, b]" "phaser_enter p = Some (0, p\<lparr>counter := [a + 1, b]\<rparr>)"
    "a \<noteq> COUNT_DRAINED"
proof -
  obtain a b where "counter p = [a, b]" "a AND DRAINING = 0"
    using assms by (auto simp: phaser_ready_def)
  moreover from this have "a \<noteq> COUNT_DRAINED" by (auto simp: word_eval)
  ultimately show ?thesis using that phaser_enter_first by blast
qed

interpretation phaser_cr: critical_region phaser_init phaser_enter phaser_exit phaser_drain
    phaser_ready phaser_quiet
proof
  fix p tok p'
  show "phaser_quiet (snd (phaser_init p))" by (simp add: phaser_quiet_def phaser_init_counters)
  show "fst (phaser_init p) = 0" by (simp add: phaser_init_def)
  show "phaser_quiet p \<Longrightarrow> phaser_ready p" by (simp add: phaser_quiet_def phaser_ready_def)
  show "phaser_quiet p \<Longrightarrow> phaser_drain p = Some p" by (rule phaser_drain_quiet)
  assume r: "phaser_ready p"
  then show "\<exists>tok p'. phaser_enter p = Some (tok, p')" by (blast elim: phaser_enter_ready)
  assume "phaser_enter p = Some (tok, p')"
  with r obtain a b where "counter p = [a, b]" "tok = 0" "p' = p\<lparr>counter := [a + 1, b]\<rparr>"
    "a \<noteq> COUNT_DRAINED"
    by (auto elim: phaser_enter_ready)
  then show "fst (phaser_exit p' tok) = p" and "\<not> snd (phaser_exit p' tok)"
    by (simp_all add: phaser_exit_def)
qed

section \<open>Progress of the drainer\<close>

definition readers_gone :: "psys \<Rightarrow> bool" where
  "readers_gone s \<longleftrightarrow> phaser_inv max_readers s \<and> (\<forall>t. rd s t = RIdle)"

definition can_finish :: "psys \<Rightarrow> bool" where
  "can_finish s \<longleftrightarrow>
     (\<exists>es s'. runs (phaser_step max_readers) s es s' \<and> dr s' = DDone \<and> rd s' = rd s)"

lemma can_finish_step:
  "phaser_step max_readers e s s' \<Longrightarrow> rd s' = rd s \<Longrightarrow> can_finish s' \<Longrightarrow> can_finish s"
  by (fastforce simp: can_finish_def intro: runs_Cons)

lemma readers_gone_step:
  "phaser_step max_readers e s s' \<Longrightarrow> rd s' = rd s \<Longrightarrow> readers_gone s \<Longrightarrow> readers_gone s'"
  by (simp add: readers_gone_def) (meson phaser_reach_max_inv phaser_gp.ginv_step)

lemma readers_gone_cnt:
  assumes "readers_gone s" "p = 0 \<or> p = 1"
  shows "cnt s p = (if drain_phase (dr s) = Some p then COUNT_DRAINED else 0)"
proof -
  have "in_phase s p = {}" using assms by (auto simp: readers_gone_def in_phase_def)
  then show ?thesis using assms
    by (auto simp: readers_gone_def phaser_inv_def counts_inv_def count_ok_def word_eval)
qed

lemma finish_phase:
  assumes p: "p = 0 \<or> p = 1"
    and fin: "\<And>s. readers_gone s \<Longrightarrow> dr s = DAnd p \<Longrightarrow> can_finish s"
    and g: "readers_gone s"
  shows "dr s = DLoad p \<Longrightarrow> can_finish s" and "dr s = DTest p v \<Longrightarrow> can_finish s"
    and "dr s = DOr p \<Longrightarrow> can_finish s"
proof -
  have test: "can_finish s" if "dr s = DTest p COUNT_DRAINED" "readers_gone s" for s
  proof -
    have st: "phaser_step max_readers Internal s (s\<lparr>dr := DAnd p\<rparr>)"
      using that by (blast intro: phaser_step.test_done)
    moreover have "readers_gone (s\<lparr>dr := DAnd p\<rparr>)"
      using readers_gone_step [OF st] that(2) by simp
    ultimately show ?thesis using fin by (auto intro: can_finish_step)
  qed
  have load: "can_finish s" if "dr s = DLoad p" "readers_gone s" for s
  proof -
    have st: "phaser_step max_readers Internal s (s\<lparr>dr := DTest p (cnt s p)\<rparr>)"
      using that by (blast intro: phaser_step.drain_load)
    moreover have "readers_gone (s\<lparr>dr := DTest p (cnt s p)\<rparr>)"
      using readers_gone_step [OF st] that(2) by simp
    ultimately show ?thesis using test readers_gone_cnt [OF that(2) p] that(1)
      by (auto intro!: can_finish_step [OF st] simp: drain_phase_def)
  qed
  show "dr s = DLoad p \<Longrightarrow> can_finish s" using load g by blast
  show "can_finish s" if "dr s = DTest p v"
  proof (cases "v = COUNT_DRAINED")
    case True
    then show ?thesis using test that g by blast
  next
    case False
    then have "cnt s p \<noteq> v" using readers_gone_cnt [OF g p] that by (simp add: drain_phase_def)
    then have st: "phaser_step max_readers Internal s (s\<lparr>dr := DLoad p\<rparr>)"
      using that False by (blast intro: phaser_step.futex_wouldblock)
    moreover have "readers_gone (s\<lparr>dr := DLoad p\<rparr>)" using readers_gone_step [OF st] g by simp
    ultimately show ?thesis using load by (auto intro: can_finish_step)
  qed
  show "can_finish s" if "dr s = DOr p"
  proof -
    let ?s = "(set_cnt p (cnt s p OR DRAINING) s)\<lparr>dr := DTest p (cnt s p OR DRAINING)\<rparr>"
    have st: "phaser_step max_readers Internal s ?s"
      using that by (blast intro: phaser_step.drain_or)
    moreover have "readers_gone ?s" using readers_gone_step [OF st] g by simp
    moreover have "cnt s p OR DRAINING = COUNT_DRAINED"
      using readers_gone_cnt [OF g p] that by (simp add: drain_phase_def word_eval)
    ultimately show ?thesis using test by (auto intro!: can_finish_step [OF st])
  qed
qed

lemma finish_last:
  assumes "readers_gone s" "dr s = DAnd 1"
  shows "can_finish s"
proof -
  let ?s = "(set_cnt 1 (cnt s 1 AND NOT DRAINING) s)\<lparr>dr := DDone\<rparr>"
  have "phaser_step max_readers Drain_return s ?s"
    using assms by (intro phaser_step.drain_and_last) (simp_all add: NUM_PHASES_def)
  moreover have "can_finish ?s" by (force simp: can_finish_def intro: runs_Nil)
  ultimately show ?thesis by (auto intro: can_finish_step)
qed

lemma finish_first:
  assumes "readers_gone s" "dr s = DAnd 0"
  shows "can_finish s"
proof -
  let ?s = "(set_cnt 0 (cnt s 0 AND NOT DRAINING) s)\<lparr>dr := DOr (0 + 1)\<rparr>"
  have st: "phaser_step max_readers Internal s ?s"
    using assms by (intro phaser_step.drain_and_next) (simp_all add: NUM_PHASES_def)
  have "readers_gone ?s" using readers_gone_step [OF st] assms by simp
  then have "can_finish ?s" using finish_phase(3) [of 1 ?s] finish_last by simp
  then show ?thesis by (rule can_finish_step [OF st, rotated]) simp
qed

section \<open>A concrete run\<close>

definition demo_sys :: "size_t list \<Rightarrow> rpc \<Rightarrow> dpc \<Rightarrow> nat set \<Rightarrow> psys" where
  "demo_sys c r d a = \<lparr>ph = \<lparr>counter = c\<rparr>, rd = (\<lambda>_. RIdle)(0 := r), dr = d, awaited = a\<rparr>"

lemmas demo_simps = demo_sys_def cnt_def set_cnt_def set_rd_def leave_def wake_def word_eval
  max_readers_def active_def

lemma demo_enter:
  "runs (phaser_step max_readers) (demo_sys [0, 0] RIdle DIdle {})
     [Internal, Internal, Enter 0] (demo_sys [1, 0] (RIn 0) DIdle {})"
proof -
  let ?st = "phaser_step max_readers"
  have 1: "?st Internal (demo_sys [0, 0] RIdle DIdle {}) (demo_sys [0, 0] (RLoad 0) DIdle {})"
    using phaser_step.enter_call [of 0 max_readers "demo_sys [0, 0] RIdle DIdle {}"]
    by (simp add: demo_simps)
  have 2: "?st Internal (demo_sys [0, 0] (RLoad 0) DIdle {}) (demo_sys [0, 0] (RInc 0) DIdle {})"
    using phaser_step.load_clear [of "demo_sys [0, 0] (RLoad 0) DIdle {}" 0 0 max_readers]
    by (simp add: demo_simps)
  have 3: "?st (Enter 0) (demo_sys [0, 0] (RInc 0) DIdle {}) (demo_sys [1, 0] (RIn 0) DIdle {})"
    using phaser_step.inc [of "demo_sys [0, 0] (RInc 0) DIdle {}" 0 0 max_readers]
    by (simp add: demo_simps)
  show ?thesis by (rule runs_Cons, rule 1, rule runs_Cons, rule 2, rule runs_one, rule 3)
qed

lemma demo_active: "active (demo_sys c (RIn p) d a) = {0}"
  by (auto simp: active_def demo_sys_def)

lemma demo_call:
  "phaser_step max_readers Drain_call (demo_sys [1, 0] (RIn 0) DIdle {})
     (demo_sys [1, 0] (RIn 0) (DOr 0) {0})"
  using phaser_step.drain_call [of "demo_sys [1, 0] (RIn 0) DIdle {}" max_readers]
  by (simp only: demo_active) (simp add: demo_sys_def)

lemma demo_sleep:
  "runs (phaser_step max_readers) (demo_sys [1, 0] (RIn 0) (DOr 0) {0})
     [Internal, Internal] (demo_sys [0x80000001, 0] (RIn 0) (DAsleep 0) {0})"
proof -
  let ?st = "phaser_step max_readers"
  let ?a = "demo_sys [0x80000001, 0] (RIn 0) (DTest 0 0x80000001) {0}"
  have 1: "?st Internal (demo_sys [1, 0] (RIn 0) (DOr 0) {0}) ?a"
    using phaser_step.drain_or [of "demo_sys [1, 0] (RIn 0) (DOr 0) {0}" 0 max_readers]
    by (simp add: demo_simps)
  have 2: "?st Internal ?a (demo_sys [0x80000001, 0] (RIn 0) (DAsleep 0) {0})"
    using phaser_step.futex_sleep [of ?a 0 "0x80000001" max_readers] by (simp add: demo_simps)
  show ?thesis by (rule runs_Cons, rule 1, rule runs_one, rule 2)
qed

lemma demo_wake:
  "runs (phaser_step max_readers) (demo_sys [0x80000001, 0] (RIn 0) (DAsleep 0) {0})
     [Leave 0, Internal] (demo_sys [0x80000000, 0] RIdle (DLoad 0) {})"
proof -
  let ?st = "phaser_step max_readers"
  let ?b = "demo_sys [0x80000001, 0] (RIn 0) (DAsleep 0) {0}"
  let ?c = "demo_sys [0x80000000, 0] (RWake 0) (DAsleep 0) {}"
  have 1: "?st (Leave 0) ?b ?c"
    using phaser_step.exit_drained [of ?b 0 0 max_readers] by (simp add: demo_simps)
  have 2: "?st Internal ?c (demo_sys [0x80000000, 0] RIdle (DLoad 0) {})"
    using phaser_step.futex_wake [of ?c 0 0 max_readers] by (simp add: demo_simps)
  show ?thesis by (rule runs_Cons, rule 1, rule runs_one, rule 2)
qed

lemmas demo_first = runs_append [OF demo_wake demo_sleep]

lemma demo_second:
  "runs (phaser_step max_readers) (demo_sys [0x80000000, 0] RIdle (DLoad 0) {})
     [Internal, Internal, Internal, Internal, Internal]
     (demo_sys [0, 0x80000000] RIdle (DAnd 1) {})"
proof -
  let ?st = "phaser_step max_readers"
  let ?a = "demo_sys [0x80000000, 0] RIdle (DLoad 0) {}"
  let ?b = "demo_sys [0x80000000, 0] RIdle (DTest 0 0x80000000) {}"
  let ?c = "demo_sys [0x80000000, 0] RIdle (DAnd 0) {}"
  let ?d = "demo_sys [0, 0] RIdle (DOr 1) {}"
  let ?e = "demo_sys [0, 0x80000000] RIdle (DTest 1 0x80000000) {}"
  have 1: "?st Internal ?a ?b"
    using phaser_step.drain_load [of ?a 0 max_readers] by (simp add: demo_simps)
  have 2: "?st Internal ?b ?c"
    using phaser_step.test_done [of ?b 0 COUNT_DRAINED max_readers, OF _ refl] by (simp add: demo_simps)
  have 3: "?st Internal ?c ?d"
    using phaser_step.drain_and_next [of ?c 0 max_readers] by (simp add: demo_simps)
  have 4: "?st Internal ?d ?e"
    using phaser_step.drain_or [of ?d 1 max_readers] by (simp add: demo_simps)
  have 5: "?st Internal ?e (demo_sys [0, 0x80000000] RIdle (DAnd 1) {})"
    using phaser_step.test_done [of ?e 1 COUNT_DRAINED max_readers, OF _ refl] by (simp add: demo_simps)
  show ?thesis by (rule runs_Cons, rule 1, rule runs_Cons, rule 2, rule runs_Cons, rule 3, rule runs_Cons, rule 4, rule runs_one, rule 5)
qed

lemma demo_return:
  "phaser_step max_readers Drain_return (demo_sys [0, 0x80000000] RIdle (DAnd 1) {})
     (demo_sys [0, 0] RIdle DDone {})"
  using phaser_step.drain_and_last [of "demo_sys [0, 0x80000000] RIdle (DAnd 1) {}" 1 max_readers]
  by (simp add: demo_simps)

lemma phaser_reach_runs:
  "runs (phaser_step N) s es s' \<Longrightarrow> phaser_reach N s \<Longrightarrow> phaser_reach N s'"
  by (erule runs_invariant [where P = "phaser_reach N"]) (auto intro: phaser_reach.step)

lemma demo_reach: "phaser_reach max_readers (demo_sys [1, 0] (RIn 0) DIdle {})"
proof -
  have "init_psys \<lparr>counter = []\<rparr> = demo_sys [0, 0] RIdle DIdle {}"
    using phaser_init_counters [of "\<lparr>counter = []\<rparr>"]
    by (auto simp: init_psys_def demo_sys_def phaser_init_def)
  then have "phaser_reach max_readers (demo_sys [0, 0] RIdle DIdle {})"
    by (metis phaser_reach.start)
  with demo_enter show ?thesis by (rule phaser_reach_runs)
qed

lemma demo_reach_sleep: "phaser_reach max_readers (demo_sys [0x80000001, 0] (RIn 0) (DAsleep 0) {0})"
  by (rule phaser_reach_runs [OF demo_sleep]) (rule phaser_reach.step [OF demo_reach demo_call])

lemma demo_reach_gone: "phaser_reach max_readers (demo_sys [0x80000000, 0] RIdle (DLoad 0) {})"
  by (rule phaser_reach_runs [OF demo_wake demo_reach_sleep])

section \<open>Properties\<close>

text \<open>C1. \<open>phaser_drain\<close> gives a grace period: if a drain is called in a reachable state and
  returns, then every critical section that was active at the call has ended in between,
  under every interleaving of up to \<open>max_readers\<close> readers with the drainer.
\<close>

theorem phaser_drain_grace_period:
  assumes "phaser_reach max_readers s0" "phaser_step max_readers Drain_call s0 s1"
    and "runs (phaser_step max_readers) s1 es s2" "Drain_return \<notin> set es"
    and "phaser_step max_readers Drain_return s2 s3" "t \<in> active s0"
  shows "Leave t \<in> set es"
  using phaser_gp.grace_period [of s0 s1 es s2 s3 t] phaser_reach_max_inv assms
  by (simp add: rcu_of_def)

theorem phaser_drain_grace_period_witness:
  "\<exists>s0 s1 s2 s3 es. phaser_reach max_readers s0 \<and> phaser_step max_readers Drain_call s0 s1
     \<and> runs (phaser_step max_readers) s1 es s2 \<and> phaser_step max_readers Drain_return s2 s3
     \<and> 0 \<in> active s0 \<and> Leave 0 \<in> set es"
proof -
  let ?es = "([Internal, Internal] @ [Leave 0, Internal]) @ [Internal, Internal, Internal, Internal, Internal]"
  have r: "runs (phaser_step max_readers) (demo_sys [1, 0] (RIn 0) (DOr 0) {0}) ?es
      (demo_sys [0, 0x80000000] RIdle (DAnd 1) {})"
    by (rule runs_append [OF demo_second demo_first])
  have "Leave 0 \<in> set ?es"
    by (rule phaser_drain_grace_period [OF demo_reach demo_call r _ demo_return])
      (simp_all add: demo_active)
  with demo_reach demo_call r demo_return demo_active show ?thesis by blast
qed

text \<open>C2. The interleaving semantics refines the abstract machine of grace periods: every
  atomic step from a reachable state is the step of the abstract machine that its event
  names (a stutter when it is internal).
\<close>

theorem phaser_refines_rcu:
  assumes "phaser_reach max_readers s" "phaser_step max_readers e s s'"
  shows "rcu_step e (rcu_of s) (rcu_of s')"
  using phaser_gp.gabs_step [OF assms(2)] phaser_reach_max_inv [OF assms(1)] by blast

theorem phaser_refines_rcu_witness:
  "rcu_step Drain_call (rcu_of (demo_sys [1, 0] (RIn 0) DIdle {}))
     (rcu_of (demo_sys [1, 0] (RIn 0) (DOr 0) {0}))"
  by (rule phaser_refines_rcu [OF demo_reach demo_call])

text \<open>C3. No wake-up is lost: whenever the drainer sleeps on a counter, a reader is still
  inside with that counter or is just about to issue the wake-up.
\<close>

theorem phaser_no_lost_wakeup:
  assumes "phaser_reach max_readers s" "dr s = DAsleep p"
  shows "\<exists>t. rd s t = RIn p \<or> rd s t = RWake p"
proof (cases "cnt s p = COUNT_DRAINED")
  case True
  then show ?thesis using phaser_reach_max_inv [OF assms(1)] assms(2)
    by (auto simp: phaser_inv_def wakeup_inv_def)
next
  case False
  have inv: "phaser_inv max_readers s" by (rule phaser_reach_max_inv [OF assms(1)])
  then have "p = 0 \<or> p = 1" using shape_dr(3) assms(2) by (auto simp: phaser_inv_def)
  then have "in_phase s p \<noteq> {}" using inv False assms(2)
    by (auto simp: phaser_inv_def counts_inv_def count_ok_def drain_phase_def word_eval)
  then show ?thesis by (auto simp: in_phase_def)
qed

theorem phaser_no_lost_wakeup_witness:
  "\<exists>t. rd (demo_sys [0x80000001, 0] (RIn 0) (DAsleep 0) {0}) t = RIn 0
     \<or> rd (demo_sys [0x80000001, 0] (RIn 0) (DAsleep 0) {0}) t = RWake 0"
  by (rule phaser_no_lost_wakeup [OF demo_reach_sleep]) (simp add: demo_sys_def)

text \<open>C4. \<open>phaser_enter\<close> is infallible: from the counters of any reachable state, drain or no
  drain, its search ends, on a counter whose DRAINING bit is clear, which it increments.
\<close>

theorem phaser_enter_infallible:
  assumes "phaser_reach max_readers s"
  shows "\<exists>p ph'. phaser_enter (ph s) = Some (p, ph') \<and> p < NUM_PHASES \<and> cnt s p AND DRAINING = 0
    \<and> ph' = (ph s)\<lparr>counter := (counter (ph s))[unat p := cnt s p + 1]\<rparr>"
proof -
  have inv: "shape_inv max_readers s" "counts_inv s"
    using phaser_reach_max_inv [OF assms] by (auto simp: phaser_inv_def)
  have N: "max_readers < 2 ^ 31" by (simp add: max_readers_def)
  obtain a b where ab: "counter (ph s) = [a, b]"
    using inv(1) by (auto simp: shape_inv_def length_Suc_conv numeral_2_eq_2)
  have clear: "cnt s p AND DRAINING = 0" if d: "drain_phase (dr s) \<noteq> Some p" and p: "p = 0 \<or> p = 1" for p
    using count_okD [OF inv(2,1) N p] d high_count_test(1) by (simp add: word_eval)
  show ?thesis
  proof (cases "a AND DRAINING = 0")
    case True
    then show ?thesis using ab phaser_enter_first [OF ab] by (auto simp: cnt_def NUM_PHASES_def)
  next
    case False
    then have "drain_phase (dr s) = Some 0" using clear [of 0] ab by (auto simp: cnt_def)
    then have "b AND DRAINING = 0" using clear [of 1] ab by (auto simp: cnt_def)
    then show ?thesis using ab phaser_enter_second [OF ab False] by (auto simp: cnt_def NUM_PHASES_def)
  qed
qed

theorem phaser_enter_infallible_witness:
  "\<exists>p ph'. phaser_enter (ph (demo_sys [1, 0] (RIn 0) DIdle {})) = Some (p, ph') \<and> p < NUM_PHASES"
  using phaser_enter_infallible [OF demo_reach] by blast



end
