(* ===== verification/Sigmux.thy ===== *)
theory Sigmux
  imports Phaser
begin

text \<open>
  The signal multiplexer of \<open>sigmux.c\<close>: the global state with its doubly linked list of
  registrations (an explicit store of links, since unregistering patches its neighbours),
  the saved \<open>struct sigaction\<close> objects behind pointers (they are swapped and updated in
  place), the kernel's table of actions, and every function of the file. The handlers
  that clients register are a parameter of the definitions that call them.
\<close>

section \<open>Constants of the platform\<close>

text \<open>Values of bionic on the 32-bit ABIs.\<close>

abbreviation "SIGILL \<equiv> (4::int)"
abbreviation "SIGABRT \<equiv> (6::int)"
abbreviation "SIGBUS \<equiv> (7::int)"
abbreviation "SIGKILL \<equiv> (9::int)"
abbreviation "SIGSEGV \<equiv> (11::int)"
abbreviation "SIGCHLD \<equiv> (17::int)"
abbreviation "SIGSTOP \<equiv> (19::int)"
abbreviation "SIGTSTP \<equiv> (20::int)"
abbreviation "SIGTTIN \<equiv> (21::int)"
abbreviation "SIGTTOU \<equiv> (22::int)"
abbreviation "SIGWINCH \<equiv> (28::int)"
abbreviation "NSIG \<equiv> (65::int)"

abbreviation "SA_SIGINFO \<equiv> (0x4::u32)"
abbreviation "SA_ONSTACK \<equiv> (0x08000000::u32)"
abbreviation "SA_RESTART \<equiv> (0x10000000::u32)"
abbreviation "SA_NODEFER \<equiv> (0x40000000::u32)"
abbreviation "SA_RESETHAND \<equiv> (0x80000000::u32)"

abbreviation "SIG_DFL \<equiv> (0::uintptr)"
abbreviation "SIG_IGN \<equiv> (1::uintptr)"
abbreviation "EINVAL \<equiv> (22::int)"

section \<open>Data\<close>

definition SIGMUX_LOW_PRIORITY :: u32 where "SIGMUX_LOW_PRIORITY = 1"
definition SIGMUX_HANDLE_SIGNAL_NORMAL_PRIORITY :: u32 where
  "SIGMUX_HANDLE_SIGNAL_NORMAL_PRIORITY = 1"
definition SIGMUX_HANDLE_SIGNAL_LOW_PRIORITY :: u32 where
  "SIGMUX_HANDLE_SIGNAL_LOW_PRIORITY = 2"
definition SIGMUX_HANDLE_SIGNAL_INVOKE_DEFAULT :: u32 where
  "SIGMUX_HANDLE_SIGNAL_INVOKE_DEFAULT = 4"

datatype sigmux_action = SIGMUX_CONTINUE_SEARCH | SIGMUX_CONTINUE_EXECUTION

text \<open>\<open>sa_fn\<close> is the union of \<open>sa_handler\<close> and \<open>sa_sigaction\<close>, one word in memory.\<close>

record sigact =
  sa_fn :: uintptr
  sa_flags :: u32
  sa_mask :: "int set"

record sigmux_siginfo =
  signum :: int
  info :: uintptr
  sigcontext :: uintptr

record sigmux_siginfo_internal = sigmux_siginfo +
  phase :: phaser_phase

datatype link_ptr = Handlers | RegLink nat

record sigmux_registration_link =
  prev_link :: link_ptr
  next_link :: link_ptr

record sigmux_registration =
  signals :: "int set"
  handler :: uintptr
  handler_data :: uintptr
  reg_flags :: u32

type_synonym sigmux_sigset = "u8 list"
type_synonym ksig = "int \<Rightarrow> sigact"
type_synonym sigaction_function = "int \<Rightarrow> sigact option \<Rightarrow> ksig \<Rightarrow> int \<times> sigact option \<times> ksig"

record sigmux_global =
  lock :: bool
  phaser :: phaser_t
  phaser_needs_init :: bool
  orig_sigact :: "int \<Rightarrow> nat option"
  alt_sigact :: "int \<Rightarrow> nat option"
  sigacts :: "nat \<Rightarrow> sigact"
  links :: "link_ptr \<Rightarrow> sigmux_registration_link"
  regs :: "nat \<rightharpoonup> sigmux_registration"
  real_sigaction :: "sigaction_function option"
  initsig :: sigmux_sigset
  errno :: int
  kernel :: ksig
  brk :: nat
  calloc_ok :: "nat \<Rightarrow> bool"

text \<open>What a registered handler does when called: it returns an action, or it leaves
  through \<open>sigmux_longjmp\<close> to a buffer with a value.\<close>

datatype handler_outcome = Returns sigmux_action | Longjmp uintptr int

type_synonym 'w handlers = "sigmux_registration \<Rightarrow> sigmux_siginfo \<Rightarrow> 'w \<Rightarrow> handler_outcome \<times> 'w"

text \<open>System calls that handling a signal issues, in order.\<close>

datatype effect = Fatal_hook | Sigmask_set "int set" | Sigmask_unblock int
  | Call_sigaction uintptr int uintptr uintptr | Call_handler uintptr int
  | Reset_to_default int | Raise int | Abort

section \<open>The kernel and the allocator\<close>

text \<open>\<open>sigismember(3)\<close> on a \<open>sigset_t\<close>.\<close>

definition sys_sigismember :: "int set \<Rightarrow> int \<Rightarrow> int" where
  "sys_sigismember ss n = (if 0 < n \<and> n < NSIG then (if n \<in> ss then 1 else 0) else -1)"

definition zero_sigact :: sigact where
  "zero_sigact = \<lparr>sa_fn = 0, sa_flags = 0, sa_mask = {}\<rparr>"

text \<open>\<open>sigaction(2)\<close>: returns the result, what is stored through \<open>oldact\<close>, the new table.\<close>

definition sys_sigaction :: sigaction_function where
  "sys_sigaction n act k =
     (if \<not> (0 < n \<and> n < NSIG) \<or> act \<noteq> None \<and> (n = SIGKILL \<or> n = SIGSTOP) then (-1, None, k)
      else (0, Some (k n), (case act of None \<Rightarrow> k | Some a \<Rightarrow> k(n := a))))"

text \<open>\<open>calloc\<close> returns a fresh zeroed object or NULL, as the environment decides.\<close>

definition calloc_sigact :: "sigmux_global \<Rightarrow> nat option \<times> sigmux_global" where
  "calloc_sigact g =
     (if calloc_ok g (brk g)
      then (Some (brk g), g\<lparr>sigacts := (sigacts g)(brk g := zero_sigact), brk := brk g + 1\<rparr>)
      else (None, g\<lparr>brk := brk g + 1\<rparr>))"

definition mutex_lock :: "sigmux_global \<Rightarrow> sigmux_global" where
  "mutex_lock g = g\<lparr>lock := True\<rparr>"

definition mutex_unlock :: "sigmux_global \<Rightarrow> sigmux_global" where
  "mutex_unlock g = g\<lparr>lock := False\<rparr>"

text \<open>\<open>__atomic_compare_exchange_n\<close>: the new memory word and the new \<open>expected\<close>.\<close>

definition compare_exchange :: "'a \<Rightarrow> 'a \<Rightarrow> 'a \<Rightarrow> 'a \<times> 'a" where
  "compare_exchange mem expected desired =
     (if mem = expected then (desired, expected) else (mem, mem))"

section \<open>The functions of sigmux.c\<close>

definition sigmux_global_init :: "ksig \<Rightarrow> (nat \<Rightarrow> bool) \<Rightarrow> sigmux_global" where
  "sigmux_global_init k ok =
     \<lparr>lock = False, phaser = \<lparr>counter = [0, 0]\<rparr>, phaser_needs_init = True,
      orig_sigact = (\<lambda>_. None), alt_sigact = (\<lambda>_. None), sigacts = (\<lambda>_. zero_sigact),
      links = (\<lambda>_. \<lparr>prev_link = Handlers, next_link = Handlers\<rparr>), regs = Map.empty,
      real_sigaction = None, initsig = replicate 9 0, errno = 0, kernel = k, brk = 0,
      calloc_ok = ok\<rparr>"

definition invoke_real_sigaction ::
  "int \<Rightarrow> sigact option \<Rightarrow> sigmux_global \<Rightarrow> int \<times> sigact option \<times> sigmux_global" where
  "invoke_real_sigaction n act g =
     (let (r, old, k) = (case real_sigaction g of None \<Rightarrow> sys_sigaction | Some f \<Rightarrow> f) n act (kernel g)
      in (r, old, g\<lparr>kernel := k\<rparr>))"

text \<open>\<open>sigmux_sigismember\<close>: the result and the new \<open>errno\<close>.\<close>

definition sigmux_sigismember :: "sigmux_sigset \<Rightarrow> int \<Rightarrow> int \<Rightarrow> int \<times> int" where
  "sigmux_sigismember ss n err =
     (if \<not> (0 < n \<and> n < NSIG) then (-1, EINVAL)
      else (if ss ! nat (n div 8) AND push_bit (nat (n mod 8)) 1 \<noteq> 0 then 1 else 0, err))"

definition sigmux_sigaddset :: "sigmux_sigset \<Rightarrow> int \<Rightarrow> sigmux_sigset" where
  "sigmux_sigaddset ss n =
     ss[nat (n div 8) := ss ! nat (n div 8) OR push_bit (nat (n mod 8)) 1]"

definition signal_default_fatal_p :: "int \<Rightarrow> bool" where
  "signal_default_fatal_p n = (if n = SIGCHLD \<or> n = SIGWINCH then False else True)"

definition signal_always_fatal_p :: "int \<Rightarrow> bool" where
  "signal_always_fatal_p n = (n = SIGSEGV \<or> n = SIGBUS \<or> n = SIGABRT \<or> n = SIGILL)"

definition set_sigmask_for_handler :: "sigact \<Rightarrow> int \<Rightarrow> effect" where
  "set_sigmask_for_handler a n =
     Sigmask_set (if sa_flags a AND SA_NODEFER = 0 then insert n (sa_mask a) else sa_mask a)"

definition invoke_sighandler :: "sigact \<Rightarrow> int \<Rightarrow> uintptr \<Rightarrow> uintptr \<Rightarrow> effect list" where
  "invoke_sighandler a n nfo ctx =
     (let is_siginfo = (sa_flags a AND SA_SIGINFO \<noteq> 0);
          is_default = (if is_siginfo then sa_fn a = 0 else sa_fn a = SIG_DFL);
          is_ignore = (\<not> is_siginfo \<and> sa_fn a = SIG_IGN)
      in (if signal_always_fatal_p n then [Fatal_hook] else []) @
         (if is_siginfo \<and> \<not> is_default \<and> \<not> is_ignore
          then [set_sigmask_for_handler a n, Call_sigaction (sa_fn a) n nfo ctx]
          else if \<not> is_siginfo \<and> \<not> is_default \<and> \<not> is_ignore
          then [set_sigmask_for_handler a n, Call_handler (sa_fn a) n]
          else if signal_always_fatal_p n \<or> is_default \<and> signal_default_fatal_p n
          then [Reset_to_default n, Sigmask_unblock n, Raise n, Abort]
          else if is_default \<and> (n = SIGTSTP \<or> n = SIGTTIN \<or> n = SIGTTOU)
          then [Raise SIGSTOP]
          else []))"

text \<open>One of the two search loops: \<open>low\<close> selects the priority. \<open>None\<close> is a loop that never
  ends or that follows a dangling link.\<close>

partial_function (option) search_handlers ::
  "'w handlers \<Rightarrow> sigmux_global \<Rightarrow> bool \<Rightarrow> sigmux_siginfo \<Rightarrow> link_ptr \<Rightarrow> sigmux_action \<Rightarrow> 'w
     \<Rightarrow> (handler_outcome \<times> 'w) option" where
  "search_handlers h g low si it action w =
     (case it of
        Handlers \<Rightarrow> Some (Returns action, w)
      | RegLink r \<Rightarrow>
          if action \<noteq> SIGMUX_CONTINUE_SEARCH then Some (Returns action, w)
          else (case regs g r of
              None \<Rightarrow> None
            | Some reg \<Rightarrow>
                if (reg_flags reg AND SIGMUX_LOW_PRIORITY \<noteq> 0) = low \<and> sys_sigismember (signals reg) (signum si) \<noteq> 0
                then (case h reg si w of
                    (Returns a, w') \<Rightarrow> search_handlers h g low si (next_link (links g it)) a w'
                  | (Longjmp buf v, w') \<Rightarrow> Some (Longjmp buf v, w'))
                else search_handlers h g low si (next_link (links g it)) action w))"

text \<open>The one-shot part of \<open>sigmux_handle_signal\<close>: the copy to run and the new object.\<close>

definition take_next_handler :: "sigact \<Rightarrow> sigact \<times> sigact" where
  "take_next_handler obj =
     (let next_handler = obj
      in if sa_flags next_handler AND SA_RESETHAND \<noteq> 0
         then (let (m, e) = (if sa_flags next_handler AND SA_SIGINFO \<noteq> 0
                   then compare_exchange (sa_fn obj) (sa_fn next_handler) SIG_DFL
                   else compare_exchange (sa_fn obj) (sa_fn next_handler) 0)
               in (next_handler\<lparr>sa_fn := e\<rparr>,
                   obj\<lparr>sa_fn := m, sa_flags := sa_flags obj AND NOT SA_RESETHAND\<rparr>))
         else (next_handler, obj))"

text \<open>\<open>sigmux_longjmp\<close>: leave the region with the phase kept beside the public siginfo, jump.\<close>

definition sigmux_longjmp ::
  "sigmux_siginfo_internal \<Rightarrow> uintptr \<Rightarrow> int \<Rightarrow> sigmux_global \<Rightarrow> handler_outcome \<times> sigmux_global" where
  "sigmux_longjmp si buf v g =
     (Longjmp buf v, g\<lparr>phaser := fst (phaser_exit (phaser g) (phase si))\<rparr>)"

definition sigmux_handle_signal ::
  "'w handlers \<Rightarrow> int \<Rightarrow> uintptr \<Rightarrow> uintptr \<Rightarrow> u32 \<Rightarrow> sigmux_global \<Rightarrow> 'w
     \<Rightarrow> (handler_outcome \<times> effect list \<times> sigmux_global \<times> 'w) option" where
  "sigmux_handle_signal h n nfo ctx flags g0 w0 =
     (case phaser_enter (phaser g0) of
        None \<Rightarrow> None
      | Some (p, ph1) \<Rightarrow>
     (let g = g0\<lparr>phaser := ph1\<rparr>;
          si = \<lparr>signum = n, info = nfo, sigcontext = ctx, phase = p\<rparr>;
          pub = \<lparr>signum = n, info = nfo, sigcontext = ctx\<rparr>;
          reglist = next_link (links g Handlers);
          invoke_default = (flags AND SIGMUX_HANDLE_SIGNAL_INVOKE_DEFAULT \<noteq> 0)
      in case (if flags AND SIGMUX_HANDLE_SIGNAL_NORMAL_PRIORITY \<noteq> 0
               then search_handlers h g False pub reglist SIGMUX_CONTINUE_SEARCH w0
               else Some (Returns SIGMUX_CONTINUE_SEARCH, w0)) of
        None \<Rightarrow> None
      | Some (Longjmp buf v, w1) \<Rightarrow>
          (let (r, g') = sigmux_longjmp si buf v g in Some (r, [], g', w1))
      | Some (Returns a1, w1) \<Rightarrow>
     (case (if flags AND SIGMUX_HANDLE_SIGNAL_LOW_PRIORITY \<noteq> 0
            then search_handlers h g True pub reglist a1 w1
            else Some (Returns a1, w1)) of
        None \<Rightarrow> None
      | Some (Longjmp buf v, w2) \<Rightarrow>
          (let (r, g') = sigmux_longjmp si buf v g in Some (r, [], g', w2))
      | Some (Returns a2, w2) \<Rightarrow>
          if invoke_default \<and> a2 = SIGMUX_CONTINUE_SEARCH
          then (case orig_sigact g n of
                  None \<Rightarrow> None
                | Some ptr \<Rightarrow>
                    (let (next_handler, obj) = take_next_handler (sigacts g ptr);
                         g' = g\<lparr>sigacts := (sigacts g)(ptr := obj),
                                phaser := fst (phaser_exit (phaser g) p)\<rparr>
                     in Some (Returns SIGMUX_CONTINUE_EXECUTION,
                              invoke_sighandler next_handler n nfo ctx, g', w2)))
          else Some (Returns a2, [], g\<lparr>phaser := fst (phaser_exit (phaser g) p)\<rparr>, w2))))"

definition sigmux_handle_signal_1 ::
  "'w handlers \<Rightarrow> int \<Rightarrow> uintptr \<Rightarrow> uintptr \<Rightarrow> sigmux_global \<Rightarrow> 'w
     \<Rightarrow> (handler_outcome \<times> effect list \<times> sigmux_global \<times> 'w) option" where
  "sigmux_handle_signal_1 h n nfo ctx g w =
     map_option (\<lambda>(r, es, g', w'). (r, Sigmask_set {} # es, g', w'))
       (sigmux_handle_signal h n nfo ctx
          (SIGMUX_HANDLE_SIGNAL_NORMAL_PRIORITY OR SIGMUX_HANDLE_SIGNAL_LOW_PRIORITY OR
           SIGMUX_HANDLE_SIGNAL_INVOKE_DEFAULT) g w)"

text \<open>The action that \<open>sigmux_init\<close> installs; \<open>h1\<close> is the address of
  \<open>sigmux_handle_signal_1\<close>, which the linker chooses.\<close>

definition sigmux_newact :: "uintptr \<Rightarrow> sigact" where
  "sigmux_newact h1 = \<lparr>sa_fn = h1,
     sa_flags = SA_NODEFER OR SA_SIGINFO OR SA_ONSTACK OR SA_RESTART, sa_mask = {}\<rparr>"

definition allocate_orig :: "int \<Rightarrow> sigmux_global \<Rightarrow> nat option \<times> sigmux_global" where
  "allocate_orig n g =
     (case orig_sigact g n of
        Some p \<Rightarrow> (Some p, g)
      | None \<Rightarrow> (let (p, g') = calloc_sigact g in (p, g'\<lparr>orig_sigact := (orig_sigact g')(n := p)\<rparr>)))"

definition allocate_alt :: "int \<Rightarrow> sigmux_global \<Rightarrow> nat option \<times> sigmux_global" where
  "allocate_alt n g =
     (case alt_sigact g n of
        Some p \<Rightarrow> (Some p, g)
      | None \<Rightarrow> (let (p, g') = calloc_sigact g in (p, g'\<lparr>alt_sigact := (alt_sigact g')(n := p)\<rparr>)))"

text \<open>\<open>sigmux_init\<close>: each \<open>goto out\<close> is a branch that unlocks and returns -1.\<close>

definition sigmux_init_locked :: "uintptr \<Rightarrow> int \<Rightarrow> sigmux_global \<Rightarrow> int \<times> sigmux_global" where
  "sigmux_init_locked h1 n g =
     (let (r0, g1) = (if phaser_needs_init g
            then (let (r, ph') = phaser_init (phaser g)
                  in if r \<noteq> 0 then (-1 :: int, g\<lparr>phaser := ph'\<rparr>)
                     else (0, g\<lparr>phaser := ph', phaser_needs_init := False\<rparr>))
            else (0, g))
      in if r0 \<noteq> 0 then (-1, g1) else
     (let (ismem, err) = sigmux_sigismember (initsig g1) n (errno g1); g2 = g1\<lparr>errno := err\<rparr>
      in if ismem = -1 then (-1, g2)
         else if ismem = 0 then
           (let (orig, g3) = allocate_orig n g2
            in case orig of
                 None \<Rightarrow> (-1, g3)
               | Some op \<Rightarrow>
           (let (alt, g4) = allocate_alt n g3
            in if alt = None then (-1, g4) else
           (let (r, old, g5) = invoke_real_sigaction n (Some (sigmux_newact h1)) g4;
                g6 = (case old of None \<Rightarrow> g5 | Some a \<Rightarrow> g5\<lparr>sigacts := (sigacts g5)(op := a)\<rparr>)
            in if r \<noteq> 0 then (-1, g6)
               else (0, g6\<lparr>initsig := sigmux_sigaddset (initsig g6) n\<rparr>))))
         else (0, g2)))"

definition sigmux_init :: "uintptr \<Rightarrow> int \<Rightarrow> sigmux_global \<Rightarrow> int \<times> sigmux_global" where
  "sigmux_init h1 n g =
     (let (r, g') = sigmux_init_locked h1 n (mutex_lock g) in (r, mutex_unlock g'))"

text \<open>The stores to links, in the order of the code.\<close>

definition set_next :: "link_ptr \<Rightarrow> link_ptr \<Rightarrow> sigmux_global \<Rightarrow> sigmux_global" where
  "set_next a b g = g\<lparr>links := (links g)(a := (links g a)\<lparr>next_link := b\<rparr>)\<rparr>"

definition set_prev :: "link_ptr \<Rightarrow> link_ptr \<Rightarrow> sigmux_global \<Rightarrow> sigmux_global" where
  "set_prev a b g = g\<lparr>links := (links g)(a := (links g a)\<lparr>prev_link := b\<rparr>)\<rparr>"

definition link_front :: "link_ptr \<Rightarrow> sigmux_global \<Rightarrow> sigmux_global" where
  "link_front l g =
     (let g1 = set_next l (next_link (links g Handlers)) g;
          g2 = set_prev l Handlers g1;
          g3 = set_prev (next_link (links g2 l)) l g2
      in set_next Handlers l g3)"

definition unlink :: "link_ptr \<Rightarrow> sigmux_global \<Rightarrow> sigmux_global" where
  "unlink l g =
     (let g1 = set_next (prev_link (links g l)) (next_link (links g l)) g
      in set_prev (next_link (links g1 l)) (prev_link (links g1 l)) g1)"

definition sigmux_register ::
  "int set \<Rightarrow> uintptr \<Rightarrow> uintptr \<Rightarrow> u32 \<Rightarrow> sigmux_global \<Rightarrow> nat option \<times> sigmux_global" where
  "sigmux_register sigs fn dat flags g =
     (let r = brk g; g0 = g\<lparr>brk := r + 1\<rparr>
      in if \<not> calloc_ok g r then (None, g0)
         else (let g1 = g0\<lparr>regs := (regs g0)(r \<mapsto>
                    \<lparr>signals = sigs, handler = fn, handler_data = dat, reg_flags = flags\<rparr>)\<rparr>
               in (Some r, mutex_unlock (link_front (RegLink r) (mutex_lock g1)))))"

text \<open>\<open>sigmux_unregister\<close>: \<open>None\<close> when the drain does not return.\<close>

definition sigmux_unregister :: "nat \<Rightarrow> sigmux_global \<Rightarrow> sigmux_global option" where
  "sigmux_unregister r g =
     (let g1 = unlink (RegLink r) (mutex_lock g)
      in case phaser_drain (phaser g1) of
           None \<Rightarrow> None
         | Some ph' \<Rightarrow>
             (let g2 = mutex_unlock (g1\<lparr>phaser := ph'\<rparr>)
              in Some (g2\<lparr>regs := (regs g2)(r := None)\<rparr>)))"

definition pretend_default :: "sigact \<Rightarrow> bool" where
  "pretend_default a \<longleftrightarrow>
     sa_flags a AND SA_SIGINFO \<noteq> 0 \<and> sa_fn a = 0 \<or> sa_flags a AND SA_SIGINFO = 0 \<and> sa_fn a = SIG_DFL"

definition munge_oldact :: "sigact \<Rightarrow> sigact" where
  "munge_oldact a =
     (if pretend_default a
      then a\<lparr>sa_flags := sa_flags a AND NOT (SA_RESETHAND OR SA_SIGINFO), sa_fn := SIG_DFL\<rparr>
      else a)"

text \<open>\<open>sigmux_sigaction\<close>: the result and what is stored through \<open>oldact\<close> (\<open>want_old\<close>: the
  caller passed one). \<open>None\<close> stands for a NULL dereference or a drain that does not return.\<close>

definition sigmux_sigaction ::
  "int \<Rightarrow> sigact option \<Rightarrow> bool \<Rightarrow> sigmux_global \<Rightarrow> (int \<times> sigact option \<times> sigmux_global) option" where
  "sigmux_sigaction n act want_old g0 =
     (let g = mutex_lock g0;
          (ismem, err) = sigmux_sigismember (initsig g) n (errno g);
          g1 = g\<lparr>errno := err\<rparr>
      in if ismem = 0 \<or> n \<le> 0 \<or> n \<ge> NSIG
         then (let (r, old, g2) = invoke_real_sigaction n act (mutex_unlock g1)
               in Some (r, if want_old then old else None, g2))
         else (case (orig_sigact g1 n, alt_sigact g1 n) of
             (Some op, Some ap) \<Rightarrow>
               (let old = (if want_old then Some (munge_oldact (sigacts g1 op)) else None)
                in case act of
                     None \<Rightarrow> Some (0, old, mutex_unlock g1)
                   | Some a \<Rightarrow>
                       (let g2 = g1\<lparr>sigacts := (sigacts g1)(ap := a),
                                    orig_sigact := (orig_sigact g1)(n := Some ap),
                                    alt_sigact := (alt_sigact g1)(n := Some op)\<rparr>
                        in case phaser_drain (phaser g2) of
                             None \<Rightarrow> None
                           | Some ph' \<Rightarrow> Some (0, old, mutex_unlock (g2\<lparr>phaser := ph'\<rparr>))))
           | _ \<Rightarrow> None))"

definition sigmux_set_real_sigaction ::
  "sigaction_function option \<Rightarrow> sigmux_global \<Rightarrow> sigaction_function option \<times> sigmux_global" where
  "sigmux_set_real_sigaction f g =
     (let g1 = mutex_lock g
      in (real_sigaction g1, mutex_unlock (g1\<lparr>real_sigaction := f\<rparr>)))"

section \<open>The list behind the links\<close>

text \<open>\<open>seg L a xs b\<close>: from link \<open>a\<close> the registrations \<open>xs\<close> lead to link \<open>b\<close>, forwards by
  \<open>next\<close> and backwards by \<open>prev\<close>.\<close>

fun seg :: "(link_ptr \<Rightarrow> sigmux_registration_link) \<Rightarrow> link_ptr \<Rightarrow> nat list \<Rightarrow> link_ptr \<Rightarrow> bool" where
  "seg L a [] b = (next_link (L a) = b \<and> prev_link (L b) = a)"
| "seg L a (x # xs) b =
     (next_link (L a) = RegLink x \<and> prev_link (L (RegLink x)) = a \<and> seg L (RegLink x) xs b)"

definition handlers_list :: "sigmux_global \<Rightarrow> nat list \<Rightarrow> bool" where
  "handlers_list g xs \<longleftrightarrow> distinct xs \<and> seg (links g) Handlers xs Handlers
     \<and> set xs \<subseteq> dom (regs g) \<and> dom (regs g) \<subseteq> {..<brk g}"

lemma seg_append:
  "seg L a (xs @ y # ys) b \<longleftrightarrow> seg L a xs (RegLink y) \<and> seg L (RegLink y) ys b"
  by (induction xs arbitrary: a) auto

lemma seg_cong:
  assumes "\<And>c. c = a \<or> c \<in> RegLink ` set xs \<Longrightarrow> next_link (L' c) = next_link (L c)"
    and "\<And>c. c = b \<or> c \<in> RegLink ` set xs \<Longrightarrow> prev_link (L' c) = prev_link (L c)"
  shows "seg L' a xs b = seg L a xs b"
  using assms by (induction xs arbitrary: a) auto

lemma seg_first: "seg L a xs b \<Longrightarrow> next_link (L a) = (case xs of [] \<Rightarrow> b | x # _ \<Rightarrow> RegLink x)"
  by (cases xs) auto

lemma seg_last:
  "seg L a xs b \<Longrightarrow> prev_link (L b) = (if xs = [] then a else RegLink (last xs))"
  by (induction xs arbitrary: a) auto

lemma seg_link_front:
  assumes "seg (links g) Handlers xs Handlers" "r \<notin> set xs" "distinct xs"
  shows "seg (links (link_front (RegLink r) g)) Handlers (r # xs) Handlers"
proof (cases xs)
  case Nil
  then show ?thesis using assms by (simp add: link_front_def set_next_def set_prev_def Let_def)
next
  case (Cons x ys)
  let ?L = "links (link_front (RegLink r) g)"
  have ne: "x \<noteq> r" using assms(2) Cons by auto
  have "seg ?L (RegLink x) ys Handlers = seg (links g) (RegLink x) ys Handlers"
    using assms Cons ne by (intro seg_cong)
      (auto simp: link_front_def set_next_def set_prev_def Let_def)
  then show ?thesis using assms Cons ne
    by (auto simp: link_front_def set_next_def set_prev_def Let_def)
qed

lemma seg_bypass:
  assumes "seg L a us (RegLink r)" "seg L (RegLink r) vs b" "distinct (us @ r # vs)"
    and "a \<notin> RegLink ` set (us @ r # vs)" "b \<notin> RegLink ` set (us @ r # vs)"
    and n: "\<And>c. next_link (L' c) = (if c = prev_link (L (RegLink r)) then next_link (L (RegLink r)) else next_link (L c))"
    and p: "\<And>c. prev_link (L' c) = (if c = next_link (L (RegLink r)) then prev_link (L (RegLink r)) else prev_link (L c))"
  shows "seg L' a (us @ vs) b"
proof (cases us rule: rev_cases)
  case Nil
  show ?thesis
  proof (cases vs)
    case (Cons v ws)
    have "seg L' (RegLink v) ws b = seg L (RegLink v) ws b"
      using assms Nil Cons by (intro seg_cong) (auto simp: n p)
    then show ?thesis using assms Nil Cons by (auto simp: n p)
  qed (use assms Nil in \<open>simp add: n p\<close>)
next
  case (snoc ts u)
  have 1: "seg L a ts (RegLink u)" "seg L (RegLink u) [] (RegLink r)"
    using assms(1) snoc by (auto simp: seg_append)
  have "seg L' a ts (RegLink u) = seg L a ts (RegLink u)"
    using assms(3-5) 1(2) snoc seg_first [OF assms(2)]
    by (intro seg_cong) (auto simp: n p split: list.splits)
  moreover have "seg L' (RegLink u) vs b"
  proof (cases vs)
    case (Cons v ws)
    have "seg L' (RegLink v) ws b = seg L (RegLink v) ws b"
      using assms(2-5) 1(2) snoc Cons by (intro seg_cong) (auto simp: n p)
    then show ?thesis using assms(2) 1(2) Cons by (auto simp: n p)
  qed (use assms(2) 1(2) in \<open>simp add: n p\<close>)
  ultimately show ?thesis using 1 snoc by (cases "ts = []") (simp_all add: seg_append)
qed

lemma seg_unlink:
  assumes "seg (links g) Handlers (us @ r # vs) Handlers" "distinct (us @ r # vs)"
  shows "seg (links (unlink (RegLink r) g)) Handlers (us @ vs) Handlers"
proof (rule seg_bypass [where L = "links g" and r = r])
  have sp: "seg (links g) Handlers us (RegLink r)" "seg (links g) (RegLink r) vs Handlers"
    using assms(1) by (auto simp: seg_append)
  then show "seg (links g) Handlers us (RegLink r)" "seg (links g) (RegLink r) vs Handlers" .
  have ne: "prev_link (links g (RegLink r)) \<noteq> RegLink r" "next_link (links g (RegLink r)) \<noteq> RegLink r"
    using seg_last [OF sp(1)] seg_first [OF sp(2)] assms(2) by (auto split: list.splits)
  fix c
  show "next_link (links (unlink (RegLink r) g) c) =
      (if c = prev_link (links g (RegLink r)) then next_link (links g (RegLink r)) else next_link (links g c))"
    using ne by (auto simp: unlink_def set_next_def set_prev_def Let_def)
  show "prev_link (links (unlink (RegLink r) g) c) =
      (if c = next_link (links g (RegLink r)) then prev_link (links g (RegLink r)) else prev_link (links g c))"
    using ne by (auto simp: unlink_def set_next_def set_prev_def Let_def)
qed (use assms(2) in auto)

lemma link_ops_frame [simp]:
  "regs (link_front l g) = regs g" "brk (link_front l g) = brk g" "lock (link_front l g) = lock g"
  "phaser (link_front l g) = phaser g"
  "regs (unlink l g) = regs g" "brk (unlink l g) = brk g" "lock (unlink l g) = lock g"
  "phaser (unlink l g) = phaser g"
  by (simp_all add: link_front_def unlink_def set_next_def set_prev_def Let_def)

lemma link_ops_mutex [simp]:
  "links (mutex_lock g) = links g" "links (mutex_unlock g) = links g"
  "regs (mutex_lock g) = regs g" "regs (mutex_unlock g) = regs g"
  "brk (mutex_lock g) = brk g" "brk (mutex_unlock g) = brk g"
  "phaser (mutex_lock g) = phaser g" "phaser (mutex_unlock g) = phaser g"
  "\<not> lock (mutex_unlock g)"
  by (simp_all add: mutex_lock_def mutex_unlock_def)

lemma register_list:
  assumes "handlers_list g xs" "sigmux_register sigs fn dat flags g = (Some r, g')"
  shows "handlers_list g' (r # xs)" "r \<notin> dom (regs g)" "\<not> lock g'" "phaser g' = phaser g"
    "regs g' = (regs g)(r \<mapsto> \<lparr>signals = sigs, handler = fn, handler_data = dat, reg_flags = flags\<rparr>)"
proof -
  have r: "r = brk g" using assms(2) by (auto simp: sigmux_register_def Let_def split: if_splits)
  then show fresh: "r \<notin> dom (regs g)" using assms(1) by (auto simp: handlers_list_def)
  then have "r \<notin> set xs" using assms(1) by (auto simp: handlers_list_def)
  moreover have "x < Suc (brk g)" if "regs g x = Some y" for x y
    using assms(1) that by (force simp: handlers_list_def)
  ultimately show "handlers_list g' (r # xs)"
    using assms r by (auto simp: handlers_list_def sigmux_register_def Let_def mutex_lock_def
        split: if_splits simp del: seg.simps intro!: seg_link_front)
  show "\<not> lock g'" "phaser g' = phaser g"
    "regs g' = (regs g)(r \<mapsto> \<lparr>signals = sigs, handler = fn, handler_data = dat, reg_flags = flags\<rparr>)"
    using assms(2) by (auto simp: sigmux_register_def Let_def split: if_splits)
qed

lemma unregister_list:
  assumes "handlers_list g (us @ r # vs)" "phaser_quiet (phaser g)"
  shows "\<exists>g'. sigmux_unregister r g = Some g' \<and> handlers_list g' (us @ vs)
    \<and> regs g' = (regs g)(r := None) \<and> \<not> lock g' \<and> phaser g' = phaser g"
proof -
  have "phaser_drain (phaser (unlink (RegLink r) (mutex_lock g))) = Some (phaser g)"
    using phaser_cr.drain_quiet [OF assms(2)] by simp
  then show ?thesis
    using assms(1) seg_unlink [of "mutex_lock g" us r vs]
    by (auto simp: sigmux_unregister_def Let_def handlers_list_def mutex_unlock_def)
qed

section \<open>The search for a handler\<close>

definition eligible :: "bool \<Rightarrow> int \<Rightarrow> sigmux_registration \<Rightarrow> bool" where
  "eligible low n reg \<longleftrightarrow> (reg_flags reg AND SIGMUX_LOW_PRIORITY \<noteq> 0) = low \<and> sys_sigismember (signals reg) n \<noteq> 0"

definition registered :: "sigmux_global \<Rightarrow> nat list \<Rightarrow> sigmux_registration list" where
  "registered g xs = map (\<lambda>r. the (regs g r)) xs"

text \<open>What the documentation promises: handlers are tried in order until one does not
  continue the search.\<close>

fun try_handlers :: "'w handlers \<Rightarrow> sigmux_siginfo \<Rightarrow> sigmux_registration list \<Rightarrow> 'w
    \<Rightarrow> handler_outcome \<times> 'w" where
  "try_handlers h si [] w = (Returns SIGMUX_CONTINUE_SEARCH, w)"
| "try_handlers h si (reg # rs) w =
     (case h reg si w of
        (Returns SIGMUX_CONTINUE_SEARCH, w') \<Rightarrow> try_handlers h si rs w'
      | r \<Rightarrow> r)"

lemma try_handlers_append:
  "try_handlers h si (rs @ ss) w =
     (case try_handlers h si rs w of
        (Returns SIGMUX_CONTINUE_SEARCH, w') \<Rightarrow> try_handlers h si ss w'
      | r \<Rightarrow> r)"
  by (induction rs arbitrary: w)
    (auto split: prod.splits handler_outcome.splits sigmux_action.splits)

lemma search_stop [simp]:
  "search_handlers h g low si Handlers a w = Some (Returns a, w)"
  "search_handlers h g low si it SIGMUX_CONTINUE_EXECUTION w
     = Some (Returns SIGMUX_CONTINUE_EXECUTION, w)"
  by (subst search_handlers.simps, simp split: link_ptr.splits)+

lemma search_handlers_seg:
  assumes "seg (links g) a xs Handlers" "set xs \<subseteq> dom (regs g)"
  shows "search_handlers h g low si (next_link (links g a)) SIGMUX_CONTINUE_SEARCH w
    = Some (try_handlers h si (filter (eligible low (signum si)) (registered g xs)) w)"
  using assms
proof (induction xs arbitrary: a w)
  case Nil
  then show ?case by (simp add: registered_def)
next
  case (Cons x xs)
  obtain reg where reg: "regs g x = Some reg" using Cons.prems by auto
  have IH: "search_handlers h g low si (next_link (links g (RegLink x))) SIGMUX_CONTINUE_SEARCH w'
    = Some (try_handlers h si (filter (eligible low (signum si)) (registered g xs)) w')" for w'
    using Cons by auto
  have "search_handlers h g low si (RegLink x) SIGMUX_CONTINUE_SEARCH w
    = Some (try_handlers h si (filter (eligible low (signum si)) (reg # registered g xs)) w)"
    using reg IH
    by (subst search_handlers.simps)
      (auto simp: eligible_def split: prod.splits handler_outcome.splits sigmux_action.splits)
  then show ?case using Cons.prems reg by (simp add: registered_def)
qed

section \<open>Dispatch of a signal\<close>

lemma take_next_handler_eq:
  "take_next_handler a =
     (a, if sa_flags a AND SA_RESETHAND \<noteq> 0
         then a\<lparr>sa_fn := 0, sa_flags := sa_flags a AND NOT SA_RESETHAND\<rparr> else a)"
  by (simp add: take_next_handler_def compare_exchange_def)

definition candidates :: "sigmux_global \<Rightarrow> nat list \<Rightarrow> int \<Rightarrow> sigmux_registration list" where
  "candidates g xs n =
     filter (eligible False n) (registered g xs) @ filter (eligible True n) (registered g xs)"

text \<open>The default action after a search that found nobody.\<close>

definition run_default ::
  "int \<Rightarrow> uintptr \<Rightarrow> uintptr \<Rightarrow> nat \<Rightarrow> sigmux_global \<Rightarrow> effect list \<times> sigmux_global" where
  "run_default n nfo ctx ptr g =
     (let a = sigacts g ptr
      in (invoke_sighandler a n nfo ctx,
          g\<lparr>sigacts := (sigacts g)(ptr := snd (take_next_handler a))\<rparr>))"

lemma phaser_self [simp]: "g\<lparr>phaser := phaser g\<rparr> = g"
  by simp

lemma handle_signal_flags:
  "(SIGMUX_HANDLE_SIGNAL_NORMAL_PRIORITY OR SIGMUX_HANDLE_SIGNAL_LOW_PRIORITY OR
     SIGMUX_HANDLE_SIGNAL_INVOKE_DEFAULT) = 7"
  by (simp add: SIGMUX_HANDLE_SIGNAL_NORMAL_PRIORITY_def SIGMUX_HANDLE_SIGNAL_LOW_PRIORITY_def
      SIGMUX_HANDLE_SIGNAL_INVOKE_DEFAULT_def)

lemmas handle_signal_bits = SIGMUX_HANDLE_SIGNAL_NORMAL_PRIORITY_def
  SIGMUX_HANDLE_SIGNAL_LOW_PRIORITY_def SIGMUX_HANDLE_SIGNAL_INVOKE_DEFAULT_def

lemma registered_phaser [simp]: "registered (g\<lparr>phaser := p\<rparr>) xs = registered g xs"
  by (simp add: registered_def)

lemma outcome_cases:
  obtains "r = Returns SIGMUX_CONTINUE_SEARCH" | "r = Returns SIGMUX_CONTINUE_EXECUTION"
    | b v where "r = Longjmp b v"
  by (metis handler_outcome.exhaust sigmux_action.exhaust)

lemma handle_signal_all:
  assumes list: "handlers_list g xs" and ready: "phaser_ready (phaser g)"
    and orig: "orig_sigact g n = Some ptr"
  shows "sigmux_handle_signal h n nfo ctx 7 g w =
    Some (case try_handlers h \<lparr>signum = n, info = nfo, sigcontext = ctx\<rparr> (candidates g xs n) w of
        (Returns SIGMUX_CONTINUE_SEARCH, w') \<Rightarrow>
          (let (es, g') = run_default n nfo ctx ptr g
           in (Returns SIGMUX_CONTINUE_EXECUTION, es, g', w'))
      | (r, w') \<Rightarrow> (r, [], g, w'))"
proof -
  obtain p ph1 where en: "phaser_enter (phaser g) = Some (p, ph1)"
    and ex: "phaser_exit ph1 p = (phaser g, False)"
    using phaser_cr.bracket [OF ready] by metis
  let ?g = "g\<lparr>phaser := ph1\<rparr>"
  let ?si = "\<lparr>signum = n, info = nfo, sigcontext = ctx\<rparr>"
  have search: "search_handlers h ?g low ?si (next_link (links g Handlers)) SIGMUX_CONTINUE_SEARCH w
      = Some (try_handlers h ?si (filter (eligible low n) (registered g xs)) w)" for low w
    using search_handlers_seg [of ?g Handlers xs h low ?si w] list by (simp add: handlers_list_def)
  obtain o1 w1 where t1: "try_handlers h ?si (filter (eligible False n) (registered g xs)) w = (o1, w1)"
    by force
  obtain o2 w2 where t2: "try_handlers h ?si (filter (eligible True n) (registered g xs)) w1 = (o2, w2)"
    by force
  note [simp] = search ex handle_signal_bits orig sigmux_longjmp_def run_default_def
    take_next_handler_eq t1 t2 Let_def
  show ?thesis
  proof (cases "o1 = Returns SIGMUX_CONTINUE_SEARCH")
    case True
    then show ?thesis
      unfolding sigmux_handle_signal_def en candidates_def try_handlers_append Let_def
      by (cases o2 rule: outcome_cases) simp_all
  next
    case False
    then show ?thesis
      unfolding sigmux_handle_signal_def en candidates_def try_handlers_append Let_def
      by (cases o1 rule: outcome_cases) simp_all
  qed
qed

section \<open>The set of initialised signals\<close>

lemma and_bit_iff: "(w::u8) AND 2 ^ k \<noteq> 0 \<longleftrightarrow> bit w k"
  by (simp add: bit_iff_and_push_bit_not_eq_0)

lemma sigset_update:
  fixes ss :: sigmux_sigset
  assumes "i < length ss" "j < 8"
  shows "ss[i := ss ! i OR push_bit j 1] ! k AND push_bit l 1 \<noteq> 0 \<longleftrightarrow>
    i = k \<and> j = l \<or> ss ! k AND push_bit l 1 \<noteq> 0"
proof (cases "i = k")
  case True
  have j: "bit (2 ^ j :: u8) l \<longleftrightarrow> j = l" using assms(2) by (auto simp: bit_exp_iff)
  have "ss[i := ss ! i OR push_bit j 1] ! k = ss ! k OR 2 ^ j" using True assms by simp
  then show ?thesis using True by (simp only: push_bit_of_1 and_bit_iff bit_or_iff j) auto
qed simp

lemma signum_index:
  assumes "0 < (n::int)" "0 < m"
  shows "nat (n div 8) = nat (m div 8) \<and> nat (n mod 8) = nat (m mod 8) \<longleftrightarrow> n = m"
proof
  assume h: "nat (n div 8) = nat (m div 8) \<and> nat (n mod 8) = nat (m mod 8)"
  then have "n div 8 = m div 8" using assms by (simp add: eq_nat_nat_iff pos_imp_zdiv_nonneg_iff)
  moreover have "n mod 8 = m mod 8" using h by (simp add: eq_nat_nat_iff)
  ultimately show "n = m" by (metis div_mult_mod_eq)
qed blast

lemma sigismember_sigaddset:
  assumes "length ss = 9" "0 < n" "n < NSIG" "0 < m" "m < NSIG"
  shows "fst (sigmux_sigismember (sigmux_sigaddset ss n) m e) =
    (if m = n then 1 else fst (sigmux_sigismember ss m e))"
proof -
  have i: "nat (n div 8) < length ss" "nat (n mod 8) < 8" using assms by auto
  show ?thesis
    unfolding sigmux_sigismember_def sigmux_sigaddset_def sigset_update [OF i]
    using signum_index [OF assms(2,4)] assms(4,5) by auto
qed

section \<open>Initialisation\<close>

definition sig_member :: "sigmux_sigset \<Rightarrow> int \<Rightarrow> int" where
  "sig_member ss n = fst (sigmux_sigismember ss n 0)"

definition sigmux_init_ok :: "int \<Rightarrow> sigmux_global \<Rightarrow> bool" where
  "sigmux_init_ok n g \<longleftrightarrow> 0 < n \<and> n < NSIG \<and> length (initsig g) = 9 \<and>
     sig_member (initsig g) n = 1 \<and>
     (\<exists>op ap. orig_sigact g n = Some op \<and> alt_sigact g n = Some ap \<and> op \<noteq> ap) \<and> \<not> phaser_needs_init g"

lemma sigismember_valid:
  "0 < n \<Longrightarrow> n < NSIG \<Longrightarrow> sigmux_sigismember ss n e = (sig_member ss n, e)"
  by (simp add: sigmux_sigismember_def sig_member_def)

lemma sig_member_sigaddset:
  "length ss = 9 \<Longrightarrow> 0 < n \<Longrightarrow> n < NSIG \<Longrightarrow> 0 < m \<Longrightarrow> m < NSIG \<Longrightarrow>
     sig_member (sigmux_sigaddset ss n) m = (if m = n then 1 else sig_member ss m)"
  by (simp add: sig_member_def sigismember_sigaddset)

lemma init_fresh:
  assumes n: "0 < n" "n < NSIG" "n \<noteq> SIGKILL" "n \<noteq> SIGSTOP"
    and fresh: "sig_member (initsig g) n = 0" "length (initsig g) = 9"
    and none: "orig_sigact g n = None" "alt_sigact g n = None" "real_sigaction g = None"
    and mem: "calloc_ok g (brk g)" "calloc_ok g (brk g + 1)"
  shows "\<exists>g'. sigmux_init h1 n g = (0, g') \<and> kernel g' = (kernel g)(n := sigmux_newact h1)
    \<and> orig_sigact g' n = Some (brk g) \<and> sigacts g' (brk g) = kernel g n
    \<and> alt_sigact g' n = Some (brk g + 1) \<and> initsig g' = sigmux_sigaddset (initsig g) n
    \<and> \<not> phaser_needs_init g' \<and> \<not> lock g' \<and> links g' = links g \<and> regs g' = regs g
    \<and> (phaser_needs_init g \<longrightarrow> phaser_quiet (phaser g')) \<and> errno g' = errno g"
  using assms phaser_cr.init_quiet [of "phaser g"]
  by (auto simp: sigmux_init_def sigmux_init_locked_def mutex_lock_def mutex_unlock_def
      phaser_init_def allocate_orig_def allocate_alt_def calloc_sigact_def invoke_real_sigaction_def
      sys_sigaction_def sigismember_valid Let_def)

lemma init_again:
  assumes "sigmux_init_ok n g" "\<not> lock g"
  shows "sigmux_init h1 n g = (0, g)"
  using assms
  by (auto simp: sigmux_init_ok_def sigmux_init_def sigmux_init_locked_def mutex_lock_def
      mutex_unlock_def sigismember_valid Let_def)

section \<open>Replacing the saved action\<close>

lemma sigaction_hooked:
  assumes ok: "sigmux_init_ok n g" and q: "phaser_quiet (phaser g)"
    and op: "orig_sigact g n = Some op" "alt_sigact g n = Some ap"
  shows "sigmux_sigaction n (Some a) want g =
    Some (0, if want then Some (munge_oldact (sigacts g op)) else None,
      g\<lparr>lock := False, sigacts := (sigacts g)(ap := a), orig_sigact := (orig_sigact g)(n := Some ap),
        alt_sigact := (alt_sigact g)(n := Some op)\<rparr>)"
  using assms phaser_cr.drain_quiet [OF q]
  by (simp add: sigmux_init_ok_def sigmux_sigaction_def mutex_lock_def mutex_unlock_def
      sigismember_valid Let_def)

lemma sigaction_query:
  assumes "sigmux_init_ok n g" "orig_sigact g n = Some op"
  shows "sigmux_sigaction n None True g =
    Some (0, Some (munge_oldact (sigacts g op)), g\<lparr>lock := False\<rparr>)"
  using assms
  by (auto simp: sigmux_init_ok_def sigmux_sigaction_def mutex_lock_def mutex_unlock_def
      sigismember_valid Let_def)

section \<open>A concrete state\<close>

text \<open>\<open>SIGSEGV\<close> taken over, a normal registration, then a low-priority one in front of it.\<close>

definition demo_oneshot :: sigact where
  "demo_oneshot = \<lparr>sa_fn = 0x5000, sa_flags = SA_RESETHAND OR SA_SIGINFO, sa_mask = {}\<rparr>"

definition demo_g0 :: sigmux_global where
  "demo_g0 = sigmux_global_init (\<lambda>_. demo_oneshot) (\<lambda>_. True)"

definition demo_g1 :: sigmux_global where
  "demo_g1 = snd (sigmux_init 0x1000 SIGSEGV demo_g0)"

definition demo_g2 :: sigmux_global where
  "demo_g2 = snd (sigmux_register {SIGSEGV} 0x2000 0 0 demo_g1)"

definition demo_g3 :: sigmux_global where
  "demo_g3 = snd (sigmux_register {SIGSEGV} 0x3000 0 SIGMUX_LOW_PRIORITY demo_g2)"

lemma demo_g0_sel [simp]:
  "initsig demo_g0 = replicate 9 0" "orig_sigact demo_g0 = (\<lambda>_. None)" "alt_sigact demo_g0 = (\<lambda>_. None)"
  "real_sigaction demo_g0 = None" "calloc_ok demo_g0 = (\<lambda>_. True)" "brk demo_g0 = 0"
  "phaser_needs_init demo_g0" "kernel demo_g0 = (\<lambda>_. demo_oneshot)" "regs demo_g0 = Map.empty"
  "links demo_g0 = (\<lambda>_. \<lparr>prev_link = Handlers, next_link = Handlers\<rparr>)" "\<not> lock demo_g0"
  by (simp_all add: demo_g0_def sigmux_global_init_def)

lemma sig_member_empty: "0 < n \<Longrightarrow> n < NSIG \<Longrightarrow> sig_member (replicate 9 0) n = 0"
  by (auto simp: sig_member_def sigmux_sigismember_def nth_Cons' eval_nat_numeral)

lemma sigmux_init_brk:
  assumes "0 < n" "n < NSIG" "n \<noteq> SIGKILL" "n \<noteq> SIGSTOP" "sig_member (initsig g) n = 0"
    "orig_sigact g n = None" "alt_sigact g n = None" "real_sigaction g = None"
    "calloc_ok g (brk g)" "calloc_ok g (brk g + 1)"
  shows "brk (snd (sigmux_init h1 n g)) = brk g + 2"
    "calloc_ok (snd (sigmux_init h1 n g)) = calloc_ok g"
  using assms
  by (simp_all add: sigmux_init_def sigmux_init_locked_def mutex_lock_def mutex_unlock_def
      phaser_init_def allocate_orig_def allocate_alt_def calloc_sigact_def invoke_real_sigaction_def
      sys_sigaction_def sigismember_valid Let_def)

lemma demo_g1_sel [simp]:
  "orig_sigact demo_g1 SIGSEGV = Some 0" "sigacts demo_g1 0 = demo_oneshot" "brk demo_g1 = 2"
  "regs demo_g1 = Map.empty" "links demo_g1 = links demo_g0" "phaser_quiet (phaser demo_g1)"
  "calloc_ok demo_g1 = (\<lambda>_. True)" "alt_sigact demo_g1 SIGSEGV = Some 1"
  "initsig demo_g1 = sigmux_sigaddset (replicate 9 0) SIGSEGV" "\<not> phaser_needs_init demo_g1"
proof -
  obtain g' where "sigmux_init 0x1000 SIGSEGV demo_g0 = (0, g')" "orig_sigact g' SIGSEGV = Some 0"
    "sigacts g' 0 = demo_oneshot" "regs g' = Map.empty" "links g' = links demo_g0" "phaser_quiet (phaser g')"
    "alt_sigact g' SIGSEGV = Some 1" "initsig g' = sigmux_sigaddset (replicate 9 0) SIGSEGV"
    "\<not> phaser_needs_init g'"
    using init_fresh [of SIGSEGV demo_g0 "0x1000"] by (auto simp: sig_member_empty)
  then show "orig_sigact demo_g1 SIGSEGV = Some 0" "sigacts demo_g1 0 = demo_oneshot"
    "regs demo_g1 = Map.empty" "links demo_g1 = links demo_g0" "phaser_quiet (phaser demo_g1)"
    "alt_sigact demo_g1 SIGSEGV = Some 1"
    "initsig demo_g1 = sigmux_sigaddset (replicate 9 0) SIGSEGV" "\<not> phaser_needs_init demo_g1"
    by (simp_all add: demo_g1_def)
  show "brk demo_g1 = 2" "calloc_ok demo_g1 = (\<lambda>_. True)"
    unfolding demo_g1_def by (simp_all add: sigmux_init_brk sig_member_empty)
qed

lemma register_frame:
  assumes "calloc_ok g (brk g)"
  shows "fst (sigmux_register sigs fn dat flags g) = Some (brk g)"
    "brk (snd (sigmux_register sigs fn dat flags g)) = brk g + 1"
    "calloc_ok (snd (sigmux_register sigs fn dat flags g)) = calloc_ok g"
    "orig_sigact (snd (sigmux_register sigs fn dat flags g)) = orig_sigact g"
    "sigacts (snd (sigmux_register sigs fn dat flags g)) = sigacts g"
  using assms by (simp_all add: sigmux_register_def Let_def mutex_unlock_def mutex_lock_def
      link_front_def set_next_def set_prev_def)

lemma demo_register:
  "sigmux_register {SIGSEGV} 0x2000 0 0 demo_g1 = (Some 2, demo_g2)"
  "sigmux_register {SIGSEGV} 0x3000 0 SIGMUX_LOW_PRIORITY demo_g2 = (Some 3, demo_g3)"
  by (simp_all add: demo_g2_def demo_g3_def register_frame prod_eq_iff)

lemma demo_lists:
  "handlers_list demo_g1 []" "handlers_list demo_g2 [2]" "handlers_list demo_g3 [3, 2]"
proof -
  show 1: "handlers_list demo_g1 []" by (simp add: handlers_list_def)
  show 2: "handlers_list demo_g2 [2]" by (rule register_list(1) [OF 1 demo_register(1)])
  show "handlers_list demo_g3 [3, 2]" by (rule register_list(1) [OF 2 demo_register(2)])
qed

lemma demo_g3_sel [simp]:
  "orig_sigact demo_g3 SIGSEGV = Some 0" "sigacts demo_g3 0 = demo_oneshot"
  "phaser_quiet (phaser demo_g3)" "phaser_ready (phaser demo_g3)" "phaser_ready (phaser demo_g1)"
  "regs demo_g3 = [2 \<mapsto> \<lparr>signals = {SIGSEGV}, handler = 0x2000, handler_data = 0, reg_flags = 0\<rparr>,
     3 \<mapsto> \<lparr>signals = {SIGSEGV}, handler = 0x3000, handler_data = 0, reg_flags = SIGMUX_LOW_PRIORITY\<rparr>]"
proof -
  show "orig_sigact demo_g3 SIGSEGV = Some 0" "sigacts demo_g3 0 = demo_oneshot"
    by (simp_all add: demo_g3_def demo_g2_def register_frame)
  show q: "phaser_quiet (phaser demo_g3)"
    using register_list(4) [OF demo_lists(1) demo_register(1)]
      register_list(4) [OF demo_lists(2) demo_register(2)] by simp
  then show "phaser_ready (phaser demo_g3)" by (rule phaser_cr.quiet_ready)
  show "phaser_ready (phaser demo_g1)" by (rule phaser_cr.quiet_ready) simp
  show "regs demo_g3 = [2 \<mapsto> \<lparr>signals = {SIGSEGV}, handler = 0x2000, handler_data = 0, reg_flags = 0\<rparr>,
     3 \<mapsto> \<lparr>signals = {SIGSEGV}, handler = 0x3000, handler_data = 0, reg_flags = SIGMUX_LOW_PRIORITY\<rparr>]"
    using register_list(5) [OF demo_lists(1) demo_register(1)]
      register_list(5) [OF demo_lists(2) demo_register(2)] by simp
qed

lemma demo_init_ok: "sigmux_init_ok SIGSEGV demo_g1"
  by (simp add: sigmux_init_ok_def sig_member_sigaddset sigmux_sigaddset_def sig_member_def
      sigmux_sigismember_def)

section \<open>Error paths of the initialisation\<close>

lemma init_result_locked:
  assumes "real_sigaction g = None" "sigmux_init_locked h1 n g = (r, g')"
  shows "r = 0 \<or> r = -1 \<and> kernel g' = kernel g \<and> initsig g' = initsig g"
  using assms
  by (auto simp: sigmux_init_locked_def phaser_init_def allocate_orig_def allocate_alt_def
      calloc_sigact_def invoke_real_sigaction_def sys_sigaction_def Let_def sigmux_sigismember_def
      split: if_splits option.splits prod.splits)

section \<open>Properties\<close>

text \<open>C6. Dispatch: a signal that the kernel delivers to \<open>sigmux_handle_signal_1\<close> is offered to
  the registrations that mask it in, the normal ones in list order and then the low-priority
  ones in list order, until one continues execution or jumps out; only when all of them
  continue the search does the saved action run, and it is run from a copy after the phase
  has ended. On every path, the non-local one included, the phaser is left as it was.
\<close>

theorem sigmux_dispatch:
  assumes "handlers_list g xs" "phaser_ready (phaser g)" "orig_sigact g n = Some ptr"
  shows "sigmux_handle_signal_1 h n nfo ctx g w =
    Some (case try_handlers h \<lparr>signum = n, info = nfo, sigcontext = ctx\<rparr>
              (filter (eligible False n) (registered g xs) @ filter (eligible True n) (registered g xs)) w of
        (Returns SIGMUX_CONTINUE_SEARCH, w') \<Rightarrow>
          (Returns SIGMUX_CONTINUE_EXECUTION,
           Sigmask_set {} # invoke_sighandler (sigacts g ptr) n nfo ctx,
           g\<lparr>sigacts := (sigacts g)(ptr := snd (take_next_handler (sigacts g ptr)))\<rparr>, w')
      | (r, w') \<Rightarrow> (r, [Sigmask_set {}], g, w'))"
  unfolding sigmux_handle_signal_1_def handle_signal_flags handle_signal_all [OF assms]
  by (simp add: candidates_def run_default_def Let_def
      split: prod.splits handler_outcome.splits sigmux_action.splits)

theorem sigmux_dispatch_witness:
  "sigmux_handle_signal_1 (\<lambda>reg si w. (Returns SIGMUX_CONTINUE_SEARCH, w @ [handler reg]))
     SIGSEGV 0 0 demo_g3 [] =
   Some (Returns SIGMUX_CONTINUE_EXECUTION,
     [Sigmask_set {}, Fatal_hook, Sigmask_set {SIGSEGV}, Call_sigaction 0x5000 SIGSEGV 0 0],
     demo_g3\<lparr>sigacts := (sigacts demo_g3)(0 := \<lparr>sa_fn = 0, sa_flags = SA_SIGINFO, sa_mask = {}\<rparr>)\<rparr>,
     [0x2000, 0x3000])"
  unfolding sigmux_dispatch [OF demo_lists(3) demo_g3_sel(4,1)]
  by (simp add: registered_def eligible_def sys_sigismember_def SIGMUX_LOW_PRIORITY_def
      take_next_handler_eq invoke_sighandler_def demo_oneshot_def signal_always_fatal_p_def
      set_sigmask_for_handler_def)

text \<open>C7. Registering and unregistering: a successful \<open>sigmux_register\<close> prepends exactly one new
  registration to the doubly linked list, and \<open>sigmux_unregister\<close> of any member, wherever it
  stands, returns, removes exactly that member from the list, frees exactly that object and
  releases the lock.
\<close>

theorem sigmux_register_unregister:
  assumes "handlers_list g xs" "phaser_quiet (phaser g)"
    and "sigmux_register sigs fn dat flags g = (Some r, g1)" "r # xs = us @ q # vs"
  shows "r \<notin> set xs \<and> handlers_list g1 (r # xs)
    \<and> regs g1 r = Some \<lparr>signals = sigs, handler = fn, handler_data = dat, reg_flags = flags\<rparr>
    \<and> (\<exists>g2. sigmux_unregister q g1 = Some g2 \<and> handlers_list g2 (us @ vs)
         \<and> regs g2 = (regs g1)(q := None) \<and> \<not> lock g2 \<and> phaser g2 = phaser g)"
proof -
  note reg = register_list [OF assms(1,3)]
  have "handlers_list g1 (us @ q # vs)" "phaser_quiet (phaser g1)" using reg assms(2,4) by simp_all
  then show ?thesis
    using unregister_list [of g1 us q vs] reg by (auto simp: handlers_list_def)
qed

theorem sigmux_register_unregister_witness:
  "\<exists>g2. sigmux_unregister 2 demo_g3 = Some g2 \<and> handlers_list g2 [3]"
proof -
  have "phaser_quiet (phaser demo_g2)"
    using register_list(4) [OF demo_lists(1) demo_register(1)] by simp
  then show ?thesis
    using sigmux_register_unregister [OF demo_lists(2) _ demo_register(2), of "[3]" 2 "[]"] by auto
qed

text \<open>Taking over a signal: on a valid signal that is not yet hooked, with memory available,
  \<open>sigmux_init\<close> succeeds, installs \<open>sigmux_handle_signal_1\<close> in the kernel for that signal only,
  saves the action that was there, releases the lock, and calling it again changes nothing.
\<close>

theorem sigmux_init_takes_over:
  assumes "0 < n" "n < NSIG" "n \<noteq> SIGKILL" "n \<noteq> SIGSTOP"
    and "fst (sigmux_sigismember (initsig g) n (errno g)) = 0" "length (initsig g) = 9"
    and "orig_sigact g n = None" "alt_sigact g n = None" "real_sigaction g = None"
    and "calloc_ok g (brk g)" "calloc_ok g (brk g + 1)"
  shows "\<exists>g' p. sigmux_init h1 n g = (0, g') \<and> kernel g' = (kernel g)(n := sigmux_newact h1)
    \<and> orig_sigact g' n = Some p \<and> sigacts g' p = kernel g n \<and> \<not> lock g'
    \<and> fst (sigmux_sigismember (initsig g') n (errno g')) = 1 \<and> sigmux_init h1 n g' = (0, g')"
proof -
  have m: "sig_member (initsig g) n = 0" using assms(1,2,5) by (simp add: sigismember_valid)
  obtain g' where g': "sigmux_init h1 n g = (0, g')" "kernel g' = (kernel g)(n := sigmux_newact h1)"
    "orig_sigact g' n = Some (brk g)" "sigacts g' (brk g) = kernel g n" "alt_sigact g' n = Some (brk g + 1)"
    "initsig g' = sigmux_sigaddset (initsig g) n" "\<not> phaser_needs_init g'" "\<not> lock g'"
    using init_fresh [OF assms(1-4) m assms(6-11)] by blast
  have "sigmux_init_ok n g'" using g' assms m
    by (simp add: sigmux_init_ok_def sig_member_sigaddset) (simp add: sigmux_sigaddset_def)
  then show ?thesis using g' init_again [of n g'] assms(1,2)
    by (auto simp: sigmux_init_ok_def sigismember_valid)
qed

theorem sigmux_init_takes_over_witness:
  "\<exists>g'. sigmux_init 0x1000 SIGSEGV demo_g0 = (0, g') \<and> kernel g' SIGSEGV = sigmux_newact 0x1000"
  using sigmux_init_takes_over [of SIGSEGV demo_g0 "0x1000"]
  by (auto simp: sigismember_valid sig_member_empty)

text \<open>
  C9. Errors of \<open>sigmux_init\<close>: whatever fails (an invalid or unblockable signal number, an
  allocation), the call returns -1, leaves the kernel's actions and the set of hooked signals
  alone, and releases the lock; an invalid number sets \<open>errno\<close> to \<open>EINVAL\<close>.
\<close>

theorem sigmux_init_errors:
  assumes "real_sigaction g = None" "sigmux_init h1 n g = (r, g')"
  shows "\<not> lock g' \<and> (r = 0 \<or> r = -1 \<and> kernel g' = kernel g \<and> initsig g' = initsig g)
    \<and> (\<not> (0 < n \<and> n < NSIG) \<longrightarrow> r = -1 \<and> errno g' = EINVAL)"
proof (intro conjI impI)
  obtain g1 where g1: "sigmux_init_locked h1 n (mutex_lock g) = (r, g1)" "g' = mutex_unlock g1"
    using assms(2) by (auto simp: sigmux_init_def split: prod.splits)
  then show "\<not> lock g'" by simp
  show "r = 0 \<or> r = -1 \<and> kernel g' = kernel g \<and> initsig g' = initsig g"
    using init_result_locked [OF _ g1(1)] assms(1) g1(2) by (auto simp: mutex_lock_def mutex_unlock_def)
  assume "\<not> (0 < n \<and> n < NSIG)"
  then show "r = -1" "errno g' = EINVAL" using g1
    by (auto simp: sigmux_init_locked_def phaser_init_def sigmux_sigismember_def Let_def
        mutex_unlock_def split: if_splits)
qed

theorem sigmux_init_errors_witness:
  "fst (sigmux_init 0x1000 65 demo_g0) = -1 \<and> errno (snd (sigmux_init 0x1000 65 demo_g0)) = EINVAL"
  using sigmux_init_errors [of demo_g0 "0x1000" 65] by (simp add: prod_eq_iff)

text \<open>\<open>sigmux_sigaction\<close> on a hooked signal is \<open>sigaction(2)\<close> for the saved action: setting
  an action and then querying gives that action back (a default one in its plain form), the
  old action is what the previous query would have given, the kernel keeps
  \<open>sigmux_handle_signal_1\<close>, and the signal stays hooked.
\<close>

theorem sigmux_sigaction_roundtrip:
  assumes "sigmux_init_ok n g" "phaser_quiet (phaser g)"
  shows "\<exists>old g'. sigmux_sigaction n (Some a) True g = Some (0, Some old, g')
    \<and> sigmux_sigaction n None True g = Some (0, Some old, g\<lparr>lock := False\<rparr>)
    \<and> sigmux_sigaction n None True g' = Some (0, Some (munge_oldact a), g')
    \<and> kernel g' = kernel g \<and> sigmux_init_ok n g'"
proof -
  obtain op ap where p: "orig_sigact g n = Some op" "alt_sigact g n = Some ap" "op \<noteq> ap"
    using assms(1) by (auto simp: sigmux_init_ok_def)
  let ?g = "g\<lparr>lock := False, sigacts := (sigacts g)(ap := a), orig_sigact := (orig_sigact g)(n := Some ap),
        alt_sigact := (alt_sigact g)(n := Some op)\<rparr>"
  have ok: "sigmux_init_ok n ?g" using assms(1) p by (auto simp: sigmux_init_ok_def)
  then have "sigmux_sigaction n None True ?g = Some (0, Some (munge_oldact a), ?g)"
    using sigaction_query [OF ok, of ap] by simp
  with ok show ?thesis
    using sigaction_hooked [OF assms p(1,2), of a True] sigaction_query [OF assms(1) p(1)] by auto
qed

theorem sigmux_sigaction_roundtrip_witness:
  "\<exists>old g'. sigmux_sigaction SIGSEGV (Some (demo_oneshot\<lparr>sa_fn := 0\<rparr>)) True demo_g1 = Some (0, Some old, g')
    \<and> sigmux_sigaction SIGSEGV None True g' = Some (0, Some zero_sigact, g')"
  using sigmux_sigaction_roundtrip [OF demo_init_ok, of "demo_oneshot\<lparr>sa_fn := 0\<rparr>"]
  by (auto simp: demo_oneshot_def munge_oldact_def pretend_default_def zero_sigact_def)

text \<open>
  C11. A one-shot action (\<open>SA_RESETHAND\<close>) runs once: of two deliveries that no registration
  takes, the first calls it and the second calls no user function at all, but takes the
  default action of the signal.
\<close>

theorem sigmux_oneshot_runs_once:
  assumes "handlers_list g xs" "phaser_ready (phaser g)" "orig_sigact g n = Some ptr"
    and "filter (eligible False n) (registered g xs) = []" "filter (eligible True n) (registered g xs) = []"
    and "sa_flags (sigacts g ptr) AND SA_RESETHAND \<noteq> 0" "sa_fn (sigacts g ptr) = f" "f \<noteq> 0" "f \<noteq> SIG_IGN"
  shows "\<exists>es g' es'. sigmux_handle_signal_1 h n nfo ctx g w = Some (Returns SIGMUX_CONTINUE_EXECUTION, es, g', w)
    \<and> (Call_sigaction f n nfo ctx \<in> set es \<or> Call_handler f n \<in> set es)
    \<and> sigmux_handle_signal_1 h n nfo ctx g' w = Some (Returns SIGMUX_CONTINUE_EXECUTION, es', g', w)
    \<and> (\<forall>e\<in>set es'. (\<forall>k m i c. e \<noteq> Call_sigaction k m i c) \<and> (\<forall>k m. e \<noteq> Call_handler k m))
    \<and> (signal_default_fatal_p n \<longrightarrow> Raise n \<in> set es')"
proof -
  let ?a = "(sigacts g ptr)\<lparr>sa_fn := 0, sa_flags := sa_flags (sigacts g ptr) AND NOT SA_RESETHAND\<rparr>"
  let ?g = "g\<lparr>sigacts := (sigacts g)(ptr := ?a)\<rparr>"
  have c: "candidates g xs n = []" "candidates ?g xs n = []"
    using assms(4,5) by (simp_all add: candidates_def registered_def)
  have l: "handlers_list ?g xs" "phaser_ready (phaser ?g)" "orig_sigact ?g n = Some ptr"
    using assms(1-3) by (simp_all add: handlers_list_def)
  have "sa_flags ?a AND SA_RESETHAND = 0" by (simp add: and.assoc)
  then have 2: "sigmux_handle_signal_1 h n nfo ctx ?g w = Some (Returns SIGMUX_CONTINUE_EXECUTION,
      Sigmask_set {} # invoke_sighandler ?a n nfo ctx, ?g, w)"
    unfolding sigmux_handle_signal_1_def handle_signal_flags handle_signal_all [OF l] c
    by (simp add: run_default_def take_next_handler_eq Let_def)
  have 1: "sigmux_handle_signal_1 h n nfo ctx g w = Some (Returns SIGMUX_CONTINUE_EXECUTION,
      Sigmask_set {} # invoke_sighandler (sigacts g ptr) n nfo ctx, ?g, w)"
    unfolding sigmux_handle_signal_1_def handle_signal_flags handle_signal_all [OF assms(1-3)] c
    using assms(6) by (simp add: run_default_def take_next_handler_eq Let_def)
  show ?thesis using 1 2 assms(7-9) by (auto simp: invoke_sighandler_def Let_def)
qed

theorem sigmux_oneshot_runs_once_witness:
  "\<exists>es g'. sigmux_handle_signal_1 (\<lambda>reg si w. (Returns SIGMUX_CONTINUE_SEARCH, w)) SIGSEGV 0 0 demo_g1 ()
      = Some (Returns SIGMUX_CONTINUE_EXECUTION, es, g', ())
    \<and> (Call_sigaction 0x5000 SIGSEGV 0 0 \<in> set es \<or> Call_handler 0x5000 SIGSEGV \<in> set es)"
  using sigmux_oneshot_runs_once [OF demo_lists(1), of SIGSEGV 0 "0x5000" "\<lambda>reg si w. (Returns SIGMUX_CONTINUE_SEARCH, w)" 0 0 "()"]
  by (auto simp: registered_def demo_oneshot_def)

text \<open>
  C12. Stop signals: no signal but \<open>SIGSTOP\<close> itself ever makes \<open>invoke_sighandler\<close> raise
  \<open>SIGSTOP\<close>. A defaulted \<open>SIGTSTP\<close>, \<open>SIGTTIN\<close> or \<open>SIGTTOU\<close> counts as fatal, so its branch is
  shadowed: the signal is reset and raised again, and the process aborts when it is resumed.
\<close>

theorem sigmux_stop_signals_abort:
  assumes "n \<noteq> SIGSTOP"
  shows "Raise SIGSTOP \<notin> set (invoke_sighandler a n nfo ctx)
    \<and> (n \<in> {SIGTSTP, SIGTTIN, SIGTTOU} \<and> sa_fn a = 0 \<longrightarrow>
        invoke_sighandler a n nfo ctx = [Reset_to_default n, Sigmask_unblock n, Raise n, Abort])"
  using assms
  by (auto simp: invoke_sighandler_def Let_def signal_default_fatal_p_def signal_always_fatal_p_def
      set_sigmask_for_handler_def)

theorem sigmux_stop_signals_abort_witness:
  "Abort \<in> set (invoke_sighandler zero_sigact SIGTSTP 0 0)"
  using sigmux_stop_signals_abort [of SIGTSTP zero_sigact 0 0] by (simp add: zero_sigact_def)

end
