(* ===== verification/SigmuxRcu.thy ===== *)
theory SigmuxRcu
  imports Sigmux
begin

text \<open>
  Registrations of \<open>sigmux.c\<close> under concurrency: signal handlers on any number of threads walk
  the list without a lock while a thread that holds the lock links, unlinks, drains and
  frees. The steps are the single loads and stores of the functions, on the links of the
  sequential model, over any provider of grace periods; the phaser is that provider.
\<close>

section \<open>Steps\<close>

text \<open>A handler is outside, inside with nothing loaded, or in a loop with \<open>reglist\<close> and \<open>it\<close>.\<close>

datatype hpc = HOut | HIn | HWalk link_ptr link_ptr

text \<open>The holder of the lock: in \<open>sigmux_register\<close> or \<open>sigmux_unregister\<close> after so many stores,
  or in the drain.\<close>

datatype wpc = WIdle | WReg nat nat | WUnreg nat nat | WDrain nat

text \<open>\<open>regd\<close> lists the registrations that are linked; \<open>pending\<close> holds those that are drained
  and not yet freed, which happens after the lock is released.\<close>

record 's msys =
  mem :: sigmux_global
  prov :: 's
  hp :: "nat \<Rightarrow> hpc"
  wr :: wpc
  regd :: "nat list"
  pending :: "nat set"

definition mstore :: "(sigmux_global \<Rightarrow> sigmux_global) \<Rightarrow> wpc \<Rightarrow> 's msys \<Rightarrow> 's msys" where
  "mstore f w s = s\<lparr>mem := f (mem s), wr := w\<rparr>"

definition hgoto :: "nat \<Rightarrow> hpc \<Rightarrow> 's msys \<Rightarrow> 's msys" where
  "hgoto t h s = s\<lparr>hp := (hp s)(t := h)\<rparr>"

definition mnext :: "'s msys \<Rightarrow> link_ptr \<Rightarrow> link_ptr" where
  "mnext s l = next_link (links (mem s) l)"

definition mprev :: "'s msys \<Rightarrow> link_ptr \<Rightarrow> link_ptr" where
  "mprev s l = prev_link (links (mem s) l)"

inductive msys_step :: "(pevent \<Rightarrow> 's \<Rightarrow> 's \<Rightarrow> bool) \<Rightarrow> 's msys \<Rightarrow> 's msys \<Rightarrow> bool" for gstep where
  h_enter: "hp s t = HOut \<Longrightarrow> gstep (Enter t) (prov s) p \<Longrightarrow>
     msys_step gstep s ((hgoto t HIn s)\<lparr>prov := p\<rparr>)"
| h_load: "hp s t = HIn \<Longrightarrow>
     msys_step gstep s (hgoto t (HWalk (mnext s Handlers) (mnext s Handlers)) s)"
| h_next: "hp s t = HWalk reglist (RegLink r) \<Longrightarrow>
     msys_step gstep s (hgoto t (HWalk reglist (mnext s (RegLink r))) s)"
| h_again: "hp s t = HWalk reglist Handlers \<Longrightarrow>
     msys_step gstep s (hgoto t (HWalk reglist reglist) s)"
| h_leave: "hp s t = HWalk reglist it \<Longrightarrow> gstep (Leave t) (prov s) p \<Longrightarrow>
     msys_step gstep s ((hgoto t HOut s)\<lparr>prov := p\<rparr>)"
| p_internal: "gstep Internal (prov s) p \<Longrightarrow> msys_step gstep s (s\<lparr>prov := p\<rparr>)"
| reg_alloc: "wr s = WIdle \<Longrightarrow> regs (mem s) r = None \<Longrightarrow>
     msys_step gstep s (mstore (\<lambda>g. g\<lparr>regs := (regs g)(r \<mapsto> reg)\<rparr>) (WReg r 0) s)"
| reg_next: "wr s = WReg r 0 \<Longrightarrow>
     msys_step gstep s (mstore (set_next (RegLink r) (mnext s Handlers)) (WReg r 1) s)"
| reg_prev: "wr s = WReg r 1 \<Longrightarrow>
     msys_step gstep s (mstore (set_prev (RegLink r) Handlers) (WReg r 2) s)"
| reg_back: "wr s = WReg r 2 \<Longrightarrow>
     msys_step gstep s (mstore (set_prev (mnext s (RegLink r)) (RegLink r)) (WReg r 3) s)"
| reg_publish: "wr s = WReg r 3 \<Longrightarrow>
     msys_step gstep s ((mstore (set_next Handlers (RegLink r)) WIdle s)\<lparr>regd := r # regd s\<rparr>)"
| unreg_lock: "wr s = WIdle \<Longrightarrow> r \<in> set (regd s) \<Longrightarrow> msys_step gstep s (s\<lparr>wr := WUnreg r 0\<rparr>)"
| unreg_next: "wr s = WUnreg r 0 \<Longrightarrow>
     msys_step gstep s ((mstore (set_next (mprev s (RegLink r)) (mnext s (RegLink r))) (WUnreg r 1) s)
       \<lparr>regd := remove1 r (regd s)\<rparr>)"
| unreg_prev: "wr s = WUnreg r 1 \<Longrightarrow>
     msys_step gstep s (mstore (set_prev (mnext s (RegLink r)) (mprev s (RegLink r))) (WUnreg r 2) s)"
| unreg_drain: "wr s = WUnreg r 2 \<Longrightarrow> gstep Drain_call (prov s) p \<Longrightarrow>
     msys_step gstep s (s\<lparr>prov := p, wr := WDrain r\<rparr>)"
| unreg_unlock: "wr s = WDrain r \<Longrightarrow> gstep Drain_return (prov s) p \<Longrightarrow>
     msys_step gstep s (s\<lparr>prov := p, wr := WIdle, pending := insert r (pending s)\<rparr>)"
| unreg_free: "r \<in> pending s \<Longrightarrow>
     msys_step gstep s (s\<lparr>mem := (mem s)\<lparr>regs := (regs (mem s))(r := None)\<rparr>, pending := pending s - {r}\<rparr>)"

definition init_msys :: "'s \<Rightarrow> sigmux_global \<Rightarrow> 's msys" where
  "init_msys p g = \<lparr>mem = g, prov = p, hp = (\<lambda>_. HOut), wr = WIdle, regd = [], pending = {}\<rparr>"

inductive msys_reach :: "(pevent \<Rightarrow> 's \<Rightarrow> 's \<Rightarrow> bool) \<Rightarrow> ('s \<Rightarrow> bool) \<Rightarrow> 's msys \<Rightarrow> bool"
  for gstep start where
  m_start: "start p \<Longrightarrow> handlers_list g [] \<Longrightarrow> msys_reach gstep start (init_msys p g)"
| m_step: "msys_reach gstep start s \<Longrightarrow> msys_step gstep s s' \<Longrightarrow> msys_reach gstep start s'"

section \<open>The invariant\<close>

text \<open>The links are those of a well-formed list on which the stores made so far were done.\<close>

fun links_inv :: "wpc \<Rightarrow> nat list \<Rightarrow> sigmux_global \<Rightarrow> bool" where
  "links_inv (WReg r k) xs g = (r \<notin> set xs \<and> k < 4 \<and>
     (\<exists>g0. seg (links g0) Handlers xs Handlers \<and>
       (let g1 = set_next (RegLink r) (next_link (links g0 Handlers)) g0;
            g2 = set_prev (RegLink r) Handlers g1;
            g3 = set_prev (next_link (links g2 (RegLink r))) (RegLink r) g2
        in links g = links ([g0, g1, g2, g3] ! k))))"
| "links_inv (WUnreg r k) xs g =
     (if k = 0 then r \<in> set xs \<and> seg (links g) Handlers xs Handlers
      else r \<notin> set xs \<and> (if k = 1 then
        (\<exists>g0 us vs. xs = us @ vs \<and> distinct (us @ r # vs) \<and> seg (links g0) Handlers (us @ r # vs) Handlers
          \<and> links g = links (set_next (prev_link (links g0 (RegLink r))) (next_link (links g0 (RegLink r))) g0))
        else k = 2 \<and> seg (links g) Handlers xs Handlers))"
| "links_inv (WDrain r) xs g = (r \<notin> set xs \<and> seg (links g) Handlers xs Handlers)"
| "links_inv WIdle xs g = seg (links g) Handlers xs Handlers"

text \<open>A registration that the writer owns besides the list: a new one or an unlinked one.\<close>

definition owned :: "wpc \<Rightarrow> nat set" where
  "owned w = (case w of WIdle \<Rightarrow> {} | WReg r _ \<Rightarrow> {r} | WUnreg r k \<Rightarrow> if k = 0 then {} else {r} | WDrain r \<Rightarrow> {r})"

definition list_ptrs :: "nat list \<Rightarrow> link_ptr set" where
  "list_ptrs xs = insert Handlers (RegLink ` set xs)"

text \<open>\<open>next\<close> never leads from the list, or from an unlinked registration, out of the list.\<close>

definition closed_inv :: "wpc \<Rightarrow> nat list \<Rightarrow> sigmux_global \<Rightarrow> bool" where
  "closed_inv w xs g \<longleftrightarrow> (\<forall>l \<in> list_ptrs xs. next_link (links g l) \<in> list_ptrs xs)
     \<and> (case w of WReg r k \<Rightarrow> k > 0 \<longrightarrow> next_link (links g (RegLink r)) \<in> list_ptrs xs
        | WUnreg r k \<Rightarrow> next_link (links g (RegLink r)) \<in> list_ptrs xs
        | WDrain r \<Rightarrow> next_link (links g (RegLink r)) \<in> list_ptrs xs | WIdle \<Rightarrow> True)"

text \<open>What reader \<open>t\<close> may hold besides pointers into the list: an unlinked registration, as
  long as the drain has not begun or still waits for \<open>t\<close>.\<close>

definition stale :: "rcu \<Rightarrow> wpc \<Rightarrow> nat \<Rightarrow> link_ptr set" where
  "stale a w t = (case w of WUnreg r k \<Rightarrow> if k = 0 then {} else {RegLink r}
     | WDrain r \<Rightarrow> if \<exists>W. waiting a = Some W \<and> t \<in> W then {RegLink r} else {} | _ \<Rightarrow> {})"

definition held :: "hpc \<Rightarrow> link_ptr set" where
  "held h = (case h of HWalk reglist it \<Rightarrow> {reglist, it} | _ \<Rightarrow> {})"

definition readers_inv :: "rcu \<Rightarrow> 's msys \<Rightarrow> bool" where
  "readers_inv a s \<longleftrightarrow> (\<forall>t. held (hp s t) \<subseteq> list_ptrs (regd s) \<union> stale a (wr s) t
     \<and> (hp s t \<noteq> HOut \<longleftrightarrow> t \<in> inside a))"

definition heap_inv :: "'s msys \<Rightarrow> bool" where
  "heap_inv s \<longleftrightarrow> distinct (regd s) \<and> set (regd s) \<union> owned (wr s) \<union> pending s \<subseteq> dom (regs (mem s))
     \<and> set (regd s) \<inter> pending s = {} \<and> owned (wr s) \<inter> (set (regd s) \<union> pending s) = {}"

definition drain_inv :: "rcu \<Rightarrow> wpc \<Rightarrow> bool" where
  "drain_inv a w \<longleftrightarrow> (waiting a \<noteq> None \<longleftrightarrow> (\<exists>r. w = WDrain r))"

definition msys_inv :: "('s \<Rightarrow> rcu) \<Rightarrow> 's msys \<Rightarrow> bool" where
  "msys_inv gabs s \<longleftrightarrow> links_inv (wr s) (regd s) (mem s) \<and> closed_inv (wr s) (regd s) (mem s)
     \<and> readers_inv (gabs (prov s)) s \<and> heap_inv s \<and> drain_inv (gabs (prov s)) (wr s)"

lemmas msys_upd = mstore_def hgoto_def mnext_def mprev_def

section \<open>Lists\<close>

lemma links_set [simp]:
  "links (set_next a b g) = (links g)(a := (links g a)\<lparr>next_link := b\<rparr>)"
  "links (set_prev a b g) = (links g)(a := (links g a)\<lparr>prev_link := b\<rparr>)"
  "regs (set_next a b g) = regs g" "regs (set_prev a b g) = regs g"
  by (simp_all add: set_next_def set_prev_def)

lemma seg_closed:
  "seg L a xs b \<Longrightarrow> c = a \<or> c \<in> RegLink ` set xs \<Longrightarrow>
     next_link (L c) \<in> insert b (RegLink ` set xs) \<and> prev_link (L (next_link (L c))) = c"
  by (induction xs arbitrary: a) auto

lemma seg_closed_list:
  "seg L Handlers xs Handlers \<Longrightarrow> \<forall>l \<in> list_ptrs xs. next_link (L l) \<in> list_ptrs xs"
  using seg_closed [of L Handlers xs Handlers] by (auto simp: list_ptrs_def)

lemma unlink_ends:
  assumes "seg L Handlers (us @ r # vs) Handlers" "distinct (us @ r # vs)"
  shows "next_link (L (RegLink r)) \<in> list_ptrs (us @ vs)" "prev_link (L (RegLink r)) \<noteq> RegLink r"
proof -
  have sp: "seg L Handlers us (RegLink r)" "seg L (RegLink r) vs Handlers"
    using assms(1) by (auto simp: seg_append)
  show "next_link (L (RegLink r)) \<in> list_ptrs (us @ vs)"
    using seg_first [OF sp(2)] by (cases vs) (auto simp: list_ptrs_def)
  show "prev_link (L (RegLink r)) \<noteq> RegLink r"
    using seg_last [OF sp(1)] assms(2) by (auto split: if_splits)
qed

lemma closed_unlink:
  assumes sg: "seg L Handlers (us @ r # vs) Handlers" and d: "distinct (us @ r # vs)"
    and l: "l \<in> insert (RegLink r) (list_ptrs (us @ vs))"
    and L': "\<And>c. next_link (L' c) = (if c = prev_link (L (RegLink r)) then next_link (L (RegLink r)) else next_link (L c))"
  shows "next_link (L' l) \<in> list_ptrs (us @ vs)"
proof (cases "l = prev_link (L (RegLink r)) \<or> l = RegLink r")
  case True
  then show ?thesis using unlink_ends [OF sg d] L' by auto
next
  case False
  then have "l = Handlers \<or> l \<in> RegLink ` set (us @ r # vs)" using l by (auto simp: list_ptrs_def)
  then have "next_link (L l) \<in> insert Handlers (RegLink ` set (us @ r # vs))"
    "prev_link (L (next_link (L l))) = l"
    using seg_closed [OF sg] by blast+
  moreover from this have "next_link (L l) \<noteq> RegLink r" using False by auto
  ultimately show ?thesis using False L' by (auto simp: list_ptrs_def)
qed

section \<open>Preservation\<close>

lemma links_inv_cong: "links g = links g' \<Longrightarrow> links_inv w xs g = links_inv w xs g'"
  by (cases w) simp_all

lemma links_inv_step:
  assumes "msys_step gstep s s'" "links_inv (wr s) (regd s) (mem s)" "heap_inv s"
  shows "links_inv (wr s') (regd s') (mem s')"
  using assms(1)
proof cases
  case (reg_alloc r reg)
  then have "r \<notin> set (regd s)" using assms(3) by (auto simp: heap_inv_def)
  then show ?thesis using assms reg_alloc by (auto simp: msys_upd Let_def)
next
  case (reg_publish r)
  then obtain g0 where g0: "seg (links g0) Handlers (regd s) Handlers" "r \<notin> set (regd s)"
    "links (set_next Handlers (RegLink r) (mem s)) = links (link_front (RegLink r) g0)"
    using assms(2) by (auto simp: Let_def link_front_def)
  have "distinct (regd s)" using assms(3) by (simp add: heap_inv_def)
  then have "seg (links (set_next Handlers (RegLink r) (mem s))) Handlers (r # regd s) Handlers"
    unfolding g0(3) using seg_link_front g0(1,2) by blast
  then show ?thesis using reg_publish by (simp add: msys_upd)
next
  case (unreg_next r)
  then have r: "r \<in> set (regd s)" "seg (links (mem s)) Handlers (regd s) Handlers" "distinct (regd s)"
    using assms(2,3) by (auto simp: heap_inv_def)
  then obtain us vs where "regd s = us @ r # vs" "r \<notin> set us" by (meson split_list_first)
  then show ?thesis using unreg_next r by (auto simp: msys_upd remove1_append)
next
  case (unreg_prev r)
  then obtain g0 us vs where g0: "regd s = us @ vs" "distinct (us @ r # vs)"
    "seg (links g0) Handlers (us @ r # vs) Handlers"
    "links (mem s) = links (set_next (prev_link (links g0 (RegLink r))) (next_link (links g0 (RegLink r))) g0)"
    using assms(2) by (auto split: if_splits)
  have "links (set_prev (mnext s (RegLink r)) (mprev s (RegLink r)) (mem s)) = links (unlink (RegLink r) g0)"
    unfolding unlink_def Let_def links_set mnext_def mprev_def g0(4) by simp
  then have "seg (links (set_prev (mnext s (RegLink r)) (mprev s (RegLink r)) (mem s))) Handlers (regd s) Handlers"
    using seg_unlink [OF g0(3,2)] g0(1) by simp
  then show ?thesis using unreg_prev g0(1,2) by (simp add: mstore_def)
next
  case (unreg_free r)
  then show ?thesis using assms(2) links_inv_cong [of "mem s" "mem s'"] by simp
qed (use assms(2) in \<open>auto simp: msys_upd Let_def\<close>)

lemma closed_inv_step:
  assumes "msys_step gstep s s'" "links_inv (wr s) (regd s) (mem s)" "heap_inv s"
    "closed_inv (wr s) (regd s) (mem s)"
  shows "closed_inv (wr s') (regd s') (mem s')"
  using assms(1)
proof cases
  case (unreg_next r)
  then have r: "r \<in> set (regd s)" "seg (links (mem s)) Handlers (regd s) Handlers" "distinct (regd s)"
    using assms(2,3) by (auto simp: heap_inv_def)
  then obtain us vs where xs: "regd s = us @ r # vs" "r \<notin> set us" by (meson split_list_first)
  have sg: "seg (links (mem s)) Handlers (us @ r # vs) Handlers" "distinct (us @ r # vs)"
    using r xs by simp_all
  have "next_link (links (mem s') l) \<in> list_ptrs (us @ vs)" if "l \<in> insert (RegLink r) (list_ptrs (us @ vs))" for l
    by (rule closed_unlink [OF sg that]) (simp add: unreg_next msys_upd)
  then show ?thesis using unreg_next xs by (simp add: closed_inv_def msys_upd remove1_append)
next
  case (unreg_unlock r p)
  then show ?thesis using assms(2,4) by (simp add: closed_inv_def)
next
  case (reg_alloc r reg)
  then show ?thesis using assms(4) by (simp add: closed_inv_def msys_upd)
next
  case (reg_next r)
  then show ?thesis using assms(2,4) by (auto simp: closed_inv_def msys_upd list_ptrs_def)
next
  case (reg_publish r)
  then show ?thesis using assms(2,4) by (auto simp: closed_inv_def msys_upd list_ptrs_def)
next
  case (unreg_lock r)
  then show ?thesis using assms(2,4) by (auto simp: closed_inv_def list_ptrs_def)
next
  case (unreg_free r)
  then show ?thesis using assms(4) by (simp add: closed_inv_def split: wpc.splits)
qed (use assms(2,4) in \<open>auto simp: closed_inv_def msys_upd\<close>)

lemma heap_inv_step:
  assumes "msys_step gstep s s'" "heap_inv s" "links_inv (wr s) (regd s) (mem s)"
  shows "heap_inv s'"
  using assms(1)
proof cases
  case (unreg_next r)
  then show ?thesis using assms(2,3) by (auto simp: heap_inv_def msys_upd owned_def dest: notin_set_remove1)
qed (use assms(2,3) in \<open>auto simp: heap_inv_def msys_upd owned_def split: wpc.splits if_splits\<close>)

lemma held_simps [simp]: "held HOut = {}" "held HIn = {}" "held (HWalk a b) = {a, b}"
  by (simp_all add: held_def)

lemma next_held:
  assumes "closed_inv w xs g" "l \<in> list_ptrs xs \<union> stale a w t"
  shows "next_link (links g l) \<in> list_ptrs xs"
  using assms by (auto simp: closed_inv_def stale_def split: wpc.splits if_splits)

context grace_period
begin

lemma drain_inv_step:
  assumes "msys_step gstep s s'" "ginv (prov s)" "drain_inv (gabs (prov s)) (wr s)"
  shows "drain_inv (gabs (prov s')) (wr s')"
  using assms(1)
  by cases (use assms(3) in \<open>auto simp: drain_inv_def msys_upd dest!: gabs_step [OF _ assms(2)] elim: rcu_stepE\<close>)

lemma readers_inv_step:
  assumes "msys_step gstep s s'" "ginv (prov s)" "readers_inv (gabs (prov s)) s"
    and closed: "closed_inv (wr s) (regd s) (mem s)" and drain: "drain_inv (gabs (prov s)) (wr s)"
    and links: "links_inv (wr s) (regd s) (mem s)" and heap: "heap_inv s"
  shows "readers_inv (gabs (prov s')) s'"
proof -
  let ?a = "gabs (prov s)"
  have R: "held (hp s t) \<subseteq> list_ptrs (regd s) \<union> stale ?a (wr s) t" "hp s t \<noteq> HOut \<longleftrightarrow> t \<in> inside ?a" for t
    using assms(3) by (auto simp: readers_inv_def)
  have goto: "readers_inv ?a (hgoto t h s)"
    if t: "held h \<subseteq> list_ptrs (regd s) \<union> held (hp s t)" "h \<noteq> HOut" "hp s t \<noteq> HOut" for t h
  proof -
    have "held h \<subseteq> list_ptrs (regd s) \<union> stale ?a (wr s) t" using t(1) R(1) [of t] by blast
    then show ?thesis using R t(2,3) by (simp add: readers_inv_def hgoto_def)
  qed
  show ?thesis
    using assms(1)
  proof cases
    case (h_load t)
    have "mnext s Handlers \<in> list_ptrs (regd s)"
      using closed by (auto simp: closed_inv_def mnext_def list_ptrs_def)
    then show ?thesis using h_load goto [of "HWalk _ _" t] by (simp add: hgoto_def)
  next
    case (h_next t reglist r)
    then have "RegLink r \<in> list_ptrs (regd s) \<union> stale ?a (wr s) t" using R(1) [of t] by (simp add: held_def)
    then have "mnext s (RegLink r) \<in> list_ptrs (regd s)"
      unfolding mnext_def by (rule next_held [OF closed])
    then show ?thesis using h_next goto [of "HWalk _ _" t] by (simp add: hgoto_def)
  next
    case (h_again t reglist)
    then show ?thesis using goto [of "HWalk _ _" t] by (simp add: hgoto_def)
  next
    case (h_enter t p)
    then have "rcu_step (Enter t) ?a (gabs p)" using gabs_step assms(2) by blast
    then have a: "inside (gabs p) = insert t (inside ?a)" "waiting (gabs p) = waiting ?a"
      by (auto elim: rcu_stepE)
    then have "stale (gabs p) (wr s) u = stale ?a (wr s) u" for u
      by (simp add: stale_def split: wpc.splits)
    then show ?thesis using h_enter R a by (simp add: readers_inv_def hgoto_def)
  next
    case (h_leave t reglist it p)
    then have "rcu_step (Leave t) ?a (gabs p)" using gabs_step assms(2) by blast
    then have a: "inside (gabs p) = inside ?a - {t}" "waiting (gabs p) = map_option (\<lambda>w. w - {t}) (waiting ?a)"
      by (auto elim: rcu_stepE)
    then have "stale (gabs p) (wr s) u = stale ?a (wr s) u" if "u \<noteq> t" for u
      using that by (cases "waiting ?a") (simp_all add: stale_def split: wpc.splits)
    then show ?thesis using h_leave R a by (simp add: readers_inv_def hgoto_def)
  next
    case (p_internal p)
    then have "rcu_step Internal ?a (gabs p)" using gabs_step assms(2) by blast
    then have "gabs p = ?a" by (auto elim: rcu_stepE)
    then show ?thesis using p_internal R by (simp add: readers_inv_def)
  next
    case (unreg_drain r p)
    then have "rcu_step Drain_call ?a (gabs p)" using gabs_step assms(2) by blast
    then have "inside (gabs p) = inside ?a" "waiting (gabs p) = Some (inside ?a)" by (auto elim: rcu_stepE)
    then show ?thesis using unreg_drain R
      by (fastforce simp: readers_inv_def stale_def held_def split: hpc.splits)
  next
    case (unreg_unlock r p)
    then have "rcu_step Drain_return ?a (gabs p)" using gabs_step assms(2) by blast
    then have "inside (gabs p) = inside ?a" "waiting ?a = Some {}" by (auto elim: rcu_stepE)
    then show ?thesis using unreg_unlock R by (fastforce simp: readers_inv_def stale_def)
  next
    case (unreg_next r)
    then have "list_ptrs (regd s) \<subseteq> insert (RegLink r) (list_ptrs (remove1 r (regd s)))"
      using links heap by (auto simp: list_ptrs_def heap_inv_def)
    then show ?thesis using unreg_next R by (fastforce simp: readers_inv_def stale_def mstore_def)
  next
    case (reg_publish r)
    then show ?thesis using R by (fastforce simp: readers_inv_def stale_def mstore_def list_ptrs_def)
  qed (use R in \<open>fastforce simp: readers_inv_def stale_def mstore_def\<close>)+
qed

lemma msys_inv_step:
  assumes "msys_step gstep s s'" "ginv (prov s)" "msys_inv gabs s"
  shows "msys_inv gabs s' \<and> ginv (prov s')"
proof -
  have "ginv (prov s')"
    using assms(1) by cases (use assms(2) ginv_step in \<open>auto simp: msys_upd\<close>)
  then show ?thesis
    using assms links_inv_step [OF assms(1)] closed_inv_step [OF assms(1)] heap_inv_step [OF assms(1)]
      drain_inv_step [OF assms(1,2)] readers_inv_step [OF assms(1,2)]
    by (simp add: msys_inv_def)
qed

lemma msys_inv_init:
  assumes "handlers_list g []" "inside (gabs p) = {}" "waiting (gabs p) = None"
  shows "msys_inv gabs (init_msys p g)"
  using assms
  by (simp add: msys_inv_def init_msys_def closed_inv_def readers_inv_def heap_inv_def drain_inv_def
      handlers_list_def held_def owned_def list_ptrs_def)

lemma msys_reach_inv:
  assumes "msys_reach gstep start s"
    and "\<And>p. start p \<Longrightarrow> ginv p \<and> inside (gabs p) = {} \<and> waiting (gabs p) = None"
  shows "msys_inv gabs s \<and> ginv (prov s)"
  using assms(1)
proof (induction rule: msys_reach.induct)
  case (m_start p g)
  then show ?case using assms(2) msys_inv_init by (auto simp: init_msys_def)
next
  case (m_step s s')
  then show ?case using msys_inv_step by blast
qed

text \<open>No reader can touch freed memory, and none holds what a client has unregistered.\<close>

lemma no_use_after_free:
  assumes "msys_inv gabs s" "RegLink r \<in> held (hp s t)"
  shows "r \<in> dom (regs (mem s)) \<and> r \<notin> pending s"
proof -
  have "RegLink r \<in> list_ptrs (regd s) \<union> stale (gabs (prov s)) (wr s) t"
    using assms by (auto simp: msys_inv_def readers_inv_def)
  then have "r \<in> set (regd s) \<union> owned (wr s)"
    by (auto simp: list_ptrs_def stale_def owned_def split: wpc.splits if_splits)
  then show ?thesis using assms(1) by (auto simp: msys_inv_def heap_inv_def)
qed

end

section \<open>A concrete run\<close>

abbreviation "phaser_start p \<equiv> (\<exists>ph0. p = init_psys ph0)"
abbreviation "mreach \<equiv> msys_reach (phaser_step max_readers) (\<lambda>p. phaser_start p)"

lemma phaser_start_quiet:
  "phaser_start p \<Longrightarrow> phaser_inv max_readers p \<and> inside (rcu_of p) = {} \<and> waiting (rcu_of p) = None"
  by (auto intro: phaser_inv_init) (simp_all add: rcu_of_def init_psys_def active_def drain_running_def)

lemma mreach_provider:
  assumes "runs (phaser_step max_readers) p es p'" "set es \<subseteq> {Internal}" "mreach s" "p = prov s"
  shows "mreach (s\<lparr>prov := p'\<rparr>)"
  using assms
proof (induction rule: runs.induct)
  case (runs_snoc p es p' e p'')
  then have "mreach (s\<lparr>prov := p'\<rparr>)" "phaser_step max_readers Internal (prov (s\<lparr>prov := p'\<rparr>)) p''" by auto
  then show ?case using msys_reach.m_step [OF _ msys_step.p_internal] by fastforce
qed simp

lemma mreach_register:
  assumes "mreach s" "wr s = WIdle" "regs (mem s) r = None"
  shows "\<exists>s'. mreach s' \<and> wr s' = WIdle \<and> hp s' = hp s \<and> prov s' = prov s \<and> mnext s' Handlers = RegLink r"
proof -
  note st = msys_reach.m_step
  let ?s0 = "mstore (\<lambda>g. g\<lparr>regs := (regs g)(r \<mapsto> undefined)\<rparr>) (WReg r 0) s"
  let ?s1 = "mstore (set_next (RegLink r) (mnext ?s0 Handlers)) (WReg r 1) ?s0"
  let ?s2 = "mstore (set_prev (RegLink r) Handlers) (WReg r 2) ?s1"
  let ?s3 = "mstore (set_prev (mnext ?s2 (RegLink r)) (RegLink r)) (WReg r 3) ?s2"
  let ?s4 = "(mstore (set_next Handlers (RegLink r)) WIdle ?s3)\<lparr>regd := r # regd ?s3\<rparr>"
  have 0: "mreach ?s0" by (rule st [OF assms(1) msys_step.reg_alloc]) (use assms in simp_all)
  have 1: "mreach ?s1" by (rule st [OF 0 msys_step.reg_next]) (simp add: mstore_def)
  have 2: "mreach ?s2" by (rule st [OF 1 msys_step.reg_prev]) (simp add: mstore_def)
  have 3: "mreach ?s3" by (rule st [OF 2 msys_step.reg_back]) (simp add: mstore_def)
  have "mreach ?s4" by (rule st [OF 3 msys_step.reg_publish]) (simp add: mstore_def)
  then show ?thesis by (intro exI [of _ ?s4]) (simp add: mstore_def mnext_def)
qed

lemma mreach_reader:
  assumes "mreach s" "prov s = demo_sys [0, 0] RIdle DIdle {}" "hp s 0 = HOut"
  shows "\<exists>s'. mreach s' \<and> hp s' 0 = HWalk (mnext s Handlers) (mnext s Handlers)"
proof -
  obtain p1 where p1: "runs (phaser_step max_readers) (demo_sys [0, 0] RIdle DIdle {}) [Internal, Internal] p1"
    "phaser_step max_readers (Enter 0) p1 (demo_sys [1, 0] (RIn 0) DIdle {})"
    using demo_enter by (cases rule: runs.cases) auto
  let ?s1 = "s\<lparr>prov := p1\<rparr>"
  let ?s2 = "(hgoto 0 HIn ?s1)\<lparr>prov := demo_sys [1, 0] (RIn 0) DIdle {}\<rparr>"
  let ?s3 = "hgoto 0 (HWalk (mnext ?s2 Handlers) (mnext ?s2 Handlers)) ?s2"
  have 1: "mreach ?s1" using mreach_provider [OF p1(1) _ assms(1)] assms(2) by simp
  have 2: "mreach ?s2"
    by (rule msys_reach.m_step [OF 1 msys_step.h_enter]) (use assms p1 in simp_all)
  have "mreach ?s3" by (rule msys_reach.m_step [OF 2 msys_step.h_load]) (simp add: hgoto_def)
  then show ?thesis by (intro exI [of _ ?s3]) (simp add: hgoto_def mnext_def)
qed

lemma demo_walk: "\<exists>s. mreach s \<and> hp s 0 = HWalk (RegLink 2) (RegLink 2)"
proof -
  have i: "init_psys \<lparr>counter = []\<rparr> = demo_sys [0, 0] RIdle DIdle {}"
    using phaser_init_counters [of "\<lparr>counter = []\<rparr>"]
    by (auto simp: init_psys_def demo_sys_def phaser_init_def)
  have "mreach (init_msys (demo_sys [0, 0] RIdle DIdle {}) demo_g1)"
    by (rule msys_reach.m_start) (use i [symmetric] demo_lists(1) in auto)
  then obtain s where "mreach s" "hp s = (\<lambda>_. HOut)" "prov s = demo_sys [0, 0] RIdle DIdle {}"
    "mnext s Handlers = RegLink 2"
    using mreach_register [of "init_msys (demo_sys [0, 0] RIdle DIdle {}) demo_g1" 2]
    by (auto simp: init_msys_def)
  then show ?thesis using mreach_reader [of s] by auto
qed

section \<open>Properties\<close>

text \<open>C8. No use after free: in every interleaving of any number of signal handlers with
  registering and unregistering threads, over the phaser as it is implemented, each
  registration that a handler points to, by its saved list head or its position, is
  allocated, and is none that has been drained, so that when \<open>sigmux_unregister\<close> frees a
  registration no handler still runs it.
\<close>

theorem sigmux_no_use_after_free:
  assumes "msys_reach (phaser_step max_readers) (\<lambda>p. \<exists>ph0. p = init_psys ph0) s"
    and "hp s t = HWalk reglist it" "RegLink r \<in> {reglist, it}"
  shows "r \<in> dom (regs (mem s)) \<and> r \<notin> pending s"
  using phaser_gp.no_use_after_free [of s r t] phaser_gp.msys_reach_inv [OF assms(1)]
    phaser_start_quiet assms(2,3) by auto

theorem sigmux_no_use_after_free_witness:
  "\<exists>s. hp s 0 = HWalk (RegLink 2) (RegLink 2) \<and> 2 \<in> dom (regs (mem (s :: psys msys)))"
proof -
  obtain s where s: "mreach s" "hp s 0 = HWalk (RegLink 2) (RegLink 2)" using demo_walk by blast
  then show ?thesis using sigmux_no_use_after_free [OF s, of 2] by blast
qed

end
