(* ===== verification/Hooks.thy ===== *)
theory Hooks
  imports Prelude
begin

text \<open>
  The registry of hooked GOT slots (\<open>hooks.cpp\<close>): run lists behind shared pointers, indexed by
  hook id and by GOT address. The shared pointers are indices into a store, because an update
  through one index must be seen through the other. A contract over abstract chains (one list
  of functions per slot) is refined by the definitions.
\<close>

section \<open>Data\<close>

type_synonym HookId = u32

datatype HookResult = WRONG_HOOK_INFO | NEW_HOOK | ALREADY_HOOKED_APPENDED
  | REMOVED_STILL_HOOKED | REMOVED_TRIVIAL | REMOVED_FULLY

record HookInfo =
  out_id :: HookId
  got_address :: uintptr
  new_function :: uintptr
  previous_function :: uintptr

record InternalHookInfo =
  ihi_id :: HookId
  ihi_got_address :: uintptr
  ihi_hooks :: "uintptr list"

text \<open>\<open>infos\<close> is the heap of \<open>InternalHookInfo\<close> objects, \<open>n_infos\<close> the next free one.\<close>

record hook_globals =
  hooks_by_id :: "HookId \<rightharpoonup> nat"
  hooks_by_got_address :: "uintptr \<rightharpoonup> nat"
  next_id :: HookId
  infos :: "nat \<Rightarrow> InternalHookInfo"
  n_infos :: nat

definition Globals :: hook_globals where
  "Globals = \<lparr>hooks_by_id = Map.empty, hooks_by_got_address = Map.empty, next_id = 1,
     infos = (\<lambda>_. \<lparr>ihi_id = 0, ihi_got_address = 0, ihi_hooks = []\<rparr>), n_infos = 0\<rparr>"

section \<open>The functions of hooks.cpp\<close>

text \<open>\<open>std::map::emplace\<close> keeps an existing entry.\<close>

definition emplace :: "'k \<Rightarrow> 'v \<Rightarrow> ('k \<rightharpoonup> 'v) \<Rightarrow> ('k \<rightharpoonup> 'v)" where
  "emplace k v m = (if m k = None then m(k \<mapsto> v) else m)"

definition allocate_id :: "hook_globals \<Rightarrow> HookId \<times> hook_globals" where
  "allocate_id g = (next_id g, g\<lparr>next_id := next_id g + 1\<rparr>)"

definition is_hooked :: "hook_globals \<Rightarrow> uintptr \<Rightarrow> bool" where
  "is_hooked g a \<longleftrightarrow> hooks_by_got_address g a \<noteq> None"

definition list_size :: "hook_globals \<Rightarrow> HookId \<Rightarrow> int" where
  "list_size g i = (case hooks_by_id g i of None \<Rightarrow> -1 | Some p \<Rightarrow> int (length (ihi_hooks (infos g p))))"

definition get_run_list :: "hook_globals \<Rightarrow> HookId \<Rightarrow> uintptr list" where
  "get_run_list g i = (case hooks_by_id g i of None \<Rightarrow> [] | Some p \<Rightarrow> ihi_hooks (infos g p))"

definition add :: "HookInfo \<Rightarrow> hook_globals \<Rightarrow> HookResult \<times> HookInfo \<times> hook_globals" where
  "add info g =
     (if previous_function info = 0 \<or> new_function info = 0 \<or> got_address info = 0
      then (WRONG_HOOK_INFO, info, g)
      else case hooks_by_got_address g (got_address info) of
        Some p \<Rightarrow>
          (ALREADY_HOOKED_APPENDED, info,
           g\<lparr>infos := (infos g)(p := (infos g p)\<lparr>ihi_hooks := ihi_hooks (infos g p) @ [new_function info]\<rparr>)\<rparr>)
      | None \<Rightarrow>
          (let (i, g1) = allocate_id g;
               p = n_infos g1;
               obj = \<lparr>ihi_id = i, ihi_got_address = got_address info,
                      ihi_hooks = [previous_function info, new_function info]\<rparr>;
               g2 = g1\<lparr>infos := (infos g1)(p := obj), n_infos := p + 1\<rparr>;
               g3 = g2\<lparr>hooks_by_got_address := emplace (got_address info) p (hooks_by_got_address g2)\<rparr>;
               g4 = g3\<lparr>hooks_by_id := emplace i p (hooks_by_id g3)\<rparr>
           in (NEW_HOOK, info\<lparr>out_id := i\<rparr>, g4)))"

text \<open>\<open>remove\<close>; \<open>remove1\<close> is \<open>std::find\<close> followed by \<open>erase\<close> of what it found.\<close>

definition remove :: "HookInfo \<Rightarrow> hook_globals \<Rightarrow> HookResult \<times> HookInfo \<times> hook_globals" where
  "remove info g =
     (if new_function info = 0 \<or> got_address info = 0 then (WRONG_HOOK_INFO, info, g)
      else case hooks_by_got_address g (got_address info) of
        None \<Rightarrow> (WRONG_HOOK_INFO, info, g)
      | Some p \<Rightarrow>
          (let hs = ihi_hooks (infos g p)
           in if length hs = 1 then
                (if hs ! 0 \<noteq> new_function info then (WRONG_HOOK_INFO, info, g)
                 else (REMOVED_FULLY, info,
                       g\<lparr>hooks_by_got_address := (hooks_by_got_address g)(got_address info := None)\<rparr>))
              else if new_function info \<notin> set hs then (WRONG_HOOK_INFO, info, g)
              else if hs ! 0 = new_function info then (WRONG_HOOK_INFO, info, g)
              else (let hs' = remove1 (new_function info) hs
                    in (if length hs' = 1 then REMOVED_TRIVIAL else REMOVED_STILL_HOOKED,
                        info\<lparr>previous_function := hs' ! 0\<rparr>,
                        g\<lparr>infos := (infos g)(p := (infos g p)\<lparr>ihi_hooks := hs'\<rparr>)\<rparr>))))"

section \<open>Invariant and abstraction\<close>

text \<open>A slot's chain: the original function, then the hooks in the order they were added.\<close>

definition slot_chains :: "hook_globals \<Rightarrow> uintptr \<rightharpoonup> uintptr list" where
  "slot_chains g a = map_option (\<lambda>p. ihi_hooks (infos g p)) (hooks_by_got_address g a)"

definition hooks_inv :: "hook_globals \<Rightarrow> bool" where
  "hooks_inv g \<longleftrightarrow>
     (\<forall>i p. hooks_by_id g i = Some p \<longrightarrow> p < n_infos g \<and> ihi_id (infos g p) = i \<and> i < next_id g
        \<and> ihi_hooks (infos g p) \<noteq> [] \<and> 0 \<notin> set (ihi_hooks (infos g p)))
   \<and> (\<forall>a p. hooks_by_got_address g a = Some p \<longrightarrow> a \<noteq> 0 \<and> p < n_infos g \<and> ihi_got_address (infos g p) = a
        \<and> hooks_by_id g (ihi_id (infos g p)) = Some p)
   \<and> 0 < next_id g"

text \<open>The id counter of 32 bits has not wrapped, and does not wrap in this call.\<close>

definition id_room :: "hook_globals \<Rightarrow> bool" where
  "id_room g \<longleftrightarrow> next_id g \<noteq> -1"

lemma hooks_invD:
  assumes "hooks_inv g" "hooks_by_got_address g a = Some p"
  shows "a \<noteq> 0" "p < n_infos g" "ihi_got_address (infos g p) = a" "hooks_by_id g (ihi_id (infos g p)) = Some p"
    "ihi_hooks (infos g p) \<noteq> []" "0 \<notin> set (ihi_hooks (infos g p))" "ihi_id (infos g p) < next_id g"
  using assms unfolding hooks_inv_def by blast+

lemma next_id_room:
  assumes "id_room g"
  shows "next_id g < next_id g + 1"
proof -
  have "next_id g + 1 \<noteq> 0" using assms eq_neg_iff_add_eq_0 [of "next_id g" 1] by (simp add: id_room_def)
  then show ?thesis by (simp add: word_less_nat_alt unatSuc add.commute)
qed

lemma hooks_inv_Globals: "hooks_inv Globals"
  by (simp add: hooks_inv_def Globals_def)

lemma hooks_inv_update:
  assumes "hooks_inv g" "hs \<noteq> []" "0 \<notin> set hs"
  shows "hooks_inv (g\<lparr>infos := (infos g)(p := (infos g p)\<lparr>ihi_hooks := hs\<rparr>)\<rparr>)"
  using assms unfolding hooks_inv_def by simp

lemma hooks_inv_erase:
  assumes "hooks_inv g"
  shows "hooks_inv (g\<lparr>hooks_by_got_address := (hooks_by_got_address g)(a := None)\<rparr>)"
  using assms unfolding hooks_inv_def by simp

lemma hooks_inv_new:
  assumes inv: "hooks_inv g" and room: "id_room g" and a: "a \<noteq> 0" and hs: "hs \<noteq> []" "0 \<notin> set hs"
  shows "hooks_inv (g\<lparr>next_id := next_id g + 1,
     infos := (infos g)(n_infos g := \<lparr>ihi_id = next_id g, ihi_got_address = a, ihi_hooks = hs\<rparr>),
     n_infos := n_infos g + 1, hooks_by_got_address := (hooks_by_got_address g)(a \<mapsto> n_infos g),
     hooks_by_id := (hooks_by_id g)(next_id g \<mapsto> n_infos g)\<rparr>)"
proof -
  have up: "next_id g < next_id g + 1" by (rule next_id_room [OF room])
  have id: "p < n_infos g \<and> p \<noteq> n_infos g \<and> i \<noteq> next_id g \<and> i < next_id g + 1
      \<and> ihi_id (infos g p) = i \<and> ihi_hooks (infos g p) \<noteq> [] \<and> 0 \<notin> set (ihi_hooks (infos g p))"
    if h: "hooks_by_id g i = Some p" for i p
  proof -
    have "i < next_id g" "p < n_infos g" "ihi_id (infos g p) = i" "ihi_hooks (infos g p) \<noteq> []"
      "0 \<notin> set (ihi_hooks (infos g p))"
      using inv h unfolding hooks_inv_def by blast+
    then show ?thesis using order.strict_trans [OF _ up] by auto
  qed
  have got: "b \<noteq> 0 \<and> p < n_infos g \<and> p \<noteq> n_infos g \<and> ihi_got_address (infos g p) = b
      \<and> hooks_by_id g (ihi_id (infos g p)) = Some p \<and> ihi_id (infos g p) \<noteq> next_id g"
    if h: "hooks_by_got_address g b = Some p" for b p
    using hooks_invD [OF inv h] by auto
  have "0 < next_id g" using inv unfolding hooks_inv_def by blast
  then have "0 < next_id g + 1" using up by (rule order.strict_trans)
  then show ?thesis
    using id got up a hs unfolding hooks_inv_def by (simp add: less_Suc_eq)
qed

lemma add_new_eq:
  assumes "hooks_inv g" "previous_function info \<noteq> 0" "new_function info \<noteq> 0" "got_address info \<noteq> 0"
    "hooks_by_got_address g (got_address info) = None"
  shows "add info g = (NEW_HOOK, info\<lparr>out_id := next_id g\<rparr>, g\<lparr>next_id := next_id g + 1,
     infos := (infos g)(n_infos g := \<lparr>ihi_id = next_id g, ihi_got_address = got_address info,
        ihi_hooks = [previous_function info, new_function info]\<rparr>),
     n_infos := n_infos g + 1, hooks_by_got_address := (hooks_by_got_address g)(got_address info \<mapsto> n_infos g),
     hooks_by_id := (hooks_by_id g)(next_id g \<mapsto> n_infos g)\<rparr>)"
proof -
  have "hooks_by_id g (next_id g) = None"
    using assms(1) unfolding hooks_inv_def by (cases "hooks_by_id g (next_id g)") auto
  then show ?thesis using assms by (simp add: add_def allocate_id_def emplace_def Let_def)
qed

lemma hooks_inv_add:
  assumes "hooks_inv g" "id_room g" "add info g = (r, info', g')"
  shows "hooks_inv g'"
proof (cases "previous_function info = 0 \<or> new_function info = 0 \<or> got_address info = 0")
  case True
  then show ?thesis using assms by (auto simp: add_def)
next
  case False
  show ?thesis
  proof (cases "hooks_by_got_address g (got_address info)")
    case None
    then show ?thesis
      using add_new_eq [of g info] hooks_inv_new [OF assms(1,2), of "got_address info" "[previous_function info, new_function info]"]
        False assms by auto
  next
    case (Some p)
    then show ?thesis using assms False
      by (auto simp: add_def intro!: hooks_inv_update dest: hooks_invD)
  qed
qed

lemma hooks_inv_remove:
  assumes "hooks_inv g" "remove info g = (r, info', g')"
  shows "hooks_inv g'"
proof -
  have "remove1 f hs \<noteq> []" "0 \<notin> set (remove1 f hs)"
    if "hs \<noteq> []" "0 \<notin> set hs" "length hs \<noteq> 1" for f and hs :: "uintptr list"
    using that by (cases hs rule: remdups_adj.cases; auto dest: notin_set_remove1)+
  then show ?thesis using assms hooks_invD
    by (auto simp: remove_def Let_def intro!: hooks_inv_update hooks_inv_erase split: if_splits option.splits)
qed

section \<open>The contract\<close>

text \<open>What a registry of hooks promises about the chains of its slots.\<close>

locale hook_registry =
  fixes add_hook :: "HookInfo \<Rightarrow> 'g \<Rightarrow> HookResult \<times> HookInfo \<times> 'g"
    and remove_hook :: "HookInfo \<Rightarrow> 'g \<Rightarrow> HookResult \<times> HookInfo \<times> 'g"
    and slots :: "'g \<Rightarrow> uintptr \<rightharpoonup> uintptr list"
    and reg_ok :: "'g \<Rightarrow> bool"
    and room :: "'g \<Rightarrow> bool"
  assumes add_ok: "reg_ok g \<Longrightarrow> room g \<Longrightarrow> add_hook info g = (r, info', g') \<Longrightarrow> reg_ok g'"
    and remove_ok: "reg_ok g \<Longrightarrow> remove_hook info g = (r, info', g') \<Longrightarrow> reg_ok g'"
    and slot_nonempty: "reg_ok g \<Longrightarrow> slots g a = Some hs \<Longrightarrow> hs \<noteq> [] \<and> 0 \<notin> set hs \<and> a \<noteq> 0"
    and add_slots: "reg_ok g \<Longrightarrow> room g \<Longrightarrow> a \<noteq> 0 \<Longrightarrow> f \<noteq> 0 \<Longrightarrow> orig \<noteq> 0 \<Longrightarrow>
       got_address info = a \<Longrightarrow> new_function info = f \<Longrightarrow> previous_function info = orig \<Longrightarrow>
       add_hook info g = (r, info', g') \<Longrightarrow>
       slots g' = (slots g)(a \<mapsto> (case slots g a of None \<Rightarrow> [orig, f] | Some hs \<Rightarrow> hs @ [f]))
       \<and> r = (if slots g a = None then NEW_HOOK else ALREADY_HOOKED_APPENDED)"
    and remove_slots: "reg_ok g \<Longrightarrow> f \<noteq> 0 \<Longrightarrow> got_address info = a \<Longrightarrow> new_function info = f \<Longrightarrow>
       slots g a = Some (orig # hs) \<Longrightarrow> remove_hook info g = (r, info', g') \<Longrightarrow>
       (if hs = [] then if f = orig then r = REMOVED_FULLY \<and> slots g' = (slots g)(a := None)
                        else r = WRONG_HOOK_INFO \<and> g' = g
        else if f = orig \<or> f \<notin> set hs then r = WRONG_HOOK_INFO \<and> g' = g
        else slots g' = (slots g)(a \<mapsto> orig # remove1 f hs) \<and> previous_function info' = orig
             \<and> r = (if remove1 f hs = [] then REMOVED_TRIVIAL else REMOVED_STILL_HOOKED))"
begin

text \<open>Hooking a fresh slot, unhooking it and dropping the original leaves no trace.\<close>

lemma hook_unhook:
  assumes ok: "reg_ok g" "room g" and fresh: "slots g a = None" "a \<noteq> 0" "f \<noteq> 0" "orig \<noteq> 0" "f \<noteq> orig"
    and 1: "add_hook \<lparr>out_id = 0, got_address = a, new_function = f, previous_function = orig\<rparr> g = (r1, i1, g1)"
    and 2: "remove_hook \<lparr>out_id = x, got_address = a, new_function = f, previous_function = y\<rparr> g1 = (r2, i2, g2)"
    and 3: "remove_hook \<lparr>out_id = z, got_address = a, new_function = previous_function i2, previous_function = u\<rparr> g2 = (r3, i3, g3)"
  shows "r1 = NEW_HOOK \<and> r2 = REMOVED_TRIVIAL \<and> r3 = REMOVED_FULLY \<and> previous_function i2 = orig \<and> slots g3 = slots g"
proof -
  have s1: "slots g1 = (slots g)(a \<mapsto> [orig, f])" "r1 = NEW_HOOK"
    using add_slots [OF ok fresh(2-4) _ _ _ 1] fresh(1) by simp_all
  have k1: "reg_ok g1" by (rule add_ok [OF ok 1])
  have s2: "slots g2 = (slots g)(a \<mapsto> [orig])" "previous_function i2 = orig" "r2 = REMOVED_TRIVIAL"
    using remove_slots [OF k1 fresh(3) _ _ _ 2] s1(1) fresh by simp_all
  have k2: "reg_ok g2" by (rule remove_ok [OF k1 2])
  have "r3 = REMOVED_FULLY" "slots g3 = (slots g2)(a := None)"
    using remove_slots [OF k2 _ _ _ _ 3, of orig a orig "[]"] s2 fresh by simp_all
  then show ?thesis using s1 s2 fresh(1) by (auto simp: fun_upd_idem_iff)
qed

end

lemma slot_chains_inj:
  assumes "hooks_inv g" "hooks_by_got_address g a = Some p" "hooks_by_got_address g b = Some p"
  shows "a = b"
  using hooks_invD(3) [OF assms(1,2)] hooks_invD(3) [OF assms(1,3)] by simp

lemma slot_chains_update:
  assumes "hooks_inv g" "hooks_by_got_address g a = Some p"
  shows "slot_chains (g\<lparr>infos := (infos g)(p := (infos g p)\<lparr>ihi_hooks := hs\<rparr>)\<rparr>) = (slot_chains g)(a \<mapsto> hs)"
proof
  fix b
  show "slot_chains (g\<lparr>infos := (infos g)(p := (infos g p)\<lparr>ihi_hooks := hs\<rparr>)\<rparr>) b = ((slot_chains g)(a \<mapsto> hs)) b"
  proof (cases "b = a")
    case False
    then have "hooks_by_got_address g b \<noteq> Some p" using slot_chains_inj [OF assms(1,2), of b] by blast
    then show ?thesis using False by (cases "hooks_by_got_address g b") (simp_all add: slot_chains_def)
  qed (use assms(2) in \<open>simp add: slot_chains_def\<close>)
qed

lemma slot_chains_new:
  assumes "hooks_inv g"
  shows "slot_chains (g\<lparr>next_id := i, infos := (infos g)(n_infos g := obj), n_infos := n,
     hooks_by_got_address := (hooks_by_got_address g)(a \<mapsto> n_infos g), hooks_by_id := m\<rparr>) =
     (slot_chains g)(a \<mapsto> ihi_hooks obj)"
proof
  fix b
  have "p \<noteq> n_infos g" if "hooks_by_got_address g b = Some p" for p
    using hooks_invD(2) [OF assms that] by simp
  then show "slot_chains (g\<lparr>next_id := i, infos := (infos g)(n_infos g := obj), n_infos := n,
     hooks_by_got_address := (hooks_by_got_address g)(a \<mapsto> n_infos g), hooks_by_id := m\<rparr>) b =
     ((slot_chains g)(a \<mapsto> ihi_hooks obj)) b"
    by (cases "hooks_by_got_address g b") (auto simp: slot_chains_def)
qed

lemma add_chains:
  assumes inv: "hooks_inv g" and nz: "got_address info \<noteq> 0" "new_function info \<noteq> 0" "previous_function info \<noteq> 0"
    and add: "add info g = (r, info', g')"
  shows "slot_chains g' = (slot_chains g)(got_address info \<mapsto> (case slot_chains g (got_address info) of
      None \<Rightarrow> [previous_function info, new_function info] | Some hs \<Rightarrow> hs @ [new_function info]))
    \<and> r = (if slot_chains g (got_address info) = None then NEW_HOOK else ALREADY_HOOKED_APPENDED)"
proof (cases "hooks_by_got_address g (got_address info)")
  case None
  then show ?thesis
    using add_new_eq [OF inv nz(3,2,1) None] add slot_chains_new [OF inv] by (auto simp: slot_chains_def [of g])
next
  case (Some p)
  then show ?thesis using add nz slot_chains_update [OF inv Some] by (auto simp: add_def slot_chains_def [of g])
qed

lemma slot_chains_erase:
  "slot_chains (g\<lparr>hooks_by_got_address := (hooks_by_got_address g)(a := None)\<rparr>) = (slot_chains g)(a := None)"
  by (auto simp: slot_chains_def)

lemma remove_chains:
  assumes inv: "hooks_inv g" and f: "new_function info \<noteq> 0" and c: "slot_chains g (got_address info) = Some (orig # hs)"
    and rem: "remove info g = (r, info', g')"
  shows "if hs = [] then if new_function info = orig
             then r = REMOVED_FULLY \<and> slot_chains g' = (slot_chains g)(got_address info := None)
             else r = WRONG_HOOK_INFO \<and> g' = g
         else if new_function info = orig \<or> new_function info \<notin> set hs then r = WRONG_HOOK_INFO \<and> g' = g
         else slot_chains g' = (slot_chains g)(got_address info \<mapsto> orig # remove1 (new_function info) hs)
           \<and> previous_function info' = orig
           \<and> r = (if remove1 (new_function info) hs = [] then REMOVED_TRIVIAL else REMOVED_STILL_HOOKED)"
proof -
  obtain p where p: "hooks_by_got_address g (got_address info) = Some p" "ihi_hooks (infos g p) = orig # hs"
    using c by (auto simp: slot_chains_def)
  note upd = slot_chains_update [OF inv p(1)]
  show ?thesis using rem f p hooks_invD(1) [OF inv p(1)]
    by (auto simp: remove_def Let_def upd slot_chains_erase split: if_splits)
qed

interpretation hk: hook_registry add remove slot_chains hooks_inv id_room
proof
  show "hooks_inv g'" if "hooks_inv g" "id_room g" "add info g = (r, info', g')" for g info r info' g'
    using hooks_inv_add that .
  show "hooks_inv g'" if "hooks_inv g" "remove info g = (r, info', g')" for g info r info' g'
    using hooks_inv_remove that .
  show "hs \<noteq> [] \<and> 0 \<notin> set hs \<and> a \<noteq> 0" if "hooks_inv g" "slot_chains g a = Some hs" for g a hs
    using that hooks_invD by (auto simp: slot_chains_def)
  show "slot_chains g' = (slot_chains g)(a \<mapsto> (case slot_chains g a of None \<Rightarrow> [orig, f] | Some hs \<Rightarrow> hs @ [f]))
       \<and> r = (if slot_chains g a = None then NEW_HOOK else ALREADY_HOOKED_APPENDED)"
    if "hooks_inv g" "a \<noteq> 0" "f \<noteq> 0" "orig \<noteq> 0" "got_address info = a" "new_function info = f"
      "previous_function info = orig" "add info g = (r, info', g')" for g a f orig info r info' g'
    using add_chains [of g info r info' g'] that by (simp cong: option.case_cong)
  show "if hs = [] then if f = orig then r = REMOVED_FULLY \<and> slot_chains g' = (slot_chains g)(a := None)
                        else r = WRONG_HOOK_INFO \<and> g' = g
        else if f = orig \<or> f \<notin> set hs then r = WRONG_HOOK_INFO \<and> g' = g
        else slot_chains g' = (slot_chains g)(a \<mapsto> orig # remove1 f hs) \<and> previous_function info' = orig
             \<and> r = (if remove1 f hs = [] then REMOVED_TRIVIAL else REMOVED_STILL_HOOKED)"
    if "hooks_inv g" "f \<noteq> 0" "got_address info = a" "new_function info = f" "slot_chains g a = Some (orig # hs)"
      "remove info g = (r, info', g')" for g f info a orig hs r info' g'
    using remove_chains [of g info orig hs r info' g'] that by simp
qed

text \<open>A slot's trampoline looks its run list up by id; what it finds is the slot's chain.\<close>

lemma run_list_chain:
  assumes "hooks_inv g" "hooks_by_got_address g a = Some p"
  shows "get_run_list g (ihi_id (infos g p)) = the (slot_chains g a)"
    "list_size g (ihi_id (infos g p)) = int (length (the (slot_chains g a)))"
  using assms hooks_invD(4) [OF assms] by (simp_all add: get_run_list_def list_size_def slot_chains_def)

definition demo_hook :: HookInfo where
  "demo_hook = \<lparr>out_id = 0, got_address = 0x8000, new_function = 0x2000, previous_function = 0x1000\<rparr>"

section \<open>Properties\<close>

text \<open>C10. \<open>hooks::add\<close>: for a valid request the slot's chain becomes the original function and the
  new one, when the slot was not hooked, and is extended at its end otherwise; no other
  slot's chain changes, the result says which case it was, the registry stays well formed,
  and the id handed out for a new slot looks up exactly that chain.
\<close>

theorem hooks_add_correct:
  assumes "hooks_inv g" "id_room g"
    and "got_address info \<noteq> 0" "new_function info \<noteq> 0" "previous_function info \<noteq> 0"
    and "add info g = (r, info', g')"
  shows "hooks_inv g'
    \<and> slot_chains g' = (slot_chains g)(got_address info \<mapsto> (case slot_chains g (got_address info) of
        None \<Rightarrow> [previous_function info, new_function info] | Some hs \<Rightarrow> hs @ [new_function info]))
    \<and> (if is_hooked g (got_address info) then r = ALREADY_HOOKED_APPENDED
       else r = NEW_HOOK \<and> get_run_list g' (out_id info') = [previous_function info, new_function info])"
proof -
  have "get_run_list g' (out_id info') = [previous_function info, new_function info]"
    if "hooks_by_got_address g (got_address info) = None"
    using add_new_eq [OF assms(1,5,4,3) that] assms(6) by (auto simp: get_run_list_def)
  moreover have "slot_chains g (got_address info) = None \<longleftrightarrow> \<not> is_hooked g (got_address info)"
    by (simp add: slot_chains_def is_hooked_def)
  ultimately show ?thesis
    using add_chains [OF assms(1,3-6)] hk.add_ok [OF assms(1,2,6)] by (simp add: is_hooked_def)
qed

theorem hooks_add_correct_witness:
  "slot_chains (snd (snd (add demo_hook Globals))) 0x8000 = Some [0x1000, 0x2000]
    \<and> get_run_list (snd (snd (add demo_hook Globals))) 1 = [0x1000, 0x2000]"
  using hooks_add_correct [OF hooks_inv_Globals, of demo_hook]
  by (auto simp: demo_hook_def id_room_def Globals_def slot_chains_def is_hooked_def add_def allocate_id_def Let_def)



end
