(* ===== verification/Trampoline.thy ===== *)
theory Trampoline
  imports Hooks
begin

text \<open>
  Trampolines (\<open>trampoline.cpp\<close>, \<open>trampoline_arm.c\<close>): the allocator of executable memory, the
  construction of a trampoline from its template, the per-thread stack of active hooks with
  the lookup of a hook's predecessor, and the ARM code that runs a hook. What \<open>mmap\<close> and
  \<open>prctl\<close> answer, and the bytes of the assembled template, are parameters.
\<close>

section \<open>Executable memory\<close>

datatype tramp_error = System_error | Bad_alloc | Abort_with_reason string | Null_deref

definition kPageSize :: size_t where "kPageSize = 4096"
definition kPagesPerBlock :: size_t where "kPagesPerBlock = 1"
definition kSize :: size_t where "kSize = kPageSize * kPagesPerBlock"
definition kAlignment :: size_t where "kAlignment = 4"

record allocator_block =
  block_map :: uintptr
  block_top :: uintptr

text \<open>What the operating system answers to the n-th request: an address, and whether naming
  the area works.\<close>

record os =
  os_mmap :: "nat \<Rightarrow> uintptr option"
  os_prctl_ok :: "nat \<Rightarrow> bool"

record tramp_heap =
  tblocks :: "allocator_block list"
  n_maps :: nat

definition remaining :: "allocator_block \<Rightarrow> size_t" where
  "remaining b = kSize - (block_top b - block_map b)"

definition block_allocate :: "size_t \<Rightarrow> allocator_block \<Rightarrow> tramp_error + uintptr \<times> allocator_block" where
  "block_allocate sz b =
     (if remaining b < sz then Inl Bad_alloc else Inr (block_top b, b\<lparr>block_top := block_top b + sz\<rparr>))"

text \<open>The constructor of \<open>allocator_block\<close> throws when one of the calls fails.\<close>

definition new_block :: "os \<Rightarrow> tramp_heap \<Rightarrow> (tramp_error + allocator_block) \<times> tramp_heap" where
  "new_block o' h =
     (let n = n_maps h; h' = h\<lparr>n_maps := n + 1\<rparr>
      in case os_mmap o' n of
           None \<Rightarrow> (Inl System_error, h')
         | Some a \<Rightarrow> if os_prctl_ok o' n then (Inr \<lparr>block_map = a, block_top = a\<rparr>, h') else (Inl System_error, h'))"

definition round_up :: "size_t \<Rightarrow> size_t" where
  "round_up sz = (sz + (kAlignment - 1)) AND NOT (kAlignment - 1)"

definition allocate :: "os \<Rightarrow> size_t \<Rightarrow> tramp_heap \<Rightarrow> (tramp_error + uintptr) \<times> tramp_heap" where
  "allocate o' sz h =
     (let sz = round_up sz;
          (r, h1) = (if tblocks h = [] \<or> remaining (last (tblocks h)) < sz
            then (case new_block o' h of
                    (Inl e, h1) \<Rightarrow> (Inl e, h1)
                  | (Inr b, h1) \<Rightarrow> (Inr (), h1\<lparr>tblocks := tblocks h1 @ [b]\<rparr>))
            else (Inr (), h))
      in case r of
           Inl e \<Rightarrow> (Inl e, h1)
         | Inr _ \<Rightarrow>
             (case block_allocate sz (last (tblocks h1)) of
                Inl e \<Rightarrow> (Inl e, h1)
              | Inr (p, b) \<Rightarrow> (Inr p, h1\<lparr>tblocks := butlast (tblocks h1) @ [b]\<rparr>)))"

section \<open>Construction\<close>

text \<open>Stores of bytes at consecutive addresses, and of little-endian words.\<close>

type_synonym bytes_mem = "uintptr \<Rightarrow> u8"

fun write_bytes :: "bytes_mem \<Rightarrow> uintptr \<Rightarrow> u8 list \<Rightarrow> bytes_mem" where
  "write_bytes m a [] = m"
| "write_bytes m a (b # bs) = write_bytes (m(a := b)) (a + 1) bs"

definition u32_bytes :: "u32 \<Rightarrow> u8 list" where
  "u32_bytes w = [ucast w, ucast (drop_bit 8 w), ucast (drop_bit 16 w), ucast (drop_bit 24 w)]"

definition read_u32 :: "bytes_mem \<Rightarrow> uintptr \<Rightarrow> u32" where
  "read_u32 m a = ucast (m a) OR push_bit 8 (ucast (m (a + 1))) OR push_bit 16 (ucast (m (a + 2)))
     OR push_bit 24 (ucast (m (a + 3)))"

definition trampoline_data_size :: size_t where
  "trampoline_data_size = 4 * 2 + 4"

record tramp_state =
  theap :: tramp_heap
  tmem :: bytes_mem
  trampolines :: "uintptr list"

text \<open>The constructor of \<open>trampoline\<close>: \<open>tmpl\<close> are the bytes between the two labels, \<open>push\<close> and
  \<open>pop\<close> the addresses of the two functions.\<close>

definition create_trampoline ::
  "os \<Rightarrow> u8 list \<Rightarrow> uintptr \<Rightarrow> uintptr \<Rightarrow> HookId \<Rightarrow> tramp_state \<Rightarrow> (tramp_error + uintptr) \<times> tramp_state" where
  "create_trampoline o' tmpl push pop hid s =
     (let code_size = of_nat (length tmpl)
      in case allocate o' (code_size + trampoline_data_size) (theap s) of
           (Inl e, h) \<Rightarrow> (Inl e, s\<lparr>theap := h\<rparr>)
         | (Inr code, h) \<Rightarrow>
             (let m1 = write_bytes (tmem s) code tmpl;
                  data = code + code_size;
                  m2 = write_bytes m1 data (u32_bytes push);
                  m3 = write_bytes m2 (data + 4) (u32_bytes pop);
                  m4 = write_bytes m3 (data + 8) (u32_bytes hid)
              in (Inr code, s\<lparr>theap := h, tmem := m4, trampolines := trampolines s @ [code]\<rparr>)))"

section \<open>The stack of active hooks\<close>

text \<open>The thread-local list: \<open>previous\<close> is the tail.\<close>

record trampoline_hook_info =
  thi_id :: HookId
  return_address :: uintptr
  run_list :: "uintptr list"

type_synonym hook_stack = "trampoline_hook_info list"

definition push_hook_stack ::
  "hook_globals \<Rightarrow> HookId \<Rightarrow> uintptr \<Rightarrow> hook_stack \<Rightarrow> tramp_error + uintptr \<times> hook_stack" where
  "push_hook_stack g hook ret st =
     (let rl = get_run_list g hook
      in if length rl = 0 then Inl (Abort_with_reason ''Run list for trampoline is empty'')
         else Inr (last rl, \<lparr>thi_id = hook, return_address = ret, run_list = rl\<rparr> # st))"

definition pop_hook_stack :: "hook_stack \<Rightarrow> tramp_error + uintptr \<times> hook_stack" where
  "pop_hook_stack st = (case st of [] \<Rightarrow> Inl Null_deref | i # rest \<Rightarrow> Inr (return_address i, rest))"

text \<open>\<open>std::find\<close>: the index of the first occurrence, or the length.\<close>

fun find_index :: "'a \<Rightarrow> 'a list \<Rightarrow> nat" where
  "find_index x [] = 0"
| "find_index x (y # ys) = (if y = x then 0 else Suc (find_index x ys))"

definition get_previous_from_hook :: "uintptr \<Rightarrow> hook_stack \<Rightarrow> tramp_error + uintptr" where
  "get_previous_from_hook hook st =
     (case st of
        [] \<Rightarrow> Inl (Abort_with_reason ''CALL_PREV call outside of an active hook'')
      | info # _ \<Rightarrow>
          (let iter = find_index hook (run_list info)
           in if iter = 0 then Inl (Abort_with_reason ''CALL_PREV call by original function?!'')
              else if iter = length (run_list info)
              then Inl (Abort_with_reason ''CALL_PREV call by an unknown hook? How did we get here?'')
              else Inr (run_list info ! (iter - 1))))"

section \<open>The ARM trampoline\<close>

text \<open>The registers that the code uses and the thread's stack, top first.\<close>

record arm =
  r0 :: u32
  r1 :: u32
  r2 :: u32
  r3 :: u32
  ip :: u32
  lr :: u32
  astack :: "u32 list"

definition arm_push :: "arm \<Rightarrow> arm" where
  "arm_push s = s\<lparr>astack := [r0 s, r1 s, r2 s, r3 s] @ astack s\<rparr>"

fun arm_pop :: "arm \<Rightarrow> arm" where
  "arm_pop s = (case astack s of a # b # c # d # rest \<Rightarrow>
     s\<lparr>r0 := a, r1 := b, r2 := c, r3 := d, astack := rest\<rparr> | _ \<Rightarrow> s)"

text \<open>A call of a C function by the procedure call standard: it returns a value in \<open>r0\<close>, may
  leave anything in the scratch registers and restores the stack.\<close>

definition c_returns :: "u32 \<Rightarrow> arm \<Rightarrow> arm \<Rightarrow> arm" where
  "c_returns v junk s = s\<lparr>r0 := v, r1 := r1 junk, r2 := r2 junk, r3 := r3 junk, ip := ip junk, lr := lr junk\<rparr>"

text \<open>\<open>trampoline_template\<close> from its entry to \<open>bx lr\<close>: the address it continues at, the final
  registers, the hook stack and the world. \<open>hook f\<close> is the code at address \<open>f\<close>; \<open>after\<close> is
  the address behind the call of the hook.\<close>

definition trampoline_template ::
  "hook_globals \<Rightarrow> HookId \<Rightarrow> u32 \<Rightarrow> (uintptr \<Rightarrow> arm \<Rightarrow> hook_stack \<Rightarrow> 'w \<Rightarrow> arm \<times> hook_stack \<times> 'w)
     \<Rightarrow> arm \<Rightarrow> arm \<Rightarrow> arm \<Rightarrow> hook_stack \<Rightarrow> 'w \<Rightarrow> tramp_error + u32 \<times> arm \<times> hook_stack \<times> 'w" where
  "trampoline_template g hook_id after hook junk1 junk2 s st w =
     (let s1 = arm_push s;
          s2 = s1\<lparr>r0 := hook_id\<rparr>;
          s3 = s2\<lparr>r1 := lr s2\<rparr>
      in case push_hook_stack g (r0 s3) (r1 s3) st of
           Inl e \<Rightarrow> Inl e
         | Inr (v, st1) \<Rightarrow>
             (let s4 = c_returns v junk1 s3;
                  s5 = s4\<lparr>ip := r0 s4\<rparr>;
                  s6 = arm_pop s5;
                  (s7, st2, w') = hook (ip s6) (s6\<lparr>lr := after\<rparr>) st1 w;
                  s8 = arm_push s7
              in case pop_hook_stack st2 of
                   Inl e \<Rightarrow> Inl e
                 | Inr (ret, st3) \<Rightarrow>
                     (let s9 = c_returns ret junk2 s8;
                          s10 = s9\<lparr>lr := r0 s9\<rparr>;
                          s11 = arm_pop s10
                      in Inr (lr s11, s11, st3, w'))))"

section \<open>The allocator\<close>

lemmas tramp_consts = kSize_def kPageSize_def kPagesPerBlock_def kAlignment_def

lemma round_up_unat:
  assumes "unat sz + 3 < 2 ^ 32"
  shows "unat (round_up sz) = (unat sz + 3) div 4 * 4"
proof -
  have "round_up sz = (sz + 3) AND NOT (mask 2)"
    by (simp add: round_up_def kAlignment_def mask_eq_exp_minus_1)
  moreover have "unat (sz + 3) = unat sz + 3" using assms by (simp add: unat_plus_if')
  ultimately show ?thesis by (simp add: unat_and_not_mask minus_mod_eq_div_mult)
qed

text \<open>What \<open>mmap\<close> promises: whole pages, none of them twice, not the last one.\<close>

definition os_ok :: "os \<Rightarrow> bool" where
  "os_ok o' \<longleftrightarrow> (\<forall>i a. os_mmap o' i = Some a \<longrightarrow> 4096 dvd unat a \<and> unat a + 4096 < 2 ^ 32)
     \<and> (\<forall>i j a. os_mmap o' i = Some a \<longrightarrow> os_mmap o' j = Some a \<longrightarrow> i = j)"

definition block_ok :: "allocator_block \<Rightarrow> bool" where
  "block_ok b \<longleftrightarrow> 4096 dvd unat (block_map b) \<and> unat (block_map b) + 4096 < 2 ^ 32
     \<and> unat (block_map b) \<le> unat (block_top b) \<and> unat (block_top b) \<le> unat (block_map b) + 4096
     \<and> 4 dvd unat (block_top b)"

definition used_block :: "allocator_block \<Rightarrow> nat set" where
  "used_block b = {unat (block_map b) ..< unat (block_top b)}"

definition used :: "tramp_heap \<Rightarrow> nat set" where
  "used h = (\<Union>b \<in> set (tblocks h). used_block b)"

definition theap_inv :: "os \<Rightarrow> tramp_heap \<Rightarrow> bool" where
  "theap_inv o' h \<longleftrightarrow> (\<forall>b \<in> set (tblocks h). block_ok b \<and> (\<exists>i < n_maps h. os_mmap o' i = Some (block_map b)))
     \<and> distinct (map block_map (tblocks h))"

lemma remaining_unat:
  assumes "block_ok b"
  shows "unat (remaining b) = 4096 - (unat (block_top b) - unat (block_map b))"
proof -
  have "unat (block_top b - block_map b) = unat (block_top b) - unat (block_map b)"
    using assms by (simp add: block_ok_def unat_sub word_le_nat_alt)
  moreover have "block_top b - block_map b \<le> 4096"
    using calculation assms by (simp add: block_ok_def word_le_nat_alt le_diff_conv)
  ultimately show ?thesis by (simp add: remaining_def tramp_consts unat_sub)
qed

text \<open>Pages that start at different multiples of the page size are disjoint.\<close>

lemma pages_disjoint:
  assumes "4096 dvd (a::nat)" "4096 dvd b" "a \<noteq> b"
  shows "{a ..< a + 4096} \<inter> {b ..< b + 4096} = {}"
  using assms by (auto simp: dvd_def)

lemma used_block_page: "block_ok b \<Longrightarrow> used_block b \<subseteq> {unat (block_map b) ..< unat (block_map b) + 4096}"
  by (auto simp: block_ok_def used_block_def)

lemma bump_last:
  assumes inv: "theap_inv o' h" and bs: "tblocks h = bs @ [b]" and n: "4 dvd unat n" "\<not> remaining b < n"
  shows "theap_inv o' (h\<lparr>tblocks := bs @ [b\<lparr>block_top := block_top b + n\<rparr>]\<rparr>)"
    and "used (h\<lparr>tblocks := bs @ [b\<lparr>block_top := block_top b + n\<rparr>]\<rparr>)
      = used h \<union> {unat (block_top b) ..< unat (block_top b) + unat n}"
    and "{unat (block_top b) ..< unat (block_top b) + unat n} \<inter> used h = {}"
    and "unat (block_top b) + unat n < 2 ^ 32"
proof -
  have b: "block_ok b" using inv bs by (simp add: theap_inv_def)
  have room: "unat (block_top b) + unat n \<le> unat (block_map b) + 4096"
    using n(2) remaining_unat [OF b] b by (auto simp: word_less_nat_alt block_ok_def)
  then show lt: "unat (block_top b) + unat n < 2 ^ 32" using b by (simp add: block_ok_def)
  then have sum: "unat (block_top b + n) = unat (block_top b) + unat n" by (simp add: unat_plus_if')
  show "theap_inv o' (h\<lparr>tblocks := bs @ [b\<lparr>block_top := block_top b + n\<rparr>]\<rparr>)"
    using inv bs room n(1) b by (auto simp: theap_inv_def block_ok_def sum)
  show "used (h\<lparr>tblocks := bs @ [b\<lparr>block_top := block_top b + n\<rparr>]\<rparr>)
      = used h \<union> {unat (block_top b) ..< unat (block_top b) + unat n}"
    using b by (auto simp: used_def used_block_def bs sum block_ok_def)
  have "{unat (block_top b) ..< unat (block_top b) + unat n} \<inter> used_block c = {}" if c: "c \<in> set bs" for c
  proof -
    have "block_map b \<notin> block_map ` set bs" "block_ok c" using inv bs c by (auto simp: theap_inv_def)
    then have "block_ok c" "block_map c \<noteq> block_map b" using c by (metis imageI)+
    then have "{unat (block_map c) ..< unat (block_map c) + 4096} \<inter> {unat (block_map b) ..< unat (block_map b) + 4096} = {}"
      using b by (intro pages_disjoint) (auto simp: block_ok_def word_unat_eq_iff)
    moreover have "{unat (block_top b) ..< unat (block_top b) + unat n} \<subseteq> {unat (block_map b) ..< unat (block_map b) + 4096}"
      using room b by (auto simp: block_ok_def)
    ultimately show ?thesis using used_block_page [OF \<open>block_ok c\<close>] by blast
  qed
  moreover have "{unat (block_top b) ..< unat (block_top b) + unat n} \<inter> used_block b = {}"
    by (auto simp: used_block_def)
  moreover have "set (tblocks h) = insert b (set bs)" by (simp add: bs)
  ultimately show "{unat (block_top b) ..< unat (block_top b) + unat n} \<inter> used h = {}"
    unfolding used_def Int_UN_distrib by simp
qed

lemma new_block_inv:
  assumes "os_ok o'" "theap_inv o' h" "new_block o' h = (Inr b, h1)"
  shows "theap_inv o' (h1\<lparr>tblocks := tblocks h1 @ [b]\<rparr>)" "used (h1\<lparr>tblocks := tblocks h1 @ [b]\<rparr>) = used h"
    "tblocks h1 = tblocks h"
proof -
  obtain a where a: "os_mmap o' (n_maps h) = Some a" "b = \<lparr>block_map = a, block_top = a\<rparr>"
    "h1 = h\<lparr>n_maps := n_maps h + 1\<rparr>"
    using assms(3) by (auto simp: new_block_def Let_def split: option.splits if_splits)
  have "4096 dvd unat a" "unat a + 4096 < 2 ^ 32" using assms(1) a(1) by (auto simp: os_ok_def)
  moreover from this have "4 dvd unat a" by (auto elim: dvd_trans [rotated])
  moreover have "block_map c \<noteq> a" if c: "c \<in> set (tblocks h)" for c
  proof
    assume "block_map c = a"
    then obtain i where "i < n_maps h" "os_mmap o' i = Some a" using assms(2) c by (auto simp: theap_inv_def)
    moreover have "i = n_maps h" using assms(1) a(1) calculation(2) unfolding os_ok_def by blast
    ultimately show False by simp
  qed
  ultimately have b: "block_ok b" "a \<notin> block_map ` set (tblocks h)" using a(2) by (auto simp: block_ok_def)
  have old: "block_ok c \<and> (\<exists>i < n_maps h + 1. os_mmap o' i = Some (block_map c))" if "c \<in> set (tblocks h)" for c
    using assms(2) that unfolding theap_inv_def by (meson trans_less_add1)
  show "theap_inv o' (h1\<lparr>tblocks := tblocks h1 @ [b]\<rparr>)"
    using b old a assms(2) by (auto simp: theap_inv_def)
  show "used (h1\<lparr>tblocks := tblocks h1 @ [b]\<rparr>) = used h" "tblocks h1 = tblocks h"
    using a by (auto simp: used_def used_block_def)
qed

lemma allocate_Inr:
  assumes ok: "os_ok o'" and inv: "theap_inv o' h" and sz: "unat sz + 3 < 2 ^ 32"
    and al: "allocate o' sz h = (Inr p, h')"
  shows "theap_inv o' h'" "4 dvd unat p" "unat p + unat (round_up sz) < 2 ^ 32"
    "used h' = used h \<union> {unat p ..< unat p + unat (round_up sz)}"
    "{unat p ..< unat p + unat (round_up sz)} \<inter> used h = {}" "unat sz \<le> unat (round_up sz)"
proof -
  let ?n = "round_up sz"
  have n4: "4 dvd unat ?n" and le: "unat sz \<le> unat ?n" using round_up_unat [OF sz] by auto
  obtain h1 bs b where h1: "theap_inv o' h1" "used h1 = used h" "tblocks h1 = bs @ [b]"
    "\<not> remaining b < ?n" "p = block_top b" "h' = h1\<lparr>tblocks := bs @ [b\<lparr>block_top := block_top b + ?n\<rparr>]\<rparr>"
  proof (cases "tblocks h = [] \<or> remaining (last (tblocks h)) < ?n")
    case True
    then obtain b h1 where nb: "new_block o' h = (Inr b, h1)" "\<not> remaining b < ?n" "p = block_top b"
      "h' = h1\<lparr>tblocks := tblocks h1 @ [b\<lparr>block_top := block_top b + ?n\<rparr>]\<rparr>"
      using al by (auto simp: allocate_def Let_def block_allocate_def split: prod.splits sum.splits if_splits)
    show ?thesis
      by (rule that [of "h1\<lparr>tblocks := tblocks h1 @ [b]\<rparr>" "tblocks h1" b])
        (use nb new_block_inv [OF ok inv nb(1)] in simp_all)
  next
    case False
    then obtain bs b where "tblocks h = bs @ [b]" by (meson rev_exhaust)
    then show ?thesis
      using that [of h bs b] al False inv
      by (auto simp: allocate_def Let_def block_allocate_def split: if_splits)
  qed
  have "block_ok b" using h1(1,3) by (simp add: theap_inv_def)
  then show "4 dvd unat p" using h1(5) by (simp add: block_ok_def)
  show "unat sz \<le> unat ?n" by (rule le)
  note bump = bump_last [OF h1(1,3) n4 h1(4)]
  show "theap_inv o' h'" "unat p + unat ?n < 2 ^ 32" "used h' = used h \<union> {unat p ..< unat p + unat ?n}"
    "{unat p ..< unat p + unat ?n} \<inter> used h = {}"
    using bump h1(2,5,6) by auto
qed

section \<open>Writing a trampoline\<close>

lemma write_bytes_append:
  "write_bytes m a (xs @ ys) = write_bytes (write_bytes m a xs) (a + of_nat (length xs)) ys"
  by (induction xs arbitrary: m a) (simp_all add: add.assoc)

lemma write_bytes_apply:
  assumes "unat a + length bs < 2 ^ 32"
  shows "write_bytes m a bs x =
    (if unat a \<le> unat x \<and> unat x < unat a + length bs then bs ! (unat x - unat a) else m x)"
  using assms
proof (induction bs arbitrary: m a)
  case (Cons b bs)
  have u: "unat (a + 1) = unat a + 1" using Cons.prems by (simp add: unat_plus_if')
  have IH: "write_bytes (m(a := b)) (a + 1) bs x = (if unat (a + 1) \<le> unat x \<and> unat x < unat (a + 1) + length bs
      then bs ! (unat x - unat (a + 1)) else (m(a := b)) x)"
    by (rule Cons.IH) (use Cons.prems u in simp)
  have eq: "x = a \<longleftrightarrow> unat x = unat a" by (simp add: word_unat_eq_iff)
  show ?case unfolding write_bytes.simps IH u
    by (cases "unat x = unat a") (auto simp: eq nth_Cons' Suc_le_eq)
qed auto

lemma write_bytes_read:
  assumes "unat a + length bs < 2 ^ 32" "k < length bs"
  shows "write_bytes m a bs (a + of_nat k) = bs ! k"
proof -
  have "unat (a + of_nat k) = unat a + k"
    using assms by (simp add: unat_plus_if' unat_of_nat take_bit_nat_eq_self)
  then show ?thesis using assms by (simp add: write_bytes_apply)
qed

lemma u32_bytes_join:
  "ucast (ucast w :: u8) OR push_bit 8 (ucast (ucast (drop_bit 8 w) :: u8))
     OR push_bit 16 (ucast (ucast (drop_bit 16 w) :: u8)) OR push_bit 24 (ucast (ucast (drop_bit 24 w) :: u8)) = (w :: u32)"
proof (rule bit_word_eqI)
  fix n :: nat
  assume "n < LENGTH(32)"
  then consider "n < 8" | "8 \<le> n" "n < 16" | "16 \<le> n" "n < 24" | "24 \<le> n" "n < 32" by force
  then show "bit (ucast (ucast w :: u8) OR push_bit 8 (ucast (ucast (drop_bit 8 w) :: u8))
     OR push_bit 16 (ucast (ucast (drop_bit 16 w) :: u8)) OR push_bit 24 (ucast (ucast (drop_bit 24 w) :: u8)) :: u32) n
     \<longleftrightarrow> bit w n"
    by cases (auto simp: bit_simps)
qed

lemma read_u32_bytes:
  assumes "\<And>i. i < 4 \<Longrightarrow> m (a + of_nat i) = u32_bytes w ! i"
  shows "read_u32 m a = w"
  using assms [of 0] assms [of 1] assms [of 2] assms [of 3] u32_bytes_join [of w]
  by (simp add: read_u32_def u32_bytes_def or.assoc)

definition trampoline_image :: "u8 list \<Rightarrow> uintptr \<Rightarrow> uintptr \<Rightarrow> HookId \<Rightarrow> u8 list" where
  "trampoline_image tmpl push pop hid = tmpl @ u32_bytes push @ u32_bytes pop @ u32_bytes hid"

lemma trampoline_image_length: "length (trampoline_image tmpl push pop hid) = length tmpl + 12"
  by (simp add: trampoline_image_def u32_bytes_def)

lemma create_trampoline_Inr:
  assumes "create_trampoline o' tmpl push pop hid s = (Inr code, s')"
  shows "allocate o' (of_nat (length tmpl) + 12) (theap s) = (Inr code, theap s')"
    "tmem s' = write_bytes (tmem s) code (trampoline_image tmpl push pop hid)"
  using assms
  by (auto simp: create_trampoline_def Let_def trampoline_data_size_def trampoline_image_def
      write_bytes_append u32_bytes_def add.assoc split: prod.splits sum.splits)

lemma create_trampoline_spec:
  assumes "os_ok o'" "theap_inv o' (theap s)" "length tmpl + 15 < 2 ^ 32"
    and "create_trampoline o' tmpl push pop hid s = (Inr code, s')"
  shows "theap_inv o' (theap s') \<and> 4 dvd unat code
    \<and> (\<forall>k < length tmpl. tmem s' (code + of_nat k) = tmpl ! k)
    \<and> read_u32 (tmem s') (code + of_nat (length tmpl)) = push
    \<and> read_u32 (tmem s') (code + of_nat (length tmpl) + 4) = pop
    \<and> read_u32 (tmem s') (code + of_nat (length tmpl) + 8) = hid
    \<and> (\<forall>x. unat x \<in> used (theap s) \<longrightarrow> tmem s' x = tmem s x)"
proof -
  let ?img = "trampoline_image tmpl push pop hid" and ?n = "length tmpl"
  let ?sz = "of_nat ?n + 12 :: size_t"
  have sz: "unat ?sz = ?n + 12" using assms(3) by (simp add: unat_plus_if' unat_of_nat take_bit_nat_eq_self)
  then have lt: "unat ?sz + 3 < 2 ^ 32" using assms(3) by simp
  note al = allocate_Inr [OF assms(1,2) lt create_trampoline_Inr(1) [OF assms(4)]]
  note mem = create_trampoline_Inr(2) [OF assms(4)]
  have fits: "unat code + length ?img < 2 ^ 32"
    using al(3,6) sz assms(3) by (simp add: trampoline_image_length)
  have rd: "tmem s' (code + of_nat k) = ?img ! k" if "k < ?n + 12" for k
    unfolding mem using write_bytes_read [OF fits] that by (simp add: trampoline_image_length)
  have word: "read_u32 (tmem s') (code + of_nat ?n + of_nat j) = w"
    if "j \<le> 8" "\<And>i. i < 4 \<Longrightarrow> ?img ! (?n + j + i) = u32_bytes w ! i" for j w
  proof (rule read_u32_bytes)
    fix i :: nat
    assume "i < 4"
    then show "tmem s' (code + of_nat ?n + of_nat j + of_nat i) = u32_bytes w ! i"
      using rd [of "?n + j + i"] that by (simp add: add.assoc)
  qed
  have b4: "length (u32_bytes x) = 4" for x by (simp add: u32_bytes_def)
  have "read_u32 (tmem s') (code + of_nat ?n + of_nat 0) = push"
    "read_u32 (tmem s') (code + of_nat ?n + of_nat 4) = pop"
    "read_u32 (tmem s') (code + of_nat ?n + of_nat 8) = hid"
    by (rule word; simp add: trampoline_image_def nth_append b4)+
  moreover have "tmem s' x = tmem s x" if "unat x \<in> used (theap s)" for x
  proof -
    have "unat x \<notin> {unat code ..< unat code + unat (round_up ?sz)}" using that al(5) by blast
    then have "\<not> (unat code \<le> unat x \<and> unat x < unat code + length ?img)"
      using al(6) sz unfolding trampoline_image_length atLeastLessThan_iff by linarith
    then show ?thesis unfolding mem write_bytes_apply [OF fits] by (rule if_not_P)
  qed
  moreover have "\<forall>k < ?n. tmem s' (code + of_nat k) = tmpl ! k"
    using rd by (simp add: trampoline_image_def nth_append)
  ultimately show ?thesis using al(1,2) sz assms(3) by simp
qed

text \<open>A concrete system: one page at \<open>0x10000\<close>.\<close>

definition demo_os :: os where
  "demo_os = \<lparr>os_mmap = (\<lambda>n. if n = 0 then Some 0x10000 else None), os_prctl_ok = (\<lambda>_. True)\<rparr>"

definition demo_tramp :: tramp_state where
  "demo_tramp = \<lparr>theap = \<lparr>tblocks = [], n_maps = 0\<rparr>, tmem = (\<lambda>_. 0), trampolines = []\<rparr>"

lemma demo_os_ok: "os_ok demo_os"
  by (auto simp: os_ok_def demo_os_def split: if_splits)

lemma demo_theap_inv: "theap_inv demo_os (theap demo_tramp)"
  by (simp add: theap_inv_def demo_tramp_def)

section \<open>The stack and the chain of hooks\<close>

lemma find_index_nth:
  "distinct xs \<Longrightarrow> i < length xs \<Longrightarrow> find_index (xs ! i) xs = i"
  by (induction xs arbitrary: i) (auto simp: nth_Cons' split: if_splits)

text \<open>Calling the predecessor again and again, as each hook does with \<open>CALL_PREV\<close>.\<close>

fun call_chain :: "nat \<Rightarrow> uintptr \<Rightarrow> hook_stack \<Rightarrow> tramp_error + uintptr" where
  "call_chain 0 f st = Inr f"
| "call_chain (Suc k) f st =
     (case get_previous_from_hook f st of Inl e \<Rightarrow> Inl e | Inr p \<Rightarrow> call_chain k p st)"

lemma get_previous_nth:
  assumes "distinct (run_list i)" "Suc k < length (run_list i)"
  shows "get_previous_from_hook (run_list i ! Suc k) (i # st) = Inr (run_list i ! k)"
  using assms by (simp add: get_previous_from_hook_def find_index_nth)

lemma call_chain_nth:
  assumes "distinct (run_list i)" "j + k < length (run_list i)"
  shows "call_chain k (run_list i ! (j + k)) (i # st) = Inr (run_list i ! j)"
  using assms by (induction k) (simp_all add: get_previous_nth)

section \<open>Properties\<close>

text \<open>Memory of trampolines: a successful allocation is four-byte aligned, large enough, does
  not wrap around, overlaps nothing allocated before, is all that the used memory grows by,
  and keeps the allocator well formed, over pages as \<open>mmap\<close> hands them out.
\<close>

theorem trampoline_allocate_fresh:
  assumes "os_ok o'" "theap_inv o' h" "unat sz + 3 < 2 ^ 32" "allocate o' sz h = (Inr p, h')"
  shows "theap_inv o' h' \<and> 4 dvd unat p \<and> unat sz \<le> unat (round_up sz)
    \<and> unat p + unat (round_up sz) < 2 ^ 32
    \<and> {unat p ..< unat p + unat (round_up sz)} \<inter> used h = {}
    \<and> used h' = used h \<union> {unat p ..< unat p + unat (round_up sz)}"
  using allocate_Inr [OF assms] by simp

theorem trampoline_allocate_fresh_witness:
  "\<exists>h'. allocate demo_os 21 (theap demo_tramp) = (Inr 0x10000, h') \<and> used h' = {0x10000 ..< 0x10018}"
proof -
  obtain h' where h': "allocate demo_os 21 (theap demo_tramp) = (Inr 0x10000, h')"
    by (simp add: allocate_def demo_os_def demo_tramp_def new_block_def block_allocate_def remaining_def
        round_up_def tramp_consts Let_def)
  then show ?thesis
    using trampoline_allocate_fresh [OF demo_os_ok demo_theap_inv _ h']
    by (simp add: used_def demo_tramp_def round_up_def tramp_consts)
qed

text \<open>\<open>create_trampoline\<close>: the code at the returned address is the template followed by the two
  function addresses and the hook id, as little-endian words at the offsets where the
  template loads them, and no byte of an earlier trampoline changes.
\<close>

theorem create_trampoline_correct:
  assumes "os_ok o'" "theap_inv o' (theap s)" "length tmpl + 15 < 2 ^ 32"
    and "create_trampoline o' tmpl push pop hid s = (Inr code, s')"
  shows "theap_inv o' (theap s') \<and> 4 dvd unat code
    \<and> (\<forall>k < length tmpl. tmem s' (code + of_nat k) = tmpl ! k)
    \<and> read_u32 (tmem s') (code + of_nat (length tmpl)) = push
    \<and> read_u32 (tmem s') (code + of_nat (length tmpl) + 4) = pop
    \<and> read_u32 (tmem s') (code + of_nat (length tmpl) + 8) = hid
    \<and> (\<forall>x. unat x \<in> used (theap s) \<longrightarrow> tmem s' x = tmem s x)"
  using create_trampoline_spec [OF assms] .

theorem create_trampoline_correct_witness:
  "\<exists>s'. create_trampoline demo_os [1, 2, 3, 4] 0x2000 0x3000 7 demo_tramp = (Inr 0x10000, s')
     \<and> read_u32 (tmem s') 0x10004 = 0x2000 \<and> read_u32 (tmem s') 0x1000c = 7"
proof -
  obtain s' where s': "create_trampoline demo_os [1, 2, 3, 4] 0x2000 0x3000 7 demo_tramp = (Inr 0x10000, s')"
    by (simp add: create_trampoline_def allocate_def demo_os_def demo_tramp_def new_block_def
        block_allocate_def remaining_def round_up_def tramp_consts trampoline_data_size_def Let_def)
  then show ?thesis
    using create_trampoline_correct [OF demo_os_ok demo_theap_inv _ s'] by simp
qed



text \<open>C13. The ARM trampoline is transparent: the hook is entered with the argument registers and
  the stack of the original call; when it returns with the stack and the hook stack as it
  found them, the trampoline continues at the caller's return address with the registers
  \<open>r0\<close> to \<open>r3\<close> that the hook left and with stack and hook stack as they were before the call.
\<close>

theorem arm_trampoline_transparent:
  assumes "get_run_list g hook_id \<noteq> []"
    and "\<And>f a st w. hook f a st w = (fst (hook f a st w), st, snd (snd (hook f a st w)))"
    and "\<And>f a st w. astack (fst (hook f a st w)) = astack a"
  shows "\<exists>a w' pc fin. trampoline_template g hook_id after hook junk1 junk2 s st w = Inr (pc, fin, st, w')
    \<and> r0 a = r0 s \<and> r1 a = r1 s \<and> r2 a = r2 s \<and> r3 a = r3 s \<and> astack a = astack s \<and> lr a = after
    \<and> (\<exists>st1 b. hook (last (get_run_list g hook_id)) a st1 w = (b, st1, w')
        \<and> r0 fin = r0 b \<and> r1 fin = r1 b \<and> r2 fin = r2 b \<and> r3 fin = r3 b)
    \<and> pc = lr s \<and> astack fin = astack s"
proof -
  let ?f = "last (get_run_list g hook_id)"
  let ?st1 = "\<lparr>thi_id = hook_id, return_address = lr s, run_list = get_run_list g hook_id\<rparr> # st"
  let ?a = "arm_pop ((c_returns ?f junk1 (arm_push s\<lparr>r0 := hook_id, r1 := lr s\<rparr>))\<lparr>ip := ?f\<rparr>)\<lparr>lr := after\<rparr>"
  obtain b w' where h: "hook ?f ?a ?st1 w = (b, ?st1, w')" using assms(2) by metis
  have a: "r0 ?a = r0 s" "r1 ?a = r1 s" "r2 ?a = r2 s" "r3 ?a = r3 s" "astack ?a = astack s" "lr ?a = after" "ip ?a = ?f"
    by (simp_all add: arm_push_def c_returns_def)
  have b: "astack b = astack s" using assms(3) [of ?f ?a ?st1 w] h a(5) by simp
  have "trampoline_template g hook_id after hook junk1 junk2 s st w =
      Inr (lr s, arm_pop ((c_returns (lr s) junk2 (arm_push b))\<lparr>lr := lr s\<rparr>), st, w')"
    using h assms(1) b
    by (simp add: trampoline_template_def push_hook_stack_def pop_hook_stack_def Let_def c_returns_def arm_push_def)
  moreover have "r0 (arm_pop ((c_returns (lr s) junk2 (arm_push b))\<lparr>lr := lr s\<rparr>)) = r0 b"
    "r1 (arm_pop ((c_returns (lr s) junk2 (arm_push b))\<lparr>lr := lr s\<rparr>)) = r1 b"
    "r2 (arm_pop ((c_returns (lr s) junk2 (arm_push b))\<lparr>lr := lr s\<rparr>)) = r2 b"
    "r3 (arm_pop ((c_returns (lr s) junk2 (arm_push b))\<lparr>lr := lr s\<rparr>)) = r3 b"
    "astack (arm_pop ((c_returns (lr s) junk2 (arm_push b))\<lparr>lr := lr s\<rparr>)) = astack s"
    using b by (simp_all add: arm_push_def c_returns_def)
  ultimately show ?thesis using h a by blast
qed

theorem arm_trampoline_transparent_witness:
  "\<exists>w' pc fin. trampoline_template (snd (snd (add demo_hook Globals))) 1 0x7000
      (\<lambda>f a st w. (a\<lparr>r0 := r0 a + r1 a\<rparr>, st, f # w)) \<lparr>r0 = 9, r1 = 9, r2 = 9, r3 = 9, ip = 9, lr = 9, astack = []\<rparr>
      \<lparr>r0 = 9, r1 = 9, r2 = 9, r3 = 9, ip = 9, lr = 9, astack = []\<rparr>
      \<lparr>r0 = 1, r1 = 2, r2 = 3, r3 = 4, ip = 0, lr = 0x6000, astack = [5]\<rparr> [] [] = Inr (pc, fin, [], w')
     \<and> pc = 0x6000 \<and> r0 fin = 3 \<and> w' = [0x2000]"
proof -
  have rl: "get_run_list (snd (snd (add demo_hook Globals))) 1 = [0x1000, 0x2000]"
    by (simp add: add_def demo_hook_def Globals_def allocate_id_def emplace_def Let_def get_run_list_def)
  show ?thesis
    using arm_trampoline_transparent [of "snd (snd (add demo_hook Globals))" 1 "\<lambda>f a st w. (a\<lparr>r0 := r0 a + r1 a\<rparr>, st, f # w)"
        "0x7000" "\<lparr>r0 = 9, r1 = 9, r2 = 9, r3 = 9, ip = 9, lr = 9, astack = []\<rparr>"
        "\<lparr>r0 = 9, r1 = 9, r2 = 9, r3 = 9, ip = 9, lr = 9, astack = []\<rparr>"
        "\<lparr>r0 = 1, r1 = 2, r2 = 3, r3 = 4, ip = 0, lr = 0x6000, astack = [5]\<rparr>" "[]" "[]"] rl
    by auto
qed

end
