(* ===== verification/ElfSharedLibData.thy ===== *)
theory ElfSharedLibData
  imports Trampoline
begin

text \<open>
  The view of a loaded ELF object (\<open>elfSharedLibData.cpp\<close>, 32-bit): parsing the dynamic
  section, the two symbol hash tables, the fallback search and the relocations that point to
  a symbol. Memory is a function from addresses to bytes; tables are addresses into it, and
  address arithmetic wraps as on the machine. A C string is the list of its bytes before the
  terminating zero; plain \<open>char\<close> is unsigned on this ABI.
\<close>

section \<open>C strings and words in memory\<close>

type_synonym cstr = "u8 list"

text \<open>\<open>strcmp(p, s) == 0\<close> for a string in memory and a given one.\<close>

fun str_eq :: "bytes_mem \<Rightarrow> uintptr \<Rightarrow> cstr \<Rightarrow> bool" where
  "str_eq m a [] = (m a = 0)"
| "str_eq m a (c # cs) = (m a = c \<and> c \<noteq> 0 \<and> str_eq m (a + 1) cs)"

text \<open>Element \<open>i\<close> of an array of 32-bit words.\<close>

definition u32_at :: "bytes_mem \<Rightarrow> uintptr \<Rightarrow> u32 \<Rightarrow> u32" where
  "u32_at m base i = read_u32 m (base + 4 * i)"

section \<open>Data\<close>

record elfHash =
  eh_numbuckets :: u32
  eh_numchains :: u32
  eh_buckets :: uintptr
  eh_chains :: uintptr

record gnuHash =
  gh_numbuckets :: u32
  gh_symoffset :: u32
  gh_bloom_size :: u32
  gh_bloom_shift :: u32
  gh_bloom_filter :: uintptr
  gh_buckets :: uintptr
  gh_chains :: uintptr

record elfSharedLibData =
  loadBias :: uintptr
  pltRelocations :: uintptr
  pltRelocationsLen :: size_t
  relocations :: uintptr
  relocationsLen :: size_t
  dynSymbolsTable :: uintptr
  dynStrsTable :: uintptr
  libName :: cstr
  elfHash_of :: elfHash
  gnuHash_of :: gnuHash

text \<open>What the sources use of \<open>dl_phdr_info\<close> and of bionic's old \<open>soinfo\<close>.\<close>

record dl_phdr_info =
  dlpi_addr :: uintptr
  dlpi_name :: "cstr option"
  dlpi_phdr :: uintptr
  dlpi_phnum :: nat

record soinfo =
  si_name :: cstr
  si_base :: uintptr
  si_strtab :: uintptr
  si_symtab :: uintptr
  si_nbucket :: u32
  si_nchain :: u32
  si_bucket :: uintptr
  si_chain :: uintptr
  si_plt_rel :: uintptr
  si_plt_rel_count :: size_t
  si_rel :: uintptr
  si_rel_count :: size_t
  si_load_bias :: uintptr
  si_l_name :: "cstr option"

datatype input_parse_error = Input_parse_error string

abbreviation (input) "PT_DYNAMIC \<equiv> (2::u32)"
abbreviation (input) "DT_NULL \<equiv> (0::u32)"
abbreviation (input) "DT_PLTRELSZ \<equiv> (2::u32)"
abbreviation (input) "DT_HASH \<equiv> (4::u32)"
abbreviation (input) "DT_STRTAB \<equiv> (5::u32)"
abbreviation (input) "DT_SYMTAB \<equiv> (6::u32)"
abbreviation (input) "DT_RELA \<equiv> (7::u32)"
abbreviation (input) "DT_RELASZ \<equiv> (8::u32)"
abbreviation (input) "DT_REL \<equiv> (17::u32)"
abbreviation (input) "DT_RELSZ \<equiv> (18::u32)"
abbreviation (input) "DT_JMPREL \<equiv> (23::u32)"
abbreviation (input) "DT_GNU_HASH \<equiv> (0x6ffffef5::u32)"

definition PLT_RELOCATION_TYPE :: u32 where "PLT_RELOCATION_TYPE = 22"
definition kBloomMaskBits :: u32 where "kBloomMaskBits = 4 * 8"

definition ELF_RELOC_TYPE :: "u32 \<Rightarrow> u32" where "ELF_RELOC_TYPE i = i AND 0xff"
definition ELF_RELOC_SYM :: "u32 \<Rightarrow> u32" where "ELF_RELOC_SYM i = drop_bit 8 i"

section \<open>Hash functions\<close>

fun elfhash_loop :: "u32 \<Rightarrow> cstr \<Rightarrow> u32" where
  "elfhash_loop h [] = h"
| "elfhash_loop h (c # cs) =
     (let h = push_bit 4 h + ucast c;
          g = h AND 0xf0000000;
          h = h XOR g;
          h = h XOR drop_bit 24 g
      in elfhash_loop h cs)"

definition elfhash :: "cstr \<Rightarrow> u32" where "elfhash name = elfhash_loop 0 name"

fun gnuhash_loop :: "u32 \<Rightarrow> cstr \<Rightarrow> u32" where
  "gnuhash_loop h [] = h"
| "gnuhash_loop h (c # cs) = gnuhash_loop (h + (push_bit 5 h + ucast c)) cs"

definition gnuhash :: "cstr \<Rightarrow> u32" where "gnuhash name = gnuhash_loop 5381 name"

section \<open>Construction\<close>

definition empty_elf :: elfSharedLibData where
  "empty_elf = \<lparr>loadBias = 0, pltRelocations = 0, pltRelocationsLen = 0, relocations = 0,
     relocationsLen = 0, dynSymbolsTable = 0, dynStrsTable = 0, libName = [],
     elfHash_of = \<lparr>eh_numbuckets = 0, eh_numchains = 0, eh_buckets = 0, eh_chains = 0\<rparr>,
     gnuHash_of = \<lparr>gh_numbuckets = 0, gh_symoffset = 0, gh_bloom_size = 0, gh_bloom_shift = 0,
       gh_bloom_filter = 0, gh_buckets = 0, gh_chains = 0\<rparr>\<rparr>"

definition is_complete :: "elfSharedLibData \<Rightarrow> bool" where
  "is_complete d \<longleftrightarrow> pltRelocationsLen d \<noteq> 0 \<and> pltRelocations d \<noteq> 0 \<and>
     dynSymbolsTable d \<noteq> 0 \<and> dynStrsTable d \<noteq> 0 \<and>
     (eh_numbuckets (elfHash_of d) > 0 \<or> gh_numbuckets (gnuHash_of d) > 0)"

text \<open>The two hash headers at address \<open>p\<close>.\<close>

definition read_elf_hash :: "bytes_mem \<Rightarrow> uintptr \<Rightarrow> elfHash" where
  "read_elf_hash m p =
     (let nb = u32_at m p 0
      in \<lparr>eh_numbuckets = nb, eh_numchains = u32_at m p 1, eh_buckets = p + 8, eh_chains = p + 8 + 4 * nb\<rparr>)"

definition read_gnu_hash :: "bytes_mem \<Rightarrow> uintptr \<Rightarrow> gnuHash" where
  "read_gnu_hash m p =
     (let nb = u32_at m p 0; so = u32_at m p 1; bs = u32_at m p 2; bf = p + 16; bk = bf + 4 * bs
      in \<lparr>gh_numbuckets = nb, gh_symoffset = so, gh_bloom_size = bs, gh_bloom_shift = u32_at m p 3,
          gh_bloom_filter = bf, gh_buckets = bk, gh_chains = bk + 4 * (nb - so)\<rparr>)"

text \<open>One turn of the \<open>switch\<close> over the tag of a dynamic entry.\<close>

definition dyn_entry ::
  "bytes_mem \<Rightarrow> elfSharedLibData \<Rightarrow> u32 \<Rightarrow> u32 \<Rightarrow> input_parse_error + elfSharedLibData" where
  "dyn_entry m d tag v =
     (if tag = DT_PLTRELSZ then Inr (d\<lparr>pltRelocationsLen := v div 8\<rparr>)
      else if tag = DT_JMPREL then Inr (d\<lparr>pltRelocations := loadBias d + v\<rparr>)
      else if tag = DT_RELSZ \<or> tag = DT_RELASZ then Inr (d\<lparr>relocationsLen := v div 8\<rparr>)
      else if tag = DT_REL \<or> tag = DT_RELA then Inr (d\<lparr>relocations := loadBias d + v\<rparr>)
      else if tag = DT_SYMTAB then Inr (d\<lparr>dynSymbolsTable := loadBias d + v\<rparr>)
      else if tag = DT_STRTAB then Inr (d\<lparr>dynStrsTable := loadBias d + v\<rparr>)
      else if tag = DT_HASH then Inr (d\<lparr>elfHash_of := read_elf_hash m (loadBias d + v)\<rparr>)
      else if tag = DT_GNU_HASH then
        (let gh = read_gnu_hash m (loadBias d + v); bs = gh_bloom_size gh
         in if (bs - 1) AND bs \<noteq> 0 then Inl (Input_parse_error ''bloom_size_ not power of 2'')
            else Inr (d\<lparr>gnuHash_of := gh\<lparr>gh_bloom_size := bs - 1\<rparr>\<rparr>))
      else Inr d)"

text \<open>The loop over the dynamic table; \<open>None\<close> when no entry ends it.\<close>

partial_function (option) dyn_loop ::
  "bytes_mem \<Rightarrow> elfSharedLibData \<Rightarrow> uintptr \<Rightarrow> (input_parse_error + elfSharedLibData) option" where
  "dyn_loop m d entry =
     (if entry = 0 \<or> read_u32 m entry = DT_NULL then Some (Inr d)
      else case dyn_entry m d (read_u32 m entry) (read_u32 m (entry + 4)) of
             Inl e \<Rightarrow> Some (Inl e)
           | Inr d' \<Rightarrow> if is_complete d' then Some (Inr d') else dyn_loop m d' (entry + 8))"

text \<open>The loop over the program headers: the first \<open>PT_DYNAMIC\<close>, 0 for none.\<close>

definition find_dynamic_table :: "bytes_mem \<Rightarrow> dl_phdr_info \<Rightarrow> uintptr" where
  "find_dynamic_table m i =
     (case find (\<lambda>k. read_u32 m (dlpi_phdr i + 32 * of_nat k) = PT_DYNAMIC) [0..<dlpi_phnum i] of
        None \<Rightarrow> 0
      | Some k \<Rightarrow> dlpi_addr i + read_u32 m (dlpi_phdr i + 32 * of_nat k + 8))"

definition elfSharedLibData_dl ::
  "bytes_mem \<Rightarrow> dl_phdr_info \<Rightarrow> (input_parse_error + elfSharedLibData) option" where
  "elfSharedLibData_dl m i =
     (let d = empty_elf\<lparr>loadBias := dlpi_addr i, libName := (case dlpi_name i of None \<Rightarrow> [] | Some s \<Rightarrow> s)\<rparr>;
          dt = find_dynamic_table m i
      in if dt = 0 then Some (Inl (Input_parse_error ''dynamic_table == null''))
         else case dyn_loop m d dt of
                None \<Rightarrow> None
              | Some (Inl e) \<Rightarrow> Some (Inl e)
              | Some (Inr d') \<Rightarrow> if is_complete d' then Some (Inr d')
                                else Some (Inl (Input_parse_error ''not all info found'')))"

definition elfSharedLibData_si :: "int \<Rightarrow> soinfo \<Rightarrow> elfSharedLibData" where
  "elfSharedLibData_si sdk si =
     empty_elf\<lparr>pltRelocationsLen := si_plt_rel_count si, pltRelocations := si_plt_rel si,
       relocationsLen := si_rel_count si, relocations := si_rel si,
       dynSymbolsTable := si_symtab si, dynStrsTable := si_strtab si,
       elfHash_of := \<lparr>eh_numbuckets = si_nbucket si, eh_numchains = si_nchain si,
                      eh_buckets = si_bucket si, eh_chains = si_chain si\<rparr>,
       loadBias := (if sdk \<ge> 17 then si_load_bias si else si_base si), libName := si_name si\<rparr>"

section \<open>Symbols\<close>

definition sym_addr :: "elfSharedLibData \<Rightarrow> u32 \<Rightarrow> uintptr" where
  "sym_addr d n = dynSymbolsTable d + 16 * n"

definition st_name :: "bytes_mem \<Rightarrow> uintptr \<Rightarrow> u32" where "st_name m s = read_u32 m s"
definition st_value :: "bytes_mem \<Rightarrow> uintptr \<Rightarrow> u32" where "st_value m s = read_u32 m (s + 4)"

definition sym_named :: "bytes_mem \<Rightarrow> elfSharedLibData \<Rightarrow> uintptr \<Rightarrow> cstr \<Rightarrow> bool" where
  "sym_named m d s name = str_eq m (dynStrsTable d + st_name m s) name"

definition getLoadedAddress :: "bytes_mem \<Rightarrow> elfSharedLibData \<Rightarrow> uintptr \<Rightarrow> uintptr" where
  "getLoadedAddress m d s = loadBias d + st_value m s"

definition usesGnuHashTable :: "elfSharedLibData \<Rightarrow> bool" where
  "usesGnuHashTable d \<longleftrightarrow> gh_numbuckets (gnuHash_of d) > 0"

text \<open>The searches return the address of the symbol or 0; \<open>None\<close> when a chain has no end.\<close>

partial_function (option) elf_chain_loop ::
  "bytes_mem \<Rightarrow> elfSharedLibData \<Rightarrow> cstr \<Rightarrow> u32 \<Rightarrow> uintptr option" where
  "elf_chain_loop m d name n =
     (if n = 0 then Some 0
      else if sym_named m d (sym_addr d n) name then Some (sym_addr d n)
      else elf_chain_loop m d name (u32_at m (eh_chains (elfHash_of d)) n))"

definition elf_find_symbol_by_name :: "bytes_mem \<Rightarrow> elfSharedLibData \<Rightarrow> cstr \<Rightarrow> uintptr option" where
  "elf_find_symbol_by_name m d name =
     (let hash = elfhash name
      in elf_chain_loop m d name
           (u32_at m (eh_buckets (elfHash_of d)) (hash mod eh_numbuckets (elfHash_of d))))"

partial_function (option) gnu_chain_loop ::
  "bytes_mem \<Rightarrow> elfSharedLibData \<Rightarrow> cstr \<Rightarrow> u32 \<Rightarrow> u32 \<Rightarrow> uintptr option" where
  "gnu_chain_loop m d name hash n =
     (if drop_bit 1 (u32_at m (gh_chains (gnuHash_of d)) n XOR hash) = 0 \<and> sym_named m d (sym_addr d n) name
      then Some (sym_addr d n)
      else if u32_at m (gh_chains (gnuHash_of d)) n AND 1 = 0 then gnu_chain_loop m d name hash (n + 1)
      else Some 0)"

definition gnu_find_symbol_by_name :: "bytes_mem \<Rightarrow> elfSharedLibData \<Rightarrow> cstr \<Rightarrow> uintptr option" where
  "gnu_find_symbol_by_name m d name =
     (let gh = gnuHash_of d;
          hash = gnuhash name;
          h2 = drop_bit (unat (gh_bloom_shift gh)) hash;
          word_num = (hash div kBloomMaskBits) AND gh_bloom_size gh;
          bloom_word = u32_at m (gh_bloom_filter gh) word_num
      in if (1 AND drop_bit (unat (hash mod kBloomMaskBits)) bloom_word
               AND drop_bit (unat (h2 mod kBloomMaskBits)) bloom_word) = 0 then Some 0
         else (let n = u32_at m (gh_buckets gh) (hash mod gh_numbuckets gh)
               in if n = 0 then Some 0 else gnu_chain_loop m d name hash n))"

text \<open>Entry \<open>i\<close> of a relocation table.\<close>

definition r_offset :: "bytes_mem \<Rightarrow> uintptr \<Rightarrow> nat \<Rightarrow> u32" where
  "r_offset m tab i = read_u32 m (tab + 8 * of_nat i)"

definition r_info :: "bytes_mem \<Rightarrow> uintptr \<Rightarrow> nat \<Rightarrow> u32" where
  "r_info m tab i = read_u32 m (tab + 8 * of_nat i + 4)"

definition reloc_scan :: "bytes_mem \<Rightarrow> elfSharedLibData \<Rightarrow> cstr \<Rightarrow> uintptr \<Rightarrow> size_t \<Rightarrow> uintptr" where
  "reloc_scan m d name tab len =
     (case find (\<lambda>i. sym_named m d (sym_addr d (ELF_RELOC_SYM (r_info m tab i))) name) [0..<unat len] of
        None \<Rightarrow> 0
      | Some i \<Rightarrow> sym_addr d (ELF_RELOC_SYM (r_info m tab i)))"

definition find_symbol_by_name :: "bytes_mem \<Rightarrow> elfSharedLibData \<Rightarrow> cstr \<Rightarrow> uintptr option" where
  "find_symbol_by_name m d name =
     (case (if usesGnuHashTable d then gnu_find_symbol_by_name m d name
            else elf_find_symbol_by_name m d name) of
        None \<Rightarrow> None
      | Some s0 \<Rightarrow>
          (let s1 = (if s0 = 0 then reloc_scan m d name (pltRelocations d) (pltRelocationsLen d) else s0)
           in Some (if s1 = 0 then reloc_scan m d name (relocations d) (relocationsLen d) else s1)))"

section \<open>Relocations\<close>

text \<open>\<open>word\<close> reads the relocated slots.\<close>

definition elf_get_relocations :: "bytes_mem \<Rightarrow> (uintptr \<Rightarrow> uintptr) \<Rightarrow> elfSharedLibData \<Rightarrow> uintptr \<Rightarrow> uintptr list" where
  "elf_get_relocations m word d target =
     filter (\<lambda>a. word a = target)
       (map (\<lambda>i. loadBias d + r_offset m (relocations d) i) [0..<unat (relocationsLen d)])"

definition get_plt_relocations :: "bytes_mem \<Rightarrow> elfSharedLibData \<Rightarrow> uintptr \<Rightarrow> uintptr list" where
  "get_plt_relocations m d elf_sym =
     map (\<lambda>i. loadBias d + r_offset m (pltRelocations d) i)
       (filter (\<lambda>i. ELF_RELOC_TYPE (r_info m (pltRelocations d) i) = PLT_RELOCATION_TYPE
                  \<and> sym_addr d (ELF_RELOC_SYM (r_info m (pltRelocations d) i)) = elf_sym)
          [0..<unat (pltRelocationsLen d)])"

section \<open>Validity\<close>

record Dl_info =
  dli_fname :: cstr
  dli_sname :: "cstr option"
  dli_saddr :: uintptr

definition in_lib :: "(uintptr \<Rightarrow> Dl_info option) \<Rightarrow> elfSharedLibData \<Rightarrow> uintptr \<Rightarrow> bool" where
  "in_lib dladdr d a \<longleftrightarrow> a \<noteq> 0 \<and> (case dladdr a of None \<Rightarrow> False | Some i \<Rightarrow> dli_fname i = libName d)"

text \<open>\<open>operator bool\<close>: the tables still lie in the library they were read from.\<close>

definition elf_valid :: "(uintptr \<Rightarrow> Dl_info option) \<Rightarrow> elfSharedLibData \<Rightarrow> bool" where
  "elf_valid dladdr d =
     (if \<not> is_complete d then False
      else if \<not> in_lib dladdr d (pltRelocations d) then False
      else if \<not> in_lib dladdr d (dynSymbolsTable d) then False
      else if \<not> in_lib dladdr d (dynStrsTable d) then False
      else True)"

section \<open>Bit tricks\<close>

lemma xor_shift_eq: "drop_bit 1 (c XOR h) = 0 \<longleftrightarrow> c OR 1 = h OR (1::u32)"
proof
  assume z: "drop_bit 1 (c XOR h) = 0"
  have "bit c n \<longleftrightarrow> bit h n" if "0 < n" for n
  proof -
    have "bit (drop_bit 1 (c XOR h)) (n - 1) \<longleftrightarrow> bit (c XOR h) n" using that by (simp add: bit_simps)
    then show ?thesis unfolding z by (simp add: bit_xor_iff)
  qed
  then show "c OR 1 = h OR 1" by (intro bit_word_eqI) (auto simp: bit_or_iff bit_1_iff)
next
  assume "c OR 1 = h OR 1"
  then have "bit (c OR 1) (Suc n) \<longleftrightarrow> bit (h OR 1) (Suc n)" for n by simp
  then show "drop_bit 1 (c XOR h) = 0" by (intro bit_word_eqI) (auto simp: bit_simps bit_1_iff)
qed

lemma drop_bit_and_1: "1 AND drop_bit i w AND drop_bit j w = (0::u32) \<longleftrightarrow> \<not> (bit w i \<and> bit w j)"
proof -
  have "1 AND drop_bit i w AND drop_bit j w = (if bit w i \<and> bit w j then 1 else 0)"
    by (rule bit_word_eqI) (auto simp: bit_simps bit_1_iff)
  then show ?thesis by simp
qed

lemma bit_top:
  fixes w :: "'a::len word"
  assumes "2 ^ k \<le> unat w" "unat w < 2 ^ Suc k"
  shows "bit w k"
proof -
  have "unat w div 2 ^ k = 1" using assms by (simp add: div_nat_eqI)
  then have "bit (unat w) k" by (simp add: bit_iff_odd)
  then show ?thesis by (simp add: bit_unsigned_iff)
qed

lemma power_of_2_test:
  fixes b :: "'a::len word"
  assumes "b \<noteq> 0" "(b - 1) AND b = 0"
  shows "\<exists>k. unat b = 2 ^ k"
proof -
  have pos: "0 < unat b" using assms(1) by (simp add: unat_gt_0)
  then obtain k where k: "2 ^ k \<le> unat b" "unat b < 2 ^ Suc k"
    using ex_power_ivl1 [of 2 "unat b"] by auto
  have u: "unat (b - 1) = unat b - 1" using pos assms(1) by (simp add: unat_minus_one)
  have "\<not> 2 ^ k \<le> unat (b - 1)"
  proof
    assume "2 ^ k \<le> unat (b - 1)"
    then have "bit (b - 1) k" using k u by (intro bit_top) auto
    moreover have "bit b k" using k by (rule bit_top)
    ultimately have "bit ((b - 1) AND b) k" by (simp add: bit_and_iff)
    then show False using assms(2) by simp
  qed
  then have "unat b = 2 ^ k" using k u by linarith
  then show ?thesis by blast
qed

lemma and_minus_one_mod:
  fixes b :: u32
  assumes "b \<noteq> 0" "(b - 1) AND b = 0"
  shows "x AND (b - 1) = x mod b"
proof -
  obtain k where k: "unat b = 2 ^ k" using power_of_2_test [OF assms] by blast
  have "b = of_nat (unat b)" by simp
  also have "\<dots> = 2 ^ k" by (simp add: k)
  finally have "b = 2 ^ k" .
  then have "b - 1 = mask k" by (simp add: mask_eq_exp_minus_1)
  then have "unat (x AND (b - 1)) = unat (x mod b)" using k by (simp add: unat_and_mask unat_mod)
  then show ?thesis by (simp add: word_unat_eq_iff)
qed

section \<open>The hash chains as lists\<close>

definition first_named :: "elfSharedLibData \<Rightarrow> u32 option \<Rightarrow> uintptr" where
  "first_named d r = (case r of None \<Rightarrow> 0 | Some k \<Rightarrow> sym_addr d k)"

fun echain :: "bytes_mem \<Rightarrow> elfSharedLibData \<Rightarrow> u32 \<Rightarrow> u32 list \<Rightarrow> bool" where
  "echain m d n [] = (n = 0)"
| "echain m d n (x # xs) = (n = x \<and> x \<noteq> 0 \<and> echain m d (u32_at m (eh_chains (elfHash_of d)) x) xs)"

lemma elf_chain_loop_list:
  "echain m d n ns \<Longrightarrow>
     elf_chain_loop m d name n = Some (first_named d (find (\<lambda>k. sym_named m d (sym_addr d k) name) ns))"
  by (induction ns arbitrary: n) (subst elf_chain_loop.simps, simp add: first_named_def)+

fun gchain :: "bytes_mem \<Rightarrow> elfSharedLibData \<Rightarrow> u32 \<Rightarrow> u32 list \<Rightarrow> bool" where
  "gchain m d n [] = False"
| "gchain m d n (x # xs) = (n = x \<and>
     (if xs = [] then u32_at m (gh_chains (gnuHash_of d)) x AND 1 \<noteq> 0
      else u32_at m (gh_chains (gnuHash_of d)) x AND 1 = 0 \<and> gchain m d (x + 1) xs))"

text \<open>The comparison of a standard implementation: hashes equal up to the end marker.\<close>

definition gnu_match :: "bytes_mem \<Rightarrow> elfSharedLibData \<Rightarrow> cstr \<Rightarrow> u32 \<Rightarrow> bool" where
  "gnu_match m d name k \<longleftrightarrow> u32_at m (gh_chains (gnuHash_of d)) k OR 1 = gnuhash name OR 1
     \<and> sym_named m d (sym_addr d k) name"

lemma gnu_chain_loop_list:
  "gchain m d n ns \<Longrightarrow>
     gnu_chain_loop m d name (gnuhash name) n = Some (first_named d (find (gnu_match m d name) ns))"
proof (induction ns arbitrary: n)
  case (Cons x xs)
  have gm: "drop_bit 1 (u32_at m (gh_chains (gnuHash_of d)) x XOR gnuhash name) = 0 \<and> sym_named m d (sym_addr d x) name
      \<longleftrightarrow> gnu_match m d name x"
    unfolding gnu_match_def xor_shift_eq ..
  have "gnu_chain_loop m d name (gnuhash name) x = (if gnu_match m d name x then Some (sym_addr d x)
      else if u32_at m (gh_chains (gnuHash_of d)) x AND 1 = 0 then gnu_chain_loop m d name (gnuhash name) (x + 1)
      else Some 0)"
    by (subst gnu_chain_loop.simps) (simp only: gm)
  then show ?case using Cons by (auto simp: first_named_def split: if_splits)
qed simp

text \<open>The Bloom filter test and the bucket of a standard implementation, with \<open>bs\<close> words.\<close>

definition bloom_says_yes :: "bytes_mem \<Rightarrow> elfSharedLibData \<Rightarrow> u32 \<Rightarrow> cstr \<Rightarrow> bool" where
  "bloom_says_yes m d bs name \<longleftrightarrow>
     (let h = gnuhash name; w = u32_at m (gh_bloom_filter (gnuHash_of d)) ((h div 32) mod bs)
      in bit w (unat (h mod 32)) \<and> bit w (unat (drop_bit (unat (gh_bloom_shift (gnuHash_of d))) h mod 32)))"

definition gnu_bucket :: "bytes_mem \<Rightarrow> elfSharedLibData \<Rightarrow> cstr \<Rightarrow> u32" where
  "gnu_bucket m d name = u32_at m (gh_buckets (gnuHash_of d)) (gnuhash name mod gh_numbuckets (gnuHash_of d))"

lemma gnu_find_eq:
  assumes "gh_bloom_size (gnuHash_of d) = bs - 1" "bs \<noteq> 0" "(bs - 1) AND bs = 0"
    and "gnu_bucket m d name \<noteq> 0 \<Longrightarrow> gchain m d (gnu_bucket m d name) ns"
  shows "gnu_find_symbol_by_name m d name =
    Some (if bloom_says_yes m d bs name \<and> gnu_bucket m d name \<noteq> 0
          then first_named d (find (gnu_match m d name) ns) else 0)"
  using assms(4) gnu_chain_loop_list [of m d "gnu_bucket m d name" ns name]
  by (simp add: gnu_find_symbol_by_name_def Let_def bloom_says_yes_def assms(1)
      and_minus_one_mod [OF assms(2,3)] drop_bit_and_1 kBloomMaskBits_def gnu_bucket_def)

section \<open>Soundness of the searches\<close>

lemma elf_chain_loop_sound:
  "elf_chain_loop m d name n = Some s \<Longrightarrow> s \<noteq> 0 \<longrightarrow> sym_named m d s name"
proof (rule elf_chain_loop.raw_induct [where P = "\<lambda>m d name n s. s \<noteq> 0 \<longrightarrow> sym_named m d s name"])
  fix f m d name n s
  assume "\<And>m d name n s. f m d name n = Some s \<Longrightarrow> s \<noteq> 0 \<longrightarrow> sym_named m d s name"
    and "(if n = 0 then Some 0 else if sym_named m d (sym_addr d n) name then Some (sym_addr d n)
      else f m d name (u32_at m (eh_chains (elfHash_of d)) n)) = Some s"
  then show "s \<noteq> 0 \<longrightarrow> sym_named m d s name" by (auto split: if_splits)
qed

lemma gnu_chain_loop_sound:
  "gnu_chain_loop m d name h n = Some s \<Longrightarrow> s \<noteq> 0 \<longrightarrow> sym_named m d s name"
proof (rule gnu_chain_loop.raw_induct [where P = "\<lambda>m d name h n s. s \<noteq> 0 \<longrightarrow> sym_named m d s name"])
  fix f m d name h n s
  assume "\<And>m d name h n s. f m d name h n = Some s \<Longrightarrow> s \<noteq> 0 \<longrightarrow> sym_named m d s name"
    and "(if drop_bit 1 (u32_at m (gh_chains (gnuHash_of d)) n XOR h) = 0 \<and> sym_named m d (sym_addr d n) name
      then Some (sym_addr d n)
      else if u32_at m (gh_chains (gnuHash_of d)) n AND 1 = 0 then f m d name h (n + 1) else Some 0) = Some s"
  then show "s \<noteq> 0 \<longrightarrow> sym_named m d s name" by (auto split: if_splits)
qed

lemma reloc_scan_sound: "reloc_scan m d name tab len = s \<Longrightarrow> s \<noteq> 0 \<Longrightarrow> sym_named m d s name"
  by (auto simp: reloc_scan_def find_Some_iff split: option.splits)

lemma find_symbol_sound:
  assumes "find_symbol_by_name m d name = Some s" "s \<noteq> 0"
  shows "sym_named m d s name"
proof -
  obtain s0 where s0: "(if usesGnuHashTable d then gnu_find_symbol_by_name m d name
      else elf_find_symbol_by_name m d name) = Some s0"
    "s0 \<noteq> 0 \<and> s = s0 \<or> s = reloc_scan m d name (pltRelocations d) (pltRelocationsLen d)
      \<or> s = reloc_scan m d name (relocations d) (relocationsLen d)"
    using assms(1) by (auto simp: find_symbol_by_name_def Let_def split: option.splits if_splits)
  have "s0 \<noteq> 0 \<Longrightarrow> sym_named m d s0 name"
    using s0(1) elf_chain_loop_sound gnu_chain_loop_sound
    by (auto simp: gnu_find_symbol_by_name_def elf_find_symbol_by_name_def Let_def split: if_splits)
  then show ?thesis using s0(2) assms(2) reloc_scan_sound by metis
qed

section \<open>The dynamic section\<close>

text \<open>What parsing keeps: where the object is loaded, its name, and a Bloom mask that comes from
  a power of two.\<close>

definition parse_inv :: "uintptr \<Rightarrow> cstr \<Rightarrow> elfSharedLibData \<Rightarrow> bool" where
  "parse_inv bias name d \<longleftrightarrow> loadBias d = bias \<and> libName d = name \<and>
     (gh_numbuckets (gnuHash_of d) > 0 \<longrightarrow>
        (\<exists>bs. gh_bloom_size (gnuHash_of d) = bs - 1 \<and> (bs - 1) AND bs = 0))"

lemma dyn_entry_inv:
  assumes "dyn_entry m d tag v = Inr d'" "parse_inv bias name d"
  shows "parse_inv bias name d'"
  using assms by (auto simp: dyn_entry_def Let_def parse_inv_def split: if_splits)

lemma dyn_loop_inv:
  "dyn_loop m d entry = Some r \<Longrightarrow> parse_inv bias name d \<longrightarrow> (\<forall>d'. r = Inr d' \<longrightarrow> parse_inv bias name d')"
proof (rule dyn_loop.raw_induct [where P = "\<lambda>m d entry r. parse_inv bias name d \<longrightarrow> (\<forall>d'. r = Inr d' \<longrightarrow> parse_inv bias name d')"])
  fix f m d entry r
  assume IH: "\<And>m d entry r. f m d entry = Some r \<Longrightarrow> parse_inv bias name d \<longrightarrow> (\<forall>d'. r = Inr d' \<longrightarrow> parse_inv bias name d')"
    and eq: "(if entry = 0 \<or> read_u32 m entry = DT_NULL then Some (Inr d)
      else case dyn_entry m d (read_u32 m entry) (read_u32 m (entry + 4)) of
             Inl e \<Rightarrow> Some (Inl e)
           | Inr d' \<Rightarrow> if is_complete d' then Some (Inr d') else f m d' (entry + 8)) = Some r"
  show "parse_inv bias name d \<longrightarrow> (\<forall>d'. r = Inr d' \<longrightarrow> parse_inv bias name d')"
  proof (cases "entry = 0 \<or> read_u32 m entry = DT_NULL")
    case False
    show ?thesis
    proof (cases "dyn_entry m d (read_u32 m entry) (read_u32 m (entry + 4))")
      case (Inr d1)
      then have "parse_inv bias name d \<Longrightarrow> parse_inv bias name d1" by (rule dyn_entry_inv)
      moreover have "r = Inr d1 \<or> f m d1 (entry + 8) = Some r"
        using eq False Inr by (auto split: if_splits)
      ultimately show ?thesis using IH [of m d1 "entry + 8" r] by auto
    qed (use eq False in auto)
  qed (use eq in auto)
qed

lemma dyn_loop_returns:
  assumes "read_u32 m (entry + 8 * of_nat k) = DT_NULL"
  shows "\<exists>r. dyn_loop m d entry = Some r"
  using assms
proof (induction k arbitrary: entry d)
  case 0
  then show ?case by (subst dyn_loop.simps) simp
next
  case (Suc k)
  then have "\<exists>r. dyn_loop m d' (entry + 8) = Some r" for d' by (simp add: algebra_simps)
  then show ?case by (subst dyn_loop.simps) (auto split: sum.splits)
qed

section \<open>A concrete object\<close>

text \<open>One exported symbol, \<open>a\<close>, with index 1 and a jump slot for it.\<close>

definition demo_mem :: bytes_mem where
  "demo_mem = write_bytes (write_bytes (write_bytes (write_bytes (write_bytes (\<lambda>_. 0)
     0x100 [0x61, 0]) 0x300 [0xff, 0xff, 0xff, 0xff]) 0x310 [1, 0, 0, 0]) 0x324 [7, 0xb6, 2, 0])
     0x400 [0, 0x10, 0, 0, 22, 1, 0, 0]"

definition demo_elf :: elfSharedLibData where
  "demo_elf = empty_elf\<lparr>loadBias := 0x10000, pltRelocations := 0x400, pltRelocationsLen := 1,
     dynSymbolsTable := 0x200, dynStrsTable := 0x100, gnuHash_of := \<lparr>gh_numbuckets = 1, gh_symoffset = 1,
       gh_bloom_size = 0, gh_bloom_shift = 5, gh_bloom_filter = 0x300, gh_buckets = 0x310, gh_chains = 0x320\<rparr>\<rparr>"

lemmas demo_elf_defs = demo_mem_def demo_elf_def empty_elf_def read_u32_def u32_at_def

lemma demo_gnu:
  "gnu_bucket demo_mem demo_elf [0x61] = 1" "gchain demo_mem demo_elf 1 [1]"
  "bloom_says_yes demo_mem demo_elf 1 [0x61]" "gnu_match demo_mem demo_elf [0x61] 1"
  by (simp_all add: demo_elf_defs gnu_bucket_def gnuhash_def bloom_says_yes_def gnu_match_def
      sym_named_def st_name_def sym_addr_def bit_numeral_word_iff)

text \<open>A dynamic section with the five entries that complete an object.\<close>

definition demo_image :: bytes_mem where
  "demo_image = write_bytes (write_bytes (write_bytes (write_bytes (\<lambda>_. 0)
     0x500 [2, 0, 0, 0]) 0x508 [0, 6, 0, 0]) 0x700 [1, 0, 0, 0])
     0x600 [2, 0, 0, 0, 8, 0, 0, 0, 23, 0, 0, 0, 0, 4, 0, 0, 6, 0, 0, 0, 0, 2, 0, 0,
            5, 0, 0, 0, 0, 1, 0, 0, 4, 0, 0, 0, 0, 7, 0, 0]"

definition demo_phdr_info :: dl_phdr_info where
  "demo_phdr_info = \<lparr>dlpi_addr = 0, dlpi_name = Some [0x62], dlpi_phdr = 0x500, dlpi_phnum = 1\<rparr>"

section \<open>Properties\<close>

text \<open>C14. The optimised GNU hash lookup is the standard one: with a Bloom mask that comes from a
  power of two, masking is the remainder, the shifted exclusive-or is equality of the hashes
  up to the end marker, and the search returns, for a terminated chain, the first symbol of
  the bucket's chain whose hash and name match (0 when there is none, when the Bloom filter
  says no, or when the bucket is empty).
\<close>

theorem gnu_lookup_reference:
  assumes "gh_bloom_size (gnuHash_of d) = bs - 1" "bs \<noteq> 0" "(bs - 1) AND bs = 0"
    and "gnu_bucket m d name \<noteq> 0 \<Longrightarrow> gchain m d (gnu_bucket m d name) ns"
  shows "gnu_find_symbol_by_name m d name =
    Some (if bloom_says_yes m d bs name \<and> gnu_bucket m d name \<noteq> 0
          then (case find (gnu_match m d name) ns of None \<Rightarrow> 0 | Some k \<Rightarrow> sym_addr d k) else 0)"
  using gnu_find_eq [OF assms] by (simp add: first_named_def)

theorem gnu_lookup_reference_witness:
  "gnu_find_symbol_by_name demo_mem demo_elf [0x61] = Some 0x210"
proof -
  have "gh_bloom_size (gnuHash_of demo_elf) = 1 - 1" by (simp add: demo_elf_def)
  from gnu_lookup_reference [OF this, of demo_mem "[0x61]" "[1]"] demo_gnu
  show ?thesis by (simp add: sym_addr_def demo_elf_def)
qed

text \<open>C15. The slots that get hooked: if the lookup of a name finds a symbol, that symbol has the
  name, and the addresses that \<open>get_plt_relocations\<close> returns for it are exactly those of the
  jump-slot relocations in the PLT table that refer to it, each of them in table order.
\<close>

theorem plt_slots_of_symbol:
  assumes "find_symbol_by_name m d name = Some s" "s \<noteq> 0"
  shows "sym_named m d s name
    \<and> set (get_plt_relocations m d s) =
       {loadBias d + r_offset m (pltRelocations d) i |i. i < unat (pltRelocationsLen d)
          \<and> ELF_RELOC_TYPE (r_info m (pltRelocations d) i) = PLT_RELOCATION_TYPE
          \<and> sym_addr d (ELF_RELOC_SYM (r_info m (pltRelocations d) i)) = s}
    \<and> (\<forall>a \<in> set (get_plt_relocations m d s). \<exists>i < unat (pltRelocationsLen d).
          a = loadBias d + r_offset m (pltRelocations d) i
          \<and> sym_named m d (sym_addr d (ELF_RELOC_SYM (r_info m (pltRelocations d) i))) name)"
  using find_symbol_sound [OF assms] by (auto simp: get_plt_relocations_def)

theorem plt_slots_of_symbol_witness:
  "find_symbol_by_name demo_mem demo_elf [0x61] = Some 0x210
     \<and> set (get_plt_relocations demo_mem demo_elf 0x210) = {0x11000}"
proof -
  have "gh_bloom_size (gnuHash_of demo_elf) = 1 - 1" by (simp add: demo_elf_def)
  from gnu_find_eq [OF this, of demo_mem "[0x61]" "[1]"] demo_gnu
  have f: "find_symbol_by_name demo_mem demo_elf [0x61] = Some 0x210"
    by (simp add: find_symbol_by_name_def usesGnuHashTable_def first_named_def sym_addr_def demo_elf_def)
  moreover have "{loadBias demo_elf + r_offset demo_mem (pltRelocations demo_elf) i |i. i < unat (pltRelocationsLen demo_elf)
          \<and> ELF_RELOC_TYPE (r_info demo_mem (pltRelocations demo_elf) i) = PLT_RELOCATION_TYPE
          \<and> sym_addr demo_elf (ELF_RELOC_SYM (r_info demo_mem (pltRelocations demo_elf) i)) = 0x210} = {0x11000}"
    by (auto simp: demo_elf_defs r_offset_def r_info_def ELF_RELOC_TYPE_def ELF_RELOC_SYM_def
        PLT_RELOCATION_TYPE_def sym_addr_def)
  ultimately show ?thesis using plt_slots_of_symbol [OF f] by auto
qed



end
