(* ===== verification/SharedLibs.thy ===== *)
theory SharedLibs
  imports ElfSharedLibData
begin

text \<open>
  The cache of known libraries (\<open>sharedlibs.cpp\<close>) and \<open>dladdr1\<close> (\<open>link.cpp\<close>). The cache is an
  association list with distinct keys, in the order in which the hash map iterates. What the
  dynamic linker reports (program headers, \<open>soinfo\<close> list, \<open>dladdr\<close>) is a parameter.
\<close>

section \<open>Paths\<close>

abbreviation (input) "SLASH \<equiv> (0x2f::u8)"

text \<open>\<open>basename(3)\<close>.\<close>

definition basename :: "cstr \<Rightarrow> cstr" where
  "basename p =
     (if p = [] then [0x2e]
      else let q = dropWhile (\<lambda>c. c = SLASH) (rev p)
           in if q = [] then [SLASH] else rev (takeWhile (\<lambda>c. c \<noteq> SLASH) q))"

definition ends_with :: "cstr \<Rightarrow> cstr \<Rightarrow> bool" where
  "ends_with str ending =
     (let str_len = length str; ending_len = length ending
      in if ending_len > str_len then False else drop (str_len - ending_len) str = ending)"

text \<open>The bytes of \<open>.so\<close>.\<close>

definition dot_so :: cstr where "dot_so = [0x2e, 0x73, 0x6f]"

section \<open>The cache\<close>

type_synonym lib_cache = "(cstr \<times> elfSharedLibData) list"

datatype out_of_range = Out_of_range cstr

text \<open>\<open>addSharedLib\<close>: \<open>data\<close> is what the constructor gives (\<open>None\<close>: it does not return).\<close>

definition addSharedLib ::
  "cstr \<Rightarrow> (input_parse_error + elfSharedLibData) option \<Rightarrow> lib_cache \<Rightarrow> (bool \<times> lib_cache) option" where
  "addSharedLib libname data c =
     (if map_of c (basename libname) = None then
        (case data of
           None \<Rightarrow> None
         | Some (Inl _) \<Rightarrow> Some (False, c)
         | Some (Inr d) \<Rightarrow> Some (True, (basename libname, d) # c))
      else Some (False, c))"

definition sharedLib ::
  "(uintptr \<Rightarrow> Dl_info option) \<Rightarrow> lib_cache \<Rightarrow> cstr \<Rightarrow> out_of_range + elfSharedLibData" where
  "sharedLib dladdr c libname =
     (case map_of c (basename libname) of
        None \<Rightarrow> Inl (Out_of_range libname)
      | Some lib \<Rightarrow> if \<not> elf_valid dladdr lib then Inl (Out_of_range libname) else Inr lib)"

definition allSharedLibs :: "lib_cache \<Rightarrow> (cstr \<times> elfSharedLibData) list" where
  "allSharedLibs c = c"

definition clearSharedLibs :: "lib_cache \<Rightarrow> lib_cache" where
  "clearSharedLibs c = []"

text \<open>What the process tells about its libraries.\<close>

record loader =
  sdk :: int
  has_dl_iterate_phdr :: bool
  phdr_infos :: "dl_phdr_info list"
  soinfos :: "soinfo list option"

fun add_phdrs :: "bytes_mem \<Rightarrow> dl_phdr_info list \<Rightarrow> lib_cache \<Rightarrow> lib_cache option" where
  "add_phdrs m [] c = Some c"
| "add_phdrs m (i # is) c =
     (case dlpi_name i of
        Some nm \<Rightarrow>
          if ends_with nm dot_so
          then (case addSharedLib nm (elfSharedLibData_dl m i) c of
                  None \<Rightarrow> None | Some (_, c') \<Rightarrow> add_phdrs m is c')
          else add_phdrs m is c
      | None \<Rightarrow> add_phdrs m is c)"

fun add_soinfos :: "int \<Rightarrow> soinfo list \<Rightarrow> lib_cache \<Rightarrow> lib_cache option" where
  "add_soinfos v [] c = Some c"
| "add_soinfos v (si # sis) c =
     (case si_l_name si of
        Some nm \<Rightarrow>
          if ends_with nm dot_so
          then (case addSharedLib nm (Some (Inr (elfSharedLibData_si v si))) c of
                  None \<Rightarrow> None | Some (_, c') \<Rightarrow> add_soinfos v sis c')
          else add_soinfos v sis c
      | None \<Rightarrow> add_soinfos v sis c)"

abbreviation (input) "ANDROID_L \<equiv> (21::int)"

definition refresh_shared_libs :: "bytes_mem \<Rightarrow> loader \<Rightarrow> lib_cache \<Rightarrow> (int \<times> lib_cache) option" where
  "refresh_shared_libs m ld c =
     (if sdk ld \<ge> ANDROID_L then
        (if \<not> has_dl_iterate_phdr ld then Some (1, c)
         else map_option (\<lambda>c'. (0, c')) (add_phdrs m (phdr_infos ld) c))
      else (case soinfos ld of
              None \<Rightarrow> Some (1, c)
            | Some sis \<Rightarrow> map_option (\<lambda>c'. (0, c')) (add_soinfos (sdk ld) sis c)))"

section \<open>dladdr1\<close>

abbreviation (input) "RTLD_DL_SYMENT \<equiv> (1::int)"
abbreviation (input) "ENOSYS \<equiv> (38::int)"

text \<open>The result: the value with what is stored through \<open>extra_info\<close>, a failure with the errno
  it sets, if any, or the failed assertion.\<close>

datatype dladdr1_result = Dladdr1_ok uintptr | Dladdr1_fails "int option" | Dladdr1_asserts

definition dladdr1 ::
  "bytes_mem \<Rightarrow> (uintptr \<Rightarrow> Dl_info option) \<Rightarrow> lib_cache \<Rightarrow> uintptr \<Rightarrow> int \<Rightarrow> dladdr1_result option" where
  "dladdr1 m dladdr c addr flags =
     (if flags \<noteq> RTLD_DL_SYMENT then Some (Dladdr1_fails (Some ENOSYS))
      else case dladdr addr of
        None \<Rightarrow> Some (Dladdr1_fails None)
      | Some info \<Rightarrow>
          (case sharedLib dladdr c (basename (dli_fname info)) of
             Inl _ \<Rightarrow> Some (Dladdr1_fails None)
           | Inr lib \<Rightarrow>
               (case dli_sname info of
                  None \<Rightarrow> None
                | Some nm \<Rightarrow>
                    (case find_symbol_by_name m lib nm of
                       None \<Rightarrow> None
                     | Some s \<Rightarrow>
                         if s \<noteq> 0 then
                           (if getLoadedAddress m lib s \<noteq> dli_saddr info then Some Dladdr1_asserts
                            else Some (Dladdr1_ok s))
                         else Some (Dladdr1_fails None)))))"

section \<open>Refreshing\<close>

text \<open>The candidates for the cache: name and parsed data of each reported shared object.\<close>

definition phdr_cands :: "bytes_mem \<Rightarrow> dl_phdr_info list \<Rightarrow> (cstr \<times> elfSharedLibData) list" where
  "phdr_cands m is = concat (map (\<lambda>i. case (dlpi_name i, elfSharedLibData_dl m i) of
     (Some nm, Some (Inr d)) \<Rightarrow> if ends_with nm dot_so then [(basename nm, d)] else []
   | _ \<Rightarrow> []) is)"

definition soinfo_cands :: "int \<Rightarrow> soinfo list \<Rightarrow> (cstr \<times> elfSharedLibData) list" where
  "soinfo_cands v sis = concat (map (\<lambda>si. case si_l_name si of
     Some nm \<Rightarrow> if ends_with nm dot_so then [(basename nm, elfSharedLibData_si v si)] else []
   | None \<Rightarrow> []) sis)"

definition cache_ok :: "lib_cache \<Rightarrow> bool" where
  "cache_ok c \<longleftrightarrow> distinct (map fst c)"

lemma map_of_append_Cons: "map_of c k = None \<Longrightarrow> map_of (((k, d) # c) @ cs) = map_of (c @ (k, d) # cs)"
  by (auto simp: map_add_def fun_eq_iff split: option.splits)

lemma map_of_skip: "map_of c k \<noteq> None \<Longrightarrow> map_of (c @ (k, d) # cs) = map_of (c @ cs)"
  by (auto simp: map_add_def fun_eq_iff split: option.splits)

lemma add_phdrs_map:
  "add_phdrs m is c = Some c' \<Longrightarrow> cache_ok c \<Longrightarrow> cache_ok c' \<and> map_of c' = map_of (c @ phdr_cands m is)"
proof (induction "is" arbitrary: c)
  case (Cons i "is")
  have IH: "cache_ok c' \<and> map_of c' = map_of (c1 @ phdr_cands m is)" if "add_phdrs m is c1 = Some c'" "cache_ok c1" for c1
    using Cons.IH that by blast
  show ?case
  proof (cases "\<exists>nm d. dlpi_name i = Some nm \<and> ends_with nm dot_so \<and> elfSharedLibData_dl m i = Some (Inr d)")
    case True
    then obtain nm d where i: "dlpi_name i = Some nm" "ends_with nm dot_so" "elfSharedLibData_dl m i = Some (Inr d)" by blast
    then have c: "phdr_cands m (i # is) = (basename nm, d) # phdr_cands m is" by (simp add: phdr_cands_def)
    show ?thesis
    proof (cases "map_of c (basename nm)")
      case None
      then have "add_phdrs m is ((basename nm, d) # c) = Some c'" "cache_ok ((basename nm, d) # c)"
        using Cons.prems i by (auto simp: addSharedLib_def cache_ok_def map_of_eq_None_iff)
      from IH [OF this] show ?thesis unfolding c map_of_append_Cons [OF None] .
    next
      case (Some x)
      then have "add_phdrs m is c = Some c'" using Cons.prems i by (simp add: addSharedLib_def)
      from IH [OF this Cons.prems(2)] show ?thesis using map_of_skip [of c "basename nm"] Some by (simp add: c)
    qed
  next
    case False
    then have "phdr_cands m (i # is) = phdr_cands m is"
      by (auto simp: phdr_cands_def split: option.splits sum.splits)
    moreover have "add_phdrs m is c = Some c'"
      using Cons.prems(1) False by (auto simp: addSharedLib_def split: option.splits if_splits sum.splits)
    ultimately show ?thesis using IH Cons.prems(2) by simp
  qed
qed (simp add: phdr_cands_def)

lemma add_soinfos_map:
  "add_soinfos v sis c = Some c' \<Longrightarrow> cache_ok c \<Longrightarrow> cache_ok c' \<and> map_of c' = map_of (c @ soinfo_cands v sis)"
proof (induction sis arbitrary: c)
  case (Cons si sis)
  show ?case
  proof (cases "\<exists>nm. si_l_name si = Some nm \<and> ends_with nm dot_so")
    case True
    then obtain nm where i: "si_l_name si = Some nm" "ends_with nm dot_so" by blast
    let ?d = "elfSharedLibData_si v si"
    have c: "soinfo_cands v (si # sis) = (basename nm, ?d) # soinfo_cands v sis" using i by (simp add: soinfo_cands_def)
    show ?thesis
    proof (cases "map_of c (basename nm)")
      case None
      then have "add_soinfos v sis ((basename nm, ?d) # c) = Some c'" "cache_ok ((basename nm, ?d) # c)"
        using Cons.prems i by (auto simp: addSharedLib_def cache_ok_def map_of_eq_None_iff)
      from Cons.IH [OF this] show ?thesis unfolding c map_of_append_Cons [OF None] .
    next
      case (Some x)
      then have "add_soinfos v sis c = Some c'" using Cons.prems i by (simp add: addSharedLib_def)
      from Cons.IH [OF this Cons.prems(2)] show ?thesis using map_of_skip [of c "basename nm"] Some by (simp add: c)
    qed
  next
    case False
    then show ?thesis
      using Cons by (auto simp: soinfo_cands_def split: option.splits)
  qed
qed (simp add: soinfo_cands_def)

text \<open>An old loader with one library, \<open>/a.so\<close>.\<close>

definition demo_soinfo :: soinfo where
  "demo_soinfo = \<lparr>si_name = [0x61], si_base = 0, si_strtab = 0x100, si_symtab = 0x200, si_nbucket = 1, si_nchain = 1,
     si_bucket = 0x300, si_chain = 0x304, si_plt_rel = 0x400, si_plt_rel_count = 1, si_rel = 0, si_rel_count = 0,
     si_load_bias = 0, si_l_name = Some [0x2f, 0x61, 0x2e, 0x73, 0x6f]\<rparr>"

definition demo_loader :: loader where
  "demo_loader = \<lparr>sdk = 16, has_dl_iterate_phdr = False, phdr_infos = [], soinfos = Some [demo_soinfo]\<rparr>"

section \<open>Properties\<close>

text \<open>
  C26. Refreshing the cache: a successful refresh keeps every library it already knew, adds
  for each new base name the first reported shared object with that name that parses, and
  adds nothing else; keys stay distinct. A failing one leaves the cache alone.
\<close>

theorem refresh_shared_libs_correct:
  assumes "cache_ok c" "refresh_shared_libs m ld c = Some (r, c')"
  shows "cache_ok c' \<and> (r \<noteq> 0 \<longrightarrow> c' = c) \<and>
    (r = 0 \<longrightarrow> map_of c' = map_of (c @ (if sdk ld \<ge> ANDROID_L then phdr_cands m (phdr_infos ld)
        else soinfo_cands (sdk ld) (the (soinfos ld)))))"
  using assms add_phdrs_map [of m "phdr_infos ld" c c'] add_soinfos_map [of "sdk ld" _ c c']
  by (auto simp: refresh_shared_libs_def split: if_splits option.splits)

theorem refresh_shared_libs_correct_witness:
  "\<exists>c'. refresh_shared_libs (\<lambda>_. 0) demo_loader [] = Some (0, c')
     \<and> map_of c' [0x61, 0x2e, 0x73, 0x6f] = Some (elfSharedLibData_si 16 demo_soinfo)"
proof -
  obtain c' where c': "refresh_shared_libs (\<lambda>_. 0) demo_loader [] = Some (0, c')"
    by (simp add: refresh_shared_libs_def demo_loader_def demo_soinfo_def ends_with_def dot_so_def addSharedLib_def)
  then show ?thesis
    using refresh_shared_libs_correct [OF _ c']
    by (simp add: cache_ok_def soinfo_cands_def demo_loader_def demo_soinfo_def ends_with_def dot_so_def basename_def)
qed

end
