(* ===== verification/SigSafeWrite.thy ===== *)
theory SigSafeWrite
  imports Sigmux
begin

text \<open>
  Guarded operations (\<open>sig_safe_write.c\<close>): run an operation with a temporary signal
  registration whose handler jumps back when the operation faults. The operation is a
  parameter that either completes or faults with a signal; a fault is delivered through the
  signal multiplexer of the sequential model.
\<close>

section \<open>Data\<close>

abbreviation "EFAULT \<equiv> (14::int)"

text \<open>\<open>jump_buffer\<close> is the identity of the buffer, the address of the object it lives in.\<close>

record fault_handler_data =
  tid :: int
  active :: int
  check_sigill :: int
  jump_buffer :: uintptr

text \<open>What the calling thread sees: its id, the address of \<open>fault_handler\<close>, the address of the
  local \<open>handler_data\<close>, the other objects of that type on all stacks, and the \<open>siginfo_t\<close> and
  context that the kernel passes with a fault.\<close>

record thread_env =
  gettid :: int
  fault_handler_ptr :: uintptr
  handler_data_addr :: uintptr
  stacks :: "uintptr \<Rightarrow> fault_handler_data"
  fault_info :: uintptr
  fault_context :: uintptr

datatype 'm op_result = Completes 'm | Faults int 'm

section \<open>The functions of sig_safe_write.c\<close>

text \<open>\<open>si_signo\<close> reads that field of the \<open>siginfo_t\<close> at an address.\<close>

definition fault_handler ::
  "(uintptr \<Rightarrow> int) \<Rightarrow> int \<Rightarrow> (uintptr \<Rightarrow> fault_handler_data) \<Rightarrow> sigmux_siginfo \<Rightarrow> uintptr \<Rightarrow> handler_outcome" where
  "fault_handler si_signo me st siginfo ptr =
     (let d = st ptr; signo = si_signo (info siginfo)
      in if tid d \<noteq> me then Returns SIGMUX_CONTINUE_SEARCH
         else if active d = 0 then Returns SIGMUX_CONTINUE_SEARCH
         else if check_sigill d \<noteq> 0 \<and> signo \<noteq> SIGILL then Returns SIGMUX_CONTINUE_SEARCH
         else if check_sigill d = 0 \<and> signo \<noteq> SIGSEGV \<and> signo \<noteq> SIGBUS then Returns SIGMUX_CONTINUE_SEARCH
         else Longjmp (jump_buffer d) 1)"

text \<open>Calling a registration: the address of \<open>fault_handler\<close> runs it, any other address runs
  the code of another client, which is a parameter.\<close>

definition call_handler ::
  "(uintptr \<Rightarrow> int) \<Rightarrow> thread_env \<Rightarrow> (uintptr \<Rightarrow> fault_handler_data) \<Rightarrow> 'w handlers \<Rightarrow> 'w handlers" where
  "call_handler si_signo e st others reg si w =
     (if handler reg = fault_handler_ptr e
      then (fault_handler si_signo (gettid e) st si (handler_data reg), w)
      else others reg si w)"

text \<open>The label \<open>out\<close>: unregister, keeping \<open>errno\<close>.\<close>

definition guard_out :: "int \<Rightarrow> nat \<Rightarrow> sigmux_global \<Rightarrow> (int \<times> sigmux_global) option" where
  "guard_out result r g =
     (let old_errno = errno g
      in map_option (\<lambda>g'. (result, g'\<lparr>errno := old_errno\<rparr>)) (sigmux_unregister r g))"

text \<open>The body that \<open>sig_safe_op\<close> and \<open>sig_safe_exec\<close> share, from \<open>sigsetjmp\<close> on. \<open>None\<close>: the
  signal is not for this buffer, so the call does not return here.\<close>

definition guard ::
  "int \<Rightarrow> int set \<Rightarrow> (uintptr \<Rightarrow> int) \<Rightarrow> thread_env \<Rightarrow> 'w handlers \<Rightarrow> ('m \<Rightarrow> 'm op_result)
     \<Rightarrow> sigmux_global \<Rightarrow> 'm \<Rightarrow> 'w \<Rightarrow> (int \<times> sigmux_global \<times> 'm \<times> 'w) option" where
  "guard chk sigset si_signo e others op g m w =
     (let d = \<lparr>tid = gettid e, active = 0, check_sigill = chk, jump_buffer = handler_data_addr e\<rparr>
      in case sigmux_register sigset (fault_handler_ptr e) (handler_data_addr e) 0 g of
           (None, g1) \<Rightarrow> Some (1, g1, m, w)
         | (Some r, g1) \<Rightarrow>
             (case op m of
                Completes m' \<Rightarrow> map_option (\<lambda>(res, g2). (res, g2, m', w)) (guard_out 0 r g1)
              | Faults n m' \<Rightarrow>
                  (let st = (stacks e)(handler_data_addr e := d\<lparr>active := 1\<rparr>)
                   in case sigmux_handle_signal_1 (call_handler si_signo e st others) n
                             (fault_info e) (fault_context e) g1 w of
                        Some (Longjmp buf v, es, g2, w') \<Rightarrow>
                          if buf = handler_data_addr e \<and> v \<noteq> 0
                          then map_option (\<lambda>(res, g3). (res, g3, m', w')) (guard_out 1 r (g2\<lparr>errno := EFAULT\<rparr>))
                          else None
                      | _ \<Rightarrow> None)))"

definition sig_safe_op ::
  "(uintptr \<Rightarrow> int) \<Rightarrow> thread_env \<Rightarrow> 'w handlers \<Rightarrow> ('m \<Rightarrow> 'm op_result)
     \<Rightarrow> sigmux_global \<Rightarrow> 'm \<Rightarrow> 'w \<Rightarrow> (int \<times> sigmux_global \<times> 'm \<times> 'w) option" where
  "sig_safe_op = guard 0 {SIGSEGV, SIGBUS}"

definition sig_safe_exec ::
  "(uintptr \<Rightarrow> int) \<Rightarrow> thread_env \<Rightarrow> 'w handlers \<Rightarrow> ('m \<Rightarrow> 'm op_result)
     \<Rightarrow> sigmux_global \<Rightarrow> 'm \<Rightarrow> 'w \<Rightarrow> (int \<times> sigmux_global \<times> 'm \<times> 'w) option" where
  "sig_safe_exec = guard 1 {SIGILL}"

record write_params =
  destination :: uintptr
  pvalue :: uintptr

text \<open>Memory as a store of words: an address is writable or a store to it raises a signal.\<close>

record vmem =
  word_at :: "uintptr \<Rightarrow> uintptr"
  store_fault :: "uintptr \<Rightarrow> int option"

definition sig_safe_write_op :: "write_params \<Rightarrow> vmem \<Rightarrow> vmem op_result" where
  "sig_safe_write_op p m =
     (case store_fault m (destination p) of
        Some n \<Rightarrow> Faults n m
      | None \<Rightarrow> Completes (m\<lparr>word_at := (word_at m)(destination p := pvalue p)\<rparr>))"

definition sig_safe_write ::
  "(uintptr \<Rightarrow> int) \<Rightarrow> thread_env \<Rightarrow> 'w handlers \<Rightarrow> uintptr \<Rightarrow> uintptr
     \<Rightarrow> sigmux_global \<Rightarrow> vmem \<Rightarrow> 'w \<Rightarrow> (int \<times> sigmux_global \<times> vmem \<times> 'w) option" where
  "sig_safe_write si_signo e others dest v =
     sig_safe_op si_signo e others (sig_safe_write_op \<lparr>destination = dest, pvalue = v\<rparr>)"

section \<open>The guard around an operation\<close>

text \<open>After the guard the multiplexer is as before, up to allocation and lock.\<close>

definition restored :: "sigmux_global \<Rightarrow> nat list \<Rightarrow> sigmux_global \<Rightarrow> bool" where
  "restored g xs g' \<longleftrightarrow> handlers_list g' xs \<and> regs g' = regs g \<and> phaser g' = phaser g \<and> \<not> lock g'
     \<and> orig_sigact g' = orig_sigact g \<and> calloc_ok g' = calloc_ok g"

lemma register_cases:
  assumes "handlers_list g xs" "calloc_ok g (brk g)"
  obtains g1 where "sigmux_register sigs fn dat flags g = (Some (brk g), g1)"
    "handlers_list g1 (brk g # xs)" "phaser g1 = phaser g" "errno g1 = errno g"
    "regs g1 = (regs g)(brk g \<mapsto> \<lparr>signals = sigs, handler = fn, handler_data = dat, reg_flags = flags\<rparr>)"
    "orig_sigact g1 = orig_sigact g" "brk g \<notin> dom (regs g)" "calloc_ok g1 = calloc_ok g"
proof -
  obtain g1 where g1: "sigmux_register sigs fn dat flags g = (Some (brk g), g1)"
    using assms(2) by (simp add: sigmux_register_def Let_def)
  moreover have "orig_sigact g1 = orig_sigact g" "errno g1 = errno g" "calloc_ok g1 = calloc_ok g"
    using g1 assms(2) by (auto simp: sigmux_register_def Let_def mutex_unlock_def mutex_lock_def
        link_front_def set_next_def set_prev_def)
  ultimately show ?thesis using that register_list [OF assms(1) g1] by blast
qed

lemma unregister_frame:
  assumes "sigmux_unregister r g = Some g'"
  shows "orig_sigact g' = orig_sigact g" "calloc_ok g' = calloc_ok g"
  using assms by (auto simp: sigmux_unregister_def Let_def mutex_unlock_def mutex_lock_def unlink_def
      set_next_def set_prev_def split: option.splits)

lemma guard_out_restores:
  assumes "handlers_list g1 (r # xs)" "phaser_quiet (phaser g1)" "r \<notin> dom (regs g)"
    and "regs g1 = (regs g)(r \<mapsto> reg)" "phaser g1 = phaser g"
    and frame: "orig_sigact g1 = orig_sigact g" "calloc_ok g1 = calloc_ok g"
  shows "\<exists>g2. guard_out res r g1 = Some (res, g2) \<and> restored g xs g2 \<and> errno g2 = errno g1"
proof -
  obtain g2 where g2: "sigmux_unregister r g1 = Some g2" "handlers_list g2 xs" "regs g2 = (regs g1)(r := None)"
    "\<not> lock g2" "phaser g2 = phaser g1"
    using unregister_list [of g1 "[]" r xs] assms(1,2) by auto
  moreover have "(regs g1)(r := None) = regs g" using assms(3,4) by (auto simp: fun_upd_idem_iff)
  ultimately show ?thesis
    using assms(5) unregister_frame [OF g2(1)] frame by (auto simp: guard_out_def restored_def handlers_list_def)
qed

lemma guard_completes:
  assumes list: "handlers_list g xs" and q: "phaser_quiet (phaser g)" and mem: "calloc_ok g (brk g)"
    and op: "op m = Completes m'"
  shows "\<exists>g'. guard chk sigs si e others op g m w = Some (0, g', m', w) \<and> restored g xs g' \<and> errno g' = errno g"
proof -
  obtain g1 where g1: "sigmux_register sigs (fault_handler_ptr e) (handler_data_addr e) 0 g = (Some (brk g), g1)"
    "handlers_list g1 (brk g # xs)" "phaser g1 = phaser g" "errno g1 = errno g"
    "regs g1 = (regs g)(brk g \<mapsto> \<lparr>signals = sigs, handler = fault_handler_ptr e, handler_data = handler_data_addr e, reg_flags = 0\<rparr>)"
    "brk g \<notin> dom (regs g)" "orig_sigact g1 = orig_sigact g" "calloc_ok g1 = calloc_ok g"
    using register_cases [OF list mem] by metis
  then obtain g2 where "guard_out 0 (brk g) g1 = Some (0, g2)" "restored g xs g2" "errno g2 = errno g1"
    using guard_out_restores [OF g1(2) _ g1(6,5,3,7,8), of 0] q g1(3) by auto
  then show ?thesis using g1 op by (simp add: guard_def)
qed

text \<open>The new registration is the first to be asked.\<close>

lemma guard_first_candidate:
  assumes "regs g1 r = Some reg" "eligible False n reg"
    and "call_handler si e st others reg \<lparr>signum = n, info = i, sigcontext = c\<rparr> w = (Longjmp b v, w)"
  shows "try_handlers (call_handler si e st others) \<lparr>signum = n, info = i, sigcontext = c\<rparr>
    (filter (eligible False n) (registered g1 (r # xs)) @ ys) w = (Longjmp b v, w)"
  using assms by (simp add: registered_def)

lemma guard_faults:
  assumes list: "handlers_list g xs" and q: "phaser_quiet (phaser g)" and mem: "calloc_ok g (brk g)"
    and op: "op m = Faults n m'" and n: "0 < n" "n < NSIG" "n \<in> sigs" and orig: "orig_sigact g n \<noteq> None"
    and expected: "si (fault_info e) = n" "chk \<noteq> 0 \<and> n = SIGILL \<or> chk = 0 \<and> n \<in> {SIGSEGV, SIGBUS}"
  shows "\<exists>g'. guard chk sigs si e others op g m w = Some (1, g', m', w) \<and> restored g xs g' \<and> errno g' = EFAULT"
proof -
  let ?reg = "\<lparr>signals = sigs, handler = fault_handler_ptr e, handler_data = handler_data_addr e, reg_flags = 0\<rparr>"
  let ?d = "\<lparr>tid = gettid e, active = 0, check_sigill = chk, jump_buffer = handler_data_addr e\<rparr>"
  let ?h = "call_handler si e ((stacks e)(handler_data_addr e := ?d\<lparr>active := 1\<rparr>)) others"
  obtain g1 where g1: "sigmux_register sigs (fault_handler_ptr e) (handler_data_addr e) 0 g = (Some (brk g), g1)"
    "handlers_list g1 (brk g # xs)" "phaser g1 = phaser g" "orig_sigact g1 = orig_sigact g"
    "regs g1 = (regs g)(brk g \<mapsto> ?reg)" "brk g \<notin> dom (regs g)" "calloc_ok g1 = calloc_ok g"
    using register_cases [OF list mem] by metis
  obtain ptr where ptr: "orig_sigact g1 n = Some ptr" using orig g1(4) by auto
  have rdy: "phaser_ready (phaser g1)" using q g1(3) phaser_cr.quiet_ready by simp
  have call: "?h ?reg \<lparr>signum = n, info = fault_info e, sigcontext = fault_context e\<rparr> w
      = (Longjmp (handler_data_addr e) 1, w)"
    using expected by (auto simp: call_handler_def fault_handler_def Let_def)
  have "eligible False n ?reg" using n by (simp add: eligible_def sys_sigismember_def)
  then have "sigmux_handle_signal_1 ?h n (fault_info e) (fault_context e) g1 w =
      Some (Longjmp (handler_data_addr e) 1, [Sigmask_set {}], g1, w)"
    unfolding sigmux_handle_signal_1_def handle_signal_flags handle_signal_all [OF g1(2) rdy ptr] candidates_def
    using guard_first_candidate [OF _ _ call] g1(5) by simp
  moreover obtain g2 where "guard_out 1 (brk g) (g1\<lparr>errno := EFAULT\<rparr>) = Some (1, g2)" "restored g xs g2"
    "errno g2 = EFAULT"
    using guard_out_restores [of "g1\<lparr>errno := EFAULT\<rparr>" "brk g" xs g ?reg 1] g1 q
    by (auto simp: handlers_list_def)
  ultimately show ?thesis using g1(1) op by (simp add: guard_def Let_def)
qed

lemma sig_safe_write_spec:
  assumes "handlers_list g xs" "phaser_quiet (phaser g)" "calloc_ok g (brk g)"
    and "\<And>n. store_fault m dest = Some n \<Longrightarrow>
        n \<in> {SIGSEGV, SIGBUS} \<and> orig_sigact g n \<noteq> None \<and> si_signo (fault_info e) = n"
  shows "\<exists>g'. restored g xs g' \<and>
    (if store_fault m dest = None
     then sig_safe_write si_signo e others dest v g m w =
            Some (0, g', m\<lparr>word_at := (word_at m)(dest := v)\<rparr>, w) \<and> errno g' = errno g
     else sig_safe_write si_signo e others dest v g m w = Some (1, g', m, w) \<and> errno g' = EFAULT)"
proof (cases "store_fault m dest")
  case None
  then have op: "sig_safe_write_op \<lparr>destination = dest, pvalue = v\<rparr> m = Completes (m\<lparr>word_at := (word_at m)(dest := v)\<rparr>)"
    by (simp add: sig_safe_write_op_def)
  from guard_completes [where op = "sig_safe_write_op _", OF assms(1-3) op, of 0 "{SIGSEGV, SIGBUS}" si_signo e others w]
  show ?thesis using None by (auto simp: sig_safe_write_def sig_safe_op_def)
next
  case (Some n)
  then have n: "0 < n" "n < NSIG" "n \<in> {SIGSEGV, SIGBUS}" "orig_sigact g n \<noteq> None" "si_signo (fault_info e) = n"
    using assms(4) [OF Some] by auto
  have "sig_safe_write_op \<lparr>destination = dest, pvalue = v\<rparr> m = Faults n m"
    using Some by (simp add: sig_safe_write_op_def)
  from guard_faults [where op = "sig_safe_write_op _" and si = si_signo, OF assms(1-3) this n, of 0 others w] n(3) Some
  show ?thesis by (auto simp: sig_safe_write_def sig_safe_op_def)
qed

text \<open>A concrete thread: the multiplexer with \<open>SIGSEGV\<close> taken over, a null page that faults.\<close>

definition demo_env :: thread_env where
  "demo_env = \<lparr>gettid = 7, fault_handler_ptr = 0x4000, handler_data_addr = 0x8000,
     stacks = (\<lambda>_. \<lparr>tid = 0, active = 0, check_sigill = 0, jump_buffer = 0\<rparr>),
     fault_info = 0x9000, fault_context = 0xa000\<rparr>"

definition demo_vmem :: vmem where
  "demo_vmem = \<lparr>word_at = (\<lambda>_. 0), store_fault = (\<lambda>a. if a < 0x1000 then Some SIGSEGV else None)\<rparr>"

definition demo_ill :: sigmux_global where
  "demo_ill = demo_g1\<lparr>orig_sigact := (orig_sigact demo_g1)(SIGILL := Some 0)\<rparr>"

section \<open>Properties\<close>



text \<open>
  C15. \<open>fault_handler\<close> is selective: it leaves by the jump exactly when its own thread is inside
  the guarded operation and the signal is of the kind that this guard expects; every other
  delivery continues the search. The jump goes to the buffer of that guard.
\<close>

theorem fault_handler_selective:
  "fault_handler si_signo me st siginfo ptr =
     (if tid (st ptr) = me \<and> active (st ptr) \<noteq> 0 \<and>
         (if check_sigill (st ptr) \<noteq> 0 then si_signo (info siginfo) = SIGILL
          else si_signo (info siginfo) \<in> {SIGSEGV, SIGBUS})
      then Longjmp (jump_buffer (st ptr)) 1 else Returns SIGMUX_CONTINUE_SEARCH)"
  by (auto simp: fault_handler_def Let_def)

text \<open>
  C16. \<open>sig_safe_exec\<close> guards an operation against illegal instructions and nothing else: an
  operation that completes returns 0, one that raises \<open>SIGILL\<close> returns 1 with \<open>EFAULT\<close>, and
  both leave the multiplexer restored; without memory for the registration the operation is
  not run at all and 1 is returned.
\<close>

theorem sig_safe_exec_correct:
  assumes "handlers_list g xs" "phaser_quiet (phaser g)"
    and "orig_sigact g SIGILL \<noteq> None" "si_signo (fault_info e) = SIGILL"
  shows "(calloc_ok g (brk g) \<and> op m = Completes m' \<longrightarrow>
      (\<exists>g'. sig_safe_exec si_signo e others op g m w = Some (0, g', m', w) \<and> restored g xs g' \<and> errno g' = errno g))
    \<and> (calloc_ok g (brk g) \<and> op m = Faults SIGILL m' \<longrightarrow>
      (\<exists>g'. sig_safe_exec si_signo e others op g m w = Some (1, g', m', w) \<and> restored g xs g' \<and> errno g' = EFAULT))
    \<and> (\<not> calloc_ok g (brk g) \<longrightarrow> (\<exists>g'. sig_safe_exec si_signo e others op g m w = Some (1, g', m, w)))"
proof (intro conjI impI; (elim conjE)?)
  assume mem: "calloc_ok g (brk g)"
  show "\<exists>g'. sig_safe_exec si_signo e others op g m w = Some (0, g', m', w) \<and> restored g xs g' \<and> errno g' = errno g"
    if "op m = Completes m'"
    unfolding sig_safe_exec_def by (rule guard_completes [where op = op, OF assms(1,2) mem that])
  show "\<exists>g'. sig_safe_exec si_signo e others op g m w = Some (1, g', m', w) \<and> restored g xs g' \<and> errno g' = EFAULT"
    if "op m = Faults SIGILL m'"
    unfolding sig_safe_exec_def
    by (rule guard_faults [where si = si_signo and op = op, OF assms(1,2) mem that _ _ _ assms(3,4)]) simp_all
qed (simp add: sig_safe_exec_def guard_def sigmux_register_def Let_def)

theorem sig_safe_exec_correct_witness:
  "\<exists>g'. sig_safe_exec (\<lambda>_. SIGILL) demo_env (\<lambda>reg si w. (Returns SIGMUX_CONTINUE_SEARCH, w))
      (\<lambda>m. Faults SIGILL m) demo_ill (5::nat) () = Some (1, g', 5, ())"
  using sig_safe_exec_correct [of demo_ill "[]" "\<lambda>_. SIGILL" demo_env "\<lambda>m. Faults SIGILL m" 5 5
      "\<lambda>reg si w. (Returns SIGMUX_CONTINUE_SEARCH, w)" "()"] demo_lists(1)
  by (auto simp: demo_ill_def handlers_list_def)

end
