(* ===== verification/Linker.thy ===== *)
theory Linker
  imports SharedLibs SigSafeWrite
begin

text \<open>
  The PLT hooking interface (\<open>linker.cpp\<close>): patching GOT slots under the guard of
  \<open>sig_safe_write\<close>, installing and removing hooks for the jump slots of a symbol, in one
  library or in all. The state joins those of the components; the GOT is part of the
  word memory of the guarded store, the ELF tables are read-only bytes.
\<close>

section \<open>State and environment\<close>

text \<open>What the linker asks of its environment: the fault signals of the calling thread, the
  operating system, the bytes of the trampoline template with the addresses of the two stack
  functions, the ELF images, \<open>dladdr\<close>, the answers of \<open>mprotect\<close> (for a page, to make it
  writable or not) and the process's libraries.\<close>

record 'w linker_env =
  le_si_signo :: "uintptr \<Rightarrow> int"
  le_thread :: thread_env
  le_others :: "'w handlers"
  le_h1 :: uintptr
  le_os :: os
  le_template :: "u8 list"
  le_push :: uintptr
  le_pop :: uintptr
  le_mem :: bytes_mem
  le_dladdr :: "uintptr \<Rightarrow> Dl_info option"
  le_mprotect_ok :: "uintptr \<Rightarrow> bool \<Rightarrow> bool"
  le_pagesize :: u32
  le_loader :: loader

record 'w linker_state =
  g_linker_enabled :: bool
  ls_sig :: sigmux_global
  ls_vmem :: vmem
  ls_world :: 'w
  ls_hooks :: hook_globals
  ls_tramp :: tramp_state
  ls_libs :: lib_cache

text \<open>A call that does not return normally: an abort, an exception that nobody catches, or a
  computation that never returns.\<close>

datatype linker_stop = Aborts string | Throws tramp_error | No_return

record plt_hook_spec =
  fn_name :: "cstr option"
  hook_fn :: uintptr
  hook_result :: int

section \<open>Patching a slot\<close>

definition PAGE_ALIGN :: "uintptr \<Rightarrow> u32 \<Rightarrow> uintptr" where
  "PAGE_ALIGN ptr pagesize = ptr AND NOT (pagesize - 1)"

text \<open>The effect of a successful \<open>mprotect\<close> on one page.\<close>

definition protect_page :: "u32 \<Rightarrow> uintptr \<Rightarrow> bool \<Rightarrow> vmem \<Rightarrow> vmem" where
  "protect_page pagesize page writable m =
     m\<lparr>store_fault := (\<lambda>a. if PAGE_ALIGN a pagesize = page
                            then (if writable then None else Some SIGSEGV) else store_fault m a)\<rparr>"

definition guarded_write ::
  "'w linker_env \<Rightarrow> uintptr \<Rightarrow> uintptr \<Rightarrow> 'w linker_state \<Rightarrow> (int \<times> 'w linker_state) option" where
  "guarded_write e a v s =
     map_option (\<lambda>(rc, g, m, w). (rc, s\<lparr>ls_sig := g, ls_vmem := m, ls_world := w\<rparr>))
       (sig_safe_write (le_si_signo e) (le_thread e) (le_others e) a v (ls_sig s) (ls_vmem s) (ls_world s))"

definition unsafe_patch_relocation_address ::
  "'w linker_env \<Rightarrow> uintptr \<Rightarrow> uintptr \<Rightarrow> 'w linker_state \<Rightarrow> linker_stop + int \<times> 'w linker_state" where
  "unsafe_patch_relocation_address e a v s =
     (case guarded_write e a v s of
        None \<Rightarrow> Inl No_return
      | Some (rc, s1) \<Rightarrow>
          if rc \<noteq> 0 \<and> errno (ls_sig s1) = EFAULT then
            (let page = PAGE_ALIGN a (le_pagesize e)
             in if \<not> le_mprotect_ok e page True then Inr (5, s1)
                else case guarded_write e a v (s1\<lparr>ls_vmem := protect_page (le_pagesize e) page True (ls_vmem s1)\<rparr>) of
                       None \<Rightarrow> Inl No_return
                     | Some (rc, s2) \<Rightarrow>
                         if \<not> le_mprotect_ok e page False then Inl (Aborts ''abort'')
                         else Inr (rc, s2\<lparr>ls_vmem := protect_page (le_pagesize e) page False (ls_vmem s2)\<rparr>))
          else Inr (rc, s1))"

definition patch_relocation_address_for_hook ::
  "'w linker_env \<Rightarrow> uintptr \<Rightarrow> plt_hook_spec \<Rightarrow> 'w linker_state \<Rightarrow> linker_stop + int \<times> 'w linker_state" where
  "patch_relocation_address_for_hook e got_addr spec s =
     (let hinfo = \<lparr>out_id = 0, got_address = got_addr, new_function = hook_fn spec,
                  previous_function = word_at (ls_vmem s) got_addr\<rparr>
      in if is_hooked (ls_hooks s) got_addr then
           (case add hinfo (ls_hooks s) of
              (ret, _, h) \<Rightarrow> Inr (if ret \<noteq> ALREADY_HOOKED_APPENDED then 1 else 0, s\<lparr>ls_hooks := h\<rparr>))
         else
           (case add hinfo (ls_hooks s) of
              (ret, hook_info, h) \<Rightarrow>
                (let s1 = s\<lparr>ls_hooks := h\<rparr>
                 in if ret \<noteq> NEW_HOOK then Inr (1, s1)
                    else case create_trampoline (le_os e) (le_template e) (le_push e) (le_pop e)
                                (out_id hook_info) (ls_tramp s1) of
                           (Inl x, t) \<Rightarrow> Inl (Throws x)
                         | (Inr code, t) \<Rightarrow>
                             unsafe_patch_relocation_address e got_addr code (s1\<lparr>ls_tramp := t\<rparr>))))"

text \<open>\<open>strcmp\<close> of a missing symbol name crashes.\<close>

definition verify_got_entry_for_spec ::
  "'w linker_env \<Rightarrow> uintptr \<Rightarrow> plt_hook_spec \<Rightarrow> 'w linker_state \<Rightarrow> linker_stop + bool" where
  "verify_got_entry_for_spec e got_addr spec s =
     (if is_hooked (ls_hooks s) got_addr then Inr True
      else case le_dladdr e got_addr of
        None \<Rightarrow> Inr False
      | Some _ \<Rightarrow>
          (case le_dladdr e (word_at (ls_vmem s) got_addr) of
             None \<Rightarrow> Inr False
           | Some hinfo \<Rightarrow>
               (case dli_sname hinfo of
                  None \<Rightarrow> Inl (Aborts ''strcmp of NULL'')
                | Some nm \<Rightarrow> Inr (Some nm = fn_name spec))))"

section \<open>Hooking\<close>

fun hook_slots ::
  "'w linker_env \<Rightarrow> uintptr list \<Rightarrow> plt_hook_spec \<Rightarrow> int \<Rightarrow> 'w linker_state
     \<Rightarrow> linker_stop + plt_hook_spec \<times> int \<times> 'w linker_state" where
  "hook_slots e [] spec failures s = Inr (spec, failures, s)"
| "hook_slots e (a # as) spec failures s =
     (case verify_got_entry_for_spec e a spec s of
        Inl x \<Rightarrow> Inl x
      | Inr False \<Rightarrow> hook_slots e as spec (failures + 1) s
      | Inr True \<Rightarrow>
          (case patch_relocation_address_for_hook e a spec s of
             Inl x \<Rightarrow> Inl x
           | Inr (rc, s') \<Rightarrow>
               if rc = 0 then hook_slots e as (spec\<lparr>hook_result := hook_result spec + 1\<rparr>) failures s'
               else hook_slots e as spec (failures + 1) s'))"

fun hook_specs ::
  "'w linker_env \<Rightarrow> elfSharedLibData \<Rightarrow> plt_hook_spec list \<Rightarrow> int \<Rightarrow> 'w linker_state
     \<Rightarrow> linker_stop + plt_hook_spec list \<times> int \<times> 'w linker_state" where
  "hook_specs e d [] failures s = Inr ([], failures, s)"
| "hook_specs e d (spec # specs) failures s =
     (case (if hook_fn spec = 0 \<or> fn_name spec = None then Inr (spec, failures + 1, s)
            else case find_symbol_by_name (le_mem e) d (the (fn_name spec)) of
                   None \<Rightarrow> Inl No_return
                 | Some sy \<Rightarrow> if sy = 0 then Inr (spec, failures, s)
                              else hook_slots e (get_plt_relocations (le_mem e) d sy) spec failures s) of
        Inl x \<Rightarrow> Inl x
      | Inr (spec', failures', s') \<Rightarrow>
          (case hook_specs e d specs failures' s' of
             Inl x \<Rightarrow> Inl x
           | Inr (specs', f, s'') \<Rightarrow> Inr (spec' # specs', f, s'')))"

definition hook_single_lib ::
  "'w linker_env \<Rightarrow> cstr \<Rightarrow> plt_hook_spec list \<Rightarrow> 'w linker_state
     \<Rightarrow> linker_stop + int \<times> plt_hook_spec list \<times> 'w linker_state" where
  "hook_single_lib e libname specs s =
     (case sharedLib (le_dladdr e) (ls_libs s) libname of
        Inl _ \<Rightarrow> Inr (0, specs, s)
      | Inr d \<Rightarrow>
          (case hook_specs e d specs 0 s of
             Inl x \<Rightarrow> Inl x
           | Inr (specs', failures, s') \<Rightarrow> Inr (failures, specs', s')))"

definition new_spec :: "cstr \<Rightarrow> uintptr \<Rightarrow> plt_hook_spec" where
  "new_spec fname hfn = \<lparr>fn_name = Some fname, hook_fn = hfn, hook_result = 0\<rparr>"

definition hook_plt_method ::
  "'w linker_env \<Rightarrow> cstr \<Rightarrow> cstr \<Rightarrow> uintptr \<Rightarrow> 'w linker_state \<Rightarrow> linker_stop + int \<times> 'w linker_state" where
  "hook_plt_method e libname name hook s =
     (case hook_single_lib e libname [new_spec name hook] s of
        Inl x \<Rightarrow> Inl x
      | Inr (ret, specs, s') \<Rightarrow> Inr (if ret = 0 \<and> hook_result (hd specs) = 1 then 0 else 1, s'))"

section \<open>Unhooking\<close>

definition unhook_slot ::
  "'w linker_env \<Rightarrow> uintptr \<Rightarrow> plt_hook_spec \<Rightarrow> int \<Rightarrow> 'w linker_state
     \<Rightarrow> linker_stop + plt_hook_spec \<times> int \<times> 'w linker_state" where
  "unhook_slot e a spec failures s =
     (if \<not> is_hooked (ls_hooks s) a then Inr (spec, failures, s)
      else case remove \<lparr>out_id = 0, got_address = a, new_function = hook_fn spec, previous_function = 0\<rparr> (ls_hooks s) of
        (result, hinfo, h) \<Rightarrow>
          (let s1 = s\<lparr>ls_hooks := h\<rparr>
           in if result = REMOVED_STILL_HOOKED then Inr (spec\<lparr>hook_result := hook_result spec + 1\<rparr>, failures, s1)
              else if result = REMOVED_TRIVIAL then
                (let original = previous_function hinfo
                 in case unsafe_patch_relocation_address e a original s1 of
                      Inl x \<Rightarrow> Inl x
                    | Inr (rc, s2) \<Rightarrow>
                        if rc \<noteq> 0 then Inl (Aborts ''Unable to unhook GOT slot'')
                        else (case remove \<lparr>out_id = 0, got_address = a, new_function = original, previous_function = 0\<rparr> (ls_hooks s2) of
                                (result2, _, h2) \<Rightarrow>
                                  if result2 \<noteq> REMOVED_FULLY
                                  then Inl (Aborts ''GOT slot modified while we were working on it'')
                                  else Inr (spec\<lparr>hook_result := hook_result spec + 1\<rparr>, failures, s2\<lparr>ls_hooks := h2\<rparr>)))
              else Inr (spec, failures + 1, s1)))"

fun unhook_slots ::
  "'w linker_env \<Rightarrow> uintptr list \<Rightarrow> plt_hook_spec \<Rightarrow> int \<Rightarrow> 'w linker_state
     \<Rightarrow> linker_stop + plt_hook_spec \<times> int \<times> 'w linker_state" where
  "unhook_slots e [] spec failures s = Inr (spec, failures, s)"
| "unhook_slots e (a # as) spec failures s =
     (case unhook_slot e a spec failures s of
        Inl x \<Rightarrow> Inl x | Inr (spec', f, s') \<Rightarrow> unhook_slots e as spec' f s')"

text \<open>A missing function name crashes in the hash function.\<close>

fun unhook_specs ::
  "'w linker_env \<Rightarrow> elfSharedLibData \<Rightarrow> plt_hook_spec list \<Rightarrow> int \<Rightarrow> 'w linker_state
     \<Rightarrow> linker_stop + plt_hook_spec list \<times> int \<times> 'w linker_state" where
  "unhook_specs e d [] failures s = Inr ([], failures, s)"
| "unhook_specs e d (spec # specs) failures s =
     (case (case fn_name spec of
              None \<Rightarrow> Inl (Aborts ''NULL name'')
            | Some nm \<Rightarrow>
                (case find_symbol_by_name (le_mem e) d nm of
                   None \<Rightarrow> Inl No_return
                 | Some sy \<Rightarrow> if sy = 0 then Inr (spec, failures, s)
                              else unhook_slots e (get_plt_relocations (le_mem e) d sy) spec failures s)) of
        Inl x \<Rightarrow> Inl x
      | Inr (spec', failures', s') \<Rightarrow>
          (case unhook_specs e d specs failures' s' of
             Inl x \<Rightarrow> Inl x
           | Inr (specs', f, s'') \<Rightarrow> Inr (spec' # specs', f, s'')))"

definition unhook_single_lib ::
  "'w linker_env \<Rightarrow> cstr \<Rightarrow> plt_hook_spec list \<Rightarrow> 'w linker_state
     \<Rightarrow> linker_stop + int \<times> plt_hook_spec list \<times> 'w linker_state" where
  "unhook_single_lib e libname specs s =
     (case sharedLib (le_dladdr e) (ls_libs s) libname of
        Inl _ \<Rightarrow> Inr (0, specs, s)
      | Inr d \<Rightarrow>
          (case unhook_specs e d specs 0 s of
             Inl x \<Rightarrow> Inl x
           | Inr (specs', failures, s') \<Rightarrow> Inr (failures, specs', s')))"

definition unhook_plt_method ::
  "'w linker_env \<Rightarrow> cstr \<Rightarrow> cstr \<Rightarrow> uintptr \<Rightarrow> 'w linker_state \<Rightarrow> linker_stop + int \<times> 'w linker_state" where
  "unhook_plt_method e libname name hook s =
     (case unhook_single_lib e libname [new_spec name hook] s of
        Inl x \<Rightarrow> Inl x
      | Inr (ret, specs, s') \<Rightarrow> Inr (if ret = 0 \<and> hook_result (hd specs) = 1 then 0 else 1, s'))"

section \<open>All libraries\<close>

fun hook_libs ::
  "'w linker_env \<Rightarrow> (cstr \<Rightarrow> bool) \<Rightarrow> cstr list \<Rightarrow> plt_hook_spec list \<Rightarrow> int \<Rightarrow> 'w linker_state
     \<Rightarrow> linker_stop + int \<times> plt_hook_spec list \<times> 'w linker_state" where
  "hook_libs e allow [] specs failures s = Inr (failures, specs, s)"
| "hook_libs e allow (l # ls) specs failures s =
     (if allow l then
        (case hook_single_lib e l specs s of
           Inl x \<Rightarrow> Inl x
         | Inr (f, specs', s') \<Rightarrow> hook_libs e allow ls specs' (failures + f) s')
      else hook_libs e allow ls specs failures s)"

definition hook_all_libs ::
  "'w linker_env \<Rightarrow> plt_hook_spec list \<Rightarrow> (cstr \<Rightarrow> bool) \<Rightarrow> 'w linker_state
     \<Rightarrow> linker_stop + int \<times> plt_hook_spec list \<times> 'w linker_state" where
  "hook_all_libs e specs allow s =
     (case refresh_shared_libs (le_mem e) (le_loader e) (ls_libs s) of
        None \<Rightarrow> Inl No_return
      | Some (r, c) \<Rightarrow>
          (let s1 = s\<lparr>ls_libs := c\<rparr>
           in if r \<noteq> 0 then Inr (-1, specs, s1)
              else hook_libs e allow (map fst (allSharedLibs c)) specs 0 s1))"

fun unhook_libs ::
  "'w linker_env \<Rightarrow> cstr list \<Rightarrow> plt_hook_spec list \<Rightarrow> int \<Rightarrow> 'w linker_state
     \<Rightarrow> linker_stop + int \<times> plt_hook_spec list \<times> 'w linker_state" where
  "unhook_libs e [] specs failures s = Inr (failures, specs, s)"
| "unhook_libs e (l # ls) specs failures s =
     (case unhook_single_lib e l specs s of
        Inl x \<Rightarrow> Inl x
      | Inr (f, specs', s') \<Rightarrow> unhook_libs e ls specs' (failures + f) s')"

definition unhook_all_libs ::
  "'w linker_env \<Rightarrow> plt_hook_spec list \<Rightarrow> 'w linker_state
     \<Rightarrow> linker_stop + int \<times> plt_hook_spec list \<times> 'w linker_state" where
  "unhook_all_libs e specs s = unhook_libs e (map fst (allSharedLibs (ls_libs s))) specs 0 s"

section \<open>Start-up and relocations\<close>

definition linker_set_enabled :: "int \<Rightarrow> 'w linker_state \<Rightarrow> 'w linker_state" where
  "linker_set_enabled enabled s = s\<lparr>g_linker_enabled := (enabled \<noteq> 0)\<rparr>"

definition linker_initialize :: "'w linker_env \<Rightarrow> 'w linker_state \<Rightarrow> linker_stop + int \<times> 'w linker_state" where
  "linker_initialize e s =
     (if \<not> g_linker_enabled s then Inr (1, s)
      else (let (r1, g1) = sigmux_init (le_h1 e) SIGSEGV (ls_sig s); s1 = s\<lparr>ls_sig := g1\<rparr>
            in if r1 \<noteq> 0 then Inr (1, s1)
               else (let (r2, g2) = sigmux_init (le_h1 e) SIGBUS (ls_sig s1); s2 = s1\<lparr>ls_sig := g2\<rparr>
                     in if r2 \<noteq> 0 then Inr (1, s2)
                        else case refresh_shared_libs (le_mem e) (le_loader e) (ls_libs s2) of
                               None \<Rightarrow> Inl No_return
                             | Some (r, c) \<Rightarrow> Inr (r, s2\<lparr>ls_libs := c\<rparr>))))"

abbreviation (input) "ENOENT \<equiv> (2::int)"
abbreviation (input) "ERANGE \<equiv> (34::int)"
abbreviation (input) "ENODATA \<equiv> (61::int)"

text \<open>\<open>get_relocations\<close>: the addresses written, or the errno. The library is looked up by the
  name of the symbol, as the code does it; a missing name crashes.\<close>

definition get_relocations ::
  "'w linker_env \<Rightarrow> uintptr \<Rightarrow> nat \<Rightarrow> 'w linker_state \<Rightarrow> linker_stop + (int + uintptr list)" where
  "get_relocations e target relocs_out_len s =
     (case le_dladdr e target of
        None \<Rightarrow> Inr (Inl ENOENT)
      | Some hinfo \<Rightarrow>
          (case dli_sname hinfo of
             None \<Rightarrow> Inl (Aborts ''basename of NULL'')
           | Some nm \<Rightarrow>
               (case sharedLib (le_dladdr e) (ls_libs s) nm of
                  Inl _ \<Rightarrow> Inr (Inl ENODATA)
                | Inr lib \<Rightarrow>
                    (let relocs = elf_get_relocations (le_mem e) (word_at (ls_vmem s)) lib target
                     in if length relocs > relocs_out_len then Inr (Inl ERANGE) else Inr (Inr relocs)))))"

section \<open>The state in which hooking works\<close>

definition linker_ok :: "'w linker_env \<Rightarrow> nat list \<Rightarrow> 'w linker_state \<Rightarrow> bool" where
  "linker_ok e xs s \<longleftrightarrow> handlers_list (ls_sig s) xs \<and> phaser_quiet (phaser (ls_sig s))
     \<and> (\<forall>n. calloc_ok (ls_sig s) n) \<and> orig_sigact (ls_sig s) SIGSEGV \<noteq> None
     \<and> le_si_signo e (fault_info (le_thread e)) = SIGSEGV
     \<and> (\<forall>a n. store_fault (ls_vmem s) a = Some n \<longrightarrow> n = SIGSEGV)
     \<and> hooks_inv (ls_hooks s) \<and> os_ok (le_os e) \<and> theap_inv (le_os e) (theap (ls_tramp s))
     \<and> length (le_template e) + 15 < 2 ^ 32"

text \<open>What a patch leaves alone.\<close>

definition only_memory :: "'w linker_state \<Rightarrow> 'w linker_state \<Rightarrow> bool" where
  "only_memory s s' \<longleftrightarrow> ls_hooks s' = ls_hooks s \<and> ls_tramp s' = ls_tramp s \<and> ls_libs s' = ls_libs s
     \<and> ls_world s' = ls_world s \<and> g_linker_enabled s' = g_linker_enabled s"

lemma linker_ok_restored:
  assumes "linker_ok e xs s" "restored (ls_sig s) xs (ls_sig s')" "only_memory s s'"
    and "\<And>a n. store_fault (ls_vmem s') a = Some n \<Longrightarrow> n = SIGSEGV"
  shows "linker_ok e xs s'"
  using assms by (auto simp: linker_ok_def restored_def only_memory_def)

lemma guarded_write_spec:
  assumes ok: "linker_ok e xs s"
  shows "\<exists>s'. guarded_write e a v s = Some (if store_fault (ls_vmem s) a = None then 0 else 1, s')
    \<and> linker_ok e xs s' \<and> only_memory s s' \<and> store_fault (ls_vmem s') = store_fault (ls_vmem s)
    \<and> word_at (ls_vmem s') = (if store_fault (ls_vmem s) a = None then (word_at (ls_vmem s))(a := v) else word_at (ls_vmem s))
    \<and> (store_fault (ls_vmem s) a \<noteq> None \<longrightarrow> errno (ls_sig s') = EFAULT)"
proof -
  have pre: "handlers_list (ls_sig s) xs" "phaser_quiet (phaser (ls_sig s))" "calloc_ok (ls_sig s) (brk (ls_sig s))"
    "\<And>n. store_fault (ls_vmem s) a = Some n \<Longrightarrow>
        n \<in> {SIGSEGV, SIGBUS} \<and> orig_sigact (ls_sig s) n \<noteq> None \<and> le_si_signo e (fault_info (le_thread e)) = n"
    using ok by (auto simp: linker_ok_def)
  obtain g' where g': "restored (ls_sig s) xs g'"
    "if store_fault (ls_vmem s) a = None
     then sig_safe_write (le_si_signo e) (le_thread e) (le_others e) a v (ls_sig s) (ls_vmem s) (ls_world s) =
            Some (0, g', (ls_vmem s)\<lparr>word_at := (word_at (ls_vmem s))(a := v)\<rparr>, ls_world s)
     else sig_safe_write (le_si_signo e) (le_thread e) (le_others e) a v (ls_sig s) (ls_vmem s) (ls_world s) =
            Some (1, g', ls_vmem s, ls_world s) \<and> errno g' = EFAULT"
    using sig_safe_write_spec [where g = "ls_sig s" and xs = xs and m = "ls_vmem s" and dest = a
        and e = "le_thread e" and si_signo = "le_si_signo e" and others = "le_others e" and v = v and w = "ls_world s"] pre
    by (auto split: if_splits)
  let ?m = "if store_fault (ls_vmem s) a = None then (ls_vmem s)\<lparr>word_at := (word_at (ls_vmem s))(a := v)\<rparr> else ls_vmem s"
  let ?s = "s\<lparr>ls_sig := g', ls_vmem := ?m, ls_world := ls_world s\<rparr>"
  have "linker_ok e xs ?s"
    by (rule linker_ok_restored [OF ok]) (use g'(1) ok in \<open>auto simp: only_memory_def linker_ok_def split: if_splits\<close>)
  then show ?thesis
    using g'(2) by (intro exI [of _ ?s]) (auto simp: guarded_write_def only_memory_def)
qed

lemma patch_succeeds:
  assumes ok: "linker_ok e xs s" and prot: "\<And>p w. le_mprotect_ok e p w"
  shows "\<exists>s'. unsafe_patch_relocation_address e a v s = Inr (0, s') \<and> linker_ok e xs s' \<and> only_memory s s'
    \<and> word_at (ls_vmem s') = (word_at (ls_vmem s))(a := v)"
proof (cases "store_fault (ls_vmem s) a")
  case None
  then show ?thesis
    using guarded_write_spec [OF ok, of a v] by (auto simp: unsafe_patch_relocation_address_def)
next
  case (Some n)
  let ?page = "PAGE_ALIGN a (le_pagesize e)"
  obtain s1 where s1: "guarded_write e a v s = Some (1, s1)" "linker_ok e xs s1" "only_memory s s1"
    "word_at (ls_vmem s1) = word_at (ls_vmem s)" "errno (ls_sig s1) = EFAULT"
    using guarded_write_spec [OF ok, of a v] Some by auto
  let ?s2 = "s1\<lparr>ls_vmem := protect_page (le_pagesize e) ?page True (ls_vmem s1)\<rparr>"
  have "linker_ok e xs ?s2" "store_fault (ls_vmem ?s2) a = None"
    using s1(2) by (auto simp: linker_ok_def protect_page_def split: if_splits)
  then obtain s3 where s3: "guarded_write e a v ?s2 = Some (0, s3)" "linker_ok e xs s3" "only_memory ?s2 s3"
    "word_at (ls_vmem s3) = (word_at (ls_vmem ?s2))(a := v)"
    using guarded_write_spec [of e xs ?s2 a v] by auto
  let ?s4 = "s3\<lparr>ls_vmem := protect_page (le_pagesize e) ?page False (ls_vmem s3)\<rparr>"
  have "linker_ok e xs ?s4"
    using s3(2) by (auto simp: linker_ok_def protect_page_def split: if_splits)
  then show ?thesis
    using s1 s3 prot by (intro exI [of _ ?s4])
      (simp add: unsafe_patch_relocation_address_def Let_def only_memory_def protect_page_def)
qed

lemma patch_fails:
  assumes ok: "linker_ok e xs s" and fault: "store_fault (ls_vmem s) a \<noteq> None"
    and prot: "\<not> le_mprotect_ok e (PAGE_ALIGN a (le_pagesize e)) True"
  shows "\<exists>s'. unsafe_patch_relocation_address e a v s = Inr (5, s') \<and> linker_ok e xs s' \<and> only_memory s s'
    \<and> word_at (ls_vmem s') = word_at (ls_vmem s)"
  using guarded_write_spec [OF ok, of a v] fault prot
  by (auto simp: unsafe_patch_relocation_address_def Let_def)

text \<open>Hooking a fresh slot up to the patch: registry and trampoline.\<close>

lemma hook_fresh_slot:
  assumes ok: "linker_ok e xs s" and room: "id_room (ls_hooks s)" and a: "a \<noteq> 0"
    and f: "hook_fn spec \<noteq> 0" and orig: "word_at (ls_vmem s) a \<noteq> 0"
    and fresh: "\<not> is_hooked (ls_hooks s) a"
    and tr: "create_trampoline (le_os e) (le_template e) (le_push e) (le_pop e) (next_id (ls_hooks s)) (ls_tramp s) = (Inr code, t)"
  shows "\<exists>s1. patch_relocation_address_for_hook e a spec s = unsafe_patch_relocation_address e a code s1
    \<and> linker_ok e xs s1 \<and> ls_tramp s1 = t \<and> ls_vmem s1 = ls_vmem s
    \<and> slot_chains (ls_hooks s1) = (slot_chains (ls_hooks s))(a \<mapsto> [word_at (ls_vmem s) a, hook_fn spec])
    \<and> get_run_list (ls_hooks s1) (next_id (ls_hooks s)) = [word_at (ls_vmem s) a, hook_fn spec]"
proof -
  let ?i = "\<lparr>out_id = 0, got_address = a, new_function = hook_fn spec, previous_function = word_at (ls_vmem s) a\<rparr>"
  have inv: "hooks_inv (ls_hooks s)" using ok by (simp add: linker_ok_def)
  have n: "hooks_by_got_address (ls_hooks s) a = None" using fresh by (simp add: is_hooked_def)
  obtain h where h: "add ?i (ls_hooks s) = (NEW_HOOK, ?i\<lparr>out_id := next_id (ls_hooks s)\<rparr>, h)"
    "hooks_by_id h (next_id (ls_hooks s)) = Some (n_infos (ls_hooks s))"
    "ihi_hooks (infos h (n_infos (ls_hooks s))) = [word_at (ls_vmem s) a, hook_fn spec]"
    using add_new_eq [OF inv, of ?i] n a f orig by simp
  have h': "hooks_inv h" using hk.add_ok [OF inv room h(1)] .
  have c: "slot_chains h = (slot_chains (ls_hooks s))(a \<mapsto> [word_at (ls_vmem s) a, hook_fn spec])"
    using add_chains [OF inv _ _ _ h(1)] a f orig n by (simp add: slot_chains_def [of "ls_hooks s"])
  have t: "theap_inv (le_os e) (theap t)"
    using create_trampoline_spec [OF _ _ _ tr] ok by (simp add: linker_ok_def)
  let ?s1 = "s\<lparr>ls_hooks := h, ls_tramp := t\<rparr>"
  have "linker_ok e xs ?s1" using ok h' t by (simp add: linker_ok_def)
  then show ?thesis
    using fresh h c tr by (intro exI [of _ ?s1])
      (simp add: patch_relocation_address_for_hook_def Let_def get_run_list_def)
qed

section \<open>Counting\<close>

lemma hook_slots_count:
  "hook_slots e as spec f s = Inr (spec', f', s') \<Longrightarrow>
     hook_result spec' + f' = hook_result spec + f + int (length as) \<and> f \<le> f' \<and> hook_result spec \<le> hook_result spec'"
proof (induction as arbitrary: spec f s)
  case (Cons a as)
  then show ?case
    by (auto split: sum.splits bool.splits prod.splits if_splits) force+
qed simp

lemma hook_plt_slots:
  assumes "hook_plt_method e lib name f s = Inr (0, s')"
  obtains d sy where "sharedLib (le_dladdr e) (ls_libs s) lib = Inr d"
    "find_symbol_by_name (le_mem e) d name = Some sy" "sy \<noteq> 0"
    "length (get_plt_relocations (le_mem e) d sy) = 1"
proof -
  obtain specs where sp: "hook_single_lib e lib [new_spec name f] s = Inr (0, specs, s')" "hook_result (hd specs) = 1"
    using assms by (auto simp: hook_plt_method_def split: sum.splits prod.splits if_splits)
  then obtain d where d: "sharedLib (le_dladdr e) (ls_libs s) lib = Inr d"
    "hook_specs e d [new_spec name f] 0 s = Inr (specs, 0, s')"
    by (auto simp: hook_single_lib_def new_spec_def split: sum.splits prod.splits)
  then obtain sy spec' where sy: "find_symbol_by_name (le_mem e) d name = Some sy" "sy \<noteq> 0"
    "hook_slots e (get_plt_relocations (le_mem e) d sy) (new_spec name f) 0 s = Inr (spec', 0, s')" "specs = [spec']"
    using sp(2) by (auto simp: new_spec_def split: sum.splits prod.splits if_splits option.splits)
  have "hook_result spec' = int (length (get_plt_relocations (le_mem e) d sy))"
    using hook_slots_count [OF sy(3)] by (simp add: new_spec_def)
  then show ?thesis using that [OF d(1) sy(1,2)] sp(2) sy(4) by simp
qed

section \<open>A concrete process\<close>

text \<open>A read-only slot at \<open>0x8000\<close> that points to the function at \<open>0x1000\<close>.\<close>

definition demo_lenv :: "bool \<Rightarrow> unit linker_env" where
  "demo_lenv prot = \<lparr>le_si_signo = (\<lambda>_. SIGSEGV), le_thread = demo_env,
     le_others = (\<lambda>reg si w. (Returns SIGMUX_CONTINUE_SEARCH, w)), le_h1 = 0x1000, le_os = demo_os,
     le_template = [1, 2, 3, 4], le_push = 0x2100, le_pop = 0x2200, le_mem = demo_mem, le_dladdr = (\<lambda>_. None),
     le_mprotect_ok = (\<lambda>_ _. prot), le_pagesize = 4096, le_loader = demo_loader\<rparr>"

definition demo_lstate :: "unit linker_state" where
  "demo_lstate = \<lparr>g_linker_enabled = True, ls_sig = demo_g1,
     ls_vmem = \<lparr>word_at = (\<lambda>_. 0)(0x8000 := 0x1000), store_fault = (\<lambda>a. if a = 0x8000 then Some SIGSEGV else None)\<rparr>,
     ls_world = (), ls_hooks = Globals, ls_tramp = demo_tramp, ls_libs = []\<rparr>"

lemma demo_linker_ok: "linker_ok (demo_lenv prot) [] demo_lstate"
  using demo_lists(1) demo_os_ok demo_theap_inv hooks_inv_Globals
  by (simp add: linker_ok_def demo_lenv_def demo_lstate_def)

lemma demo_create:
  "create_trampoline (le_os (demo_lenv prot)) (le_template (demo_lenv prot)) (le_push (demo_lenv prot))
     (le_pop (demo_lenv prot)) (next_id (ls_hooks demo_lstate)) (ls_tramp demo_lstate)
   = (Inr 0x10000, snd (create_trampoline demo_os [1, 2, 3, 4] 0x2100 0x2200 1 demo_tramp))"
  by (simp add: demo_lenv_def demo_lstate_def Globals_def create_trampoline_def allocate_def demo_os_def demo_tramp_def
      new_block_def block_allocate_def remaining_def round_up_def tramp_consts trampoline_data_size_def Let_def)

text \<open>The concrete object with a second jump slot for its symbol.\<close>

definition demo_mem2 :: bytes_mem where
  "demo_mem2 = write_bytes demo_mem 0x408 [4, 0x10, 0, 0, 22, 1, 0, 0]"

definition demo_elf2 :: elfSharedLibData where
  "demo_elf2 = demo_elf\<lparr>pltRelocationsLen := 2\<rparr>"

lemma demo_gnu2:
  "gnu_bucket demo_mem2 demo_elf2 [0x61] = 1" "gchain demo_mem2 demo_elf2 1 [1]"
  "bloom_says_yes demo_mem2 demo_elf2 1 [0x61]" "gnu_match demo_mem2 demo_elf2 [0x61] 1"
  by (simp_all add: demo_elf_defs demo_mem2_def demo_elf2_def gnu_bucket_def gnuhash_def bloom_says_yes_def gnu_match_def
      sym_named_def st_name_def sym_addr_def bit_numeral_word_iff)

lemma demo_find2: "find_symbol_by_name demo_mem2 demo_elf2 [0x61] = Some 0x210"
proof -
  have "gh_bloom_size (gnuHash_of demo_elf2) = 1 - 1" by (simp add: demo_elf2_def demo_elf_def)
  from gnu_find_eq [OF this, of demo_mem2 "[0x61]" "[1]"] demo_gnu2
  show ?thesis
    by (simp add: find_symbol_by_name_def usesGnuHashTable_def first_named_def sym_addr_def demo_elf2_def demo_elf_def)
qed

section \<open>Properties\<close>



text \<open>C18. Removing the last hook: on a slot whose chain is the original function and one hook,
  unhooking that hook puts the original function back into the slot and nothing else into
  memory, forgets the slot, counts one success and no failure, and aborts on no path, as
  long as \<open>mprotect\<close> works.
\<close>

theorem linker_unhook_restores:
  assumes "linker_ok e xs s" "slot_chains (ls_hooks s) a = Some [orig, hook_fn spec]" "orig \<noteq> hook_fn spec"
    and "\<And>p w. le_mprotect_ok e p w"
  shows "\<exists>s'. unhook_slot e a spec failures s = Inr (spec\<lparr>hook_result := hook_result spec + 1\<rparr>, failures, s')
    \<and> word_at (ls_vmem s') = (word_at (ls_vmem s))(a := orig)
    \<and> slot_chains (ls_hooks s') = (slot_chains (ls_hooks s))(a := None) \<and> linker_ok e xs s'"
proof -
  have inv: "hooks_inv (ls_hooks s)" using assms(1) by (simp add: linker_ok_def)
  have nz: "orig \<noteq> 0" "hook_fn spec \<noteq> 0" using hk.slot_nonempty [OF inv assms(2)] by auto
  let ?i1 = "\<lparr>out_id = 0, got_address = a, new_function = hook_fn spec, previous_function = 0\<rparr>"
  obtain r1 i1 h1 where h1: "remove ?i1 (ls_hooks s) = (r1, i1, h1)" using prod_cases3 by blast
  have r1: "r1 = REMOVED_TRIVIAL" "previous_function i1 = orig" "slot_chains h1 = (slot_chains (ls_hooks s))(a \<mapsto> [orig])"
    using hk.remove_slots [OF inv nz(2) _ _ assms(2) h1] assms(3) by simp_all
  let ?s1 = "s\<lparr>ls_hooks := h1\<rparr>"
  have inv1: "hooks_inv h1" by (rule hk.remove_ok [OF inv h1])
  then have "linker_ok e xs ?s1" using assms(1) by (simp add: linker_ok_def)
  then obtain s2 where s2: "unsafe_patch_relocation_address e a orig ?s1 = Inr (0, s2)" "linker_ok e xs s2"
    "only_memory ?s1 s2" "word_at (ls_vmem s2) = (word_at (ls_vmem s))(a := orig)"
    using patch_succeeds [of e xs ?s1 a orig] assms(4) by auto
  let ?i2 = "\<lparr>out_id = 0, got_address = a, new_function = orig, previous_function = 0\<rparr>"
  obtain r2 i2 h2 where h2: "remove ?i2 h1 = (r2, i2, h2)" using prod_cases3 by blast
  have r2: "r2 = REMOVED_FULLY" "slot_chains h2 = (slot_chains h1)(a := None)"
    using hk.remove_slots [OF inv1 nz(1) _ _ _ h2, of a orig "[]"] r1(3) by simp_all
  have "linker_ok e xs (s2\<lparr>ls_hooks := h2\<rparr>)"
    using s2(2) hk.remove_ok [OF inv1 h2] by (simp add: linker_ok_def)
  moreover have "is_hooked (ls_hooks s) a" using assms(2) by (auto simp: slot_chains_def is_hooked_def)
  ultimately show ?thesis
    using h1 r1 s2 h2 r2 by (auto simp: unhook_slot_def only_memory_def Let_def)
qed

theorem linker_unhook_restores_witness:
  "\<exists>s'. unhook_slot (demo_lenv True) 0x8000 (new_spec [0x61] 0x2000) 0
       (demo_lstate\<lparr>ls_hooks := snd (snd (add demo_hook Globals))\<rparr>)
     = Inr (new_spec [0x61] 0x2000\<lparr>hook_result := 1\<rparr>, 0, s') \<and> word_at (ls_vmem s') 0x8000 = 0x1000"
proof -
  let ?h = "snd (snd (add demo_hook Globals))"
  have "hooks_inv ?h"
    using hooks_inv_add [OF hooks_inv_Globals, of demo_hook] by (simp add: id_room_def Globals_def prod_eq_iff)
  then have ok: "linker_ok (demo_lenv True) [] (demo_lstate\<lparr>ls_hooks := ?h\<rparr>)"
    using demo_linker_ok [of True] by (simp add: linker_ok_def)
  have "slot_chains ?h 0x8000 = Some [0x1000, 0x2000]"
    by (simp add: slot_chains_def add_def demo_hook_def Globals_def allocate_id_def emplace_def Let_def)
  then show ?thesis
    using linker_unhook_restores [OF ok, of "0x8000" "0x1000" "new_spec [0x61] 0x2000" 0]
    by (auto simp: new_spec_def demo_lenv_def)
qed

text \<open>C19. A failed patch leaves the hook registered: when the slot cannot be made writable,
  patching returns 5 with the slot as it was, but the slot counts as hooked from then on, so
  that hooking it again reports success although no trampoline was ever installed.
\<close>

theorem linker_failed_patch_sticks:
  assumes "linker_ok e xs s" "id_room (ls_hooks s)" "a \<noteq> 0" "hook_fn spec \<noteq> 0" "word_at (ls_vmem s) a \<noteq> 0"
    and "\<not> is_hooked (ls_hooks s) a"
    and "create_trampoline (le_os e) (le_template e) (le_push e) (le_pop e) (next_id (ls_hooks s)) (ls_tramp s) = (Inr code, t)"
    and "store_fault (ls_vmem s) a \<noteq> None" "\<not> le_mprotect_ok e (PAGE_ALIGN a (le_pagesize e)) True"
  shows "\<exists>s' s''. patch_relocation_address_for_hook e a spec s = Inr (5, s')
    \<and> word_at (ls_vmem s') = word_at (ls_vmem s) \<and> is_hooked (ls_hooks s') a
    \<and> patch_relocation_address_for_hook e a spec s' = Inr (0, s'') \<and> word_at (ls_vmem s'') = word_at (ls_vmem s)"
proof -
  obtain s1 where s1: "patch_relocation_address_for_hook e a spec s = unsafe_patch_relocation_address e a code s1"
    "linker_ok e xs s1" "ls_vmem s1 = ls_vmem s"
    "slot_chains (ls_hooks s1) = (slot_chains (ls_hooks s))(a \<mapsto> [word_at (ls_vmem s) a, hook_fn spec])"
    using hook_fresh_slot [OF assms(1-6,7)] by blast
  obtain s' where s': "unsafe_patch_relocation_address e a code s1 = Inr (5, s')" "only_memory s1 s'"
    "word_at (ls_vmem s') = word_at (ls_vmem s)"
    using patch_fails [OF s1(2) _ assms(9), of code] assms(8) s1(3) by auto
  obtain p where p: "hooks_by_got_address (ls_hooks s') a = Some p"
    using s1(4) s'(2) by (cases "hooks_by_got_address (ls_hooks s1) a") (auto simp: slot_chains_def fun_eq_iff only_memory_def dest: spec [of _ a])
  then have "\<exists>s''. patch_relocation_address_for_hook e a spec s' = Inr (0, s'') \<and> word_at (ls_vmem s'') = word_at (ls_vmem s)"
    using assms(3-5) s'(3) by (simp add: patch_relocation_address_for_hook_def is_hooked_def add_def Let_def)
  then show ?thesis using s1(1) s' p by (auto simp: is_hooked_def)
qed

theorem linker_failed_patch_sticks_witness:
  "\<exists>s'. patch_relocation_address_for_hook (demo_lenv False) 0x8000 (new_spec [0x61] 0x2000) demo_lstate = Inr (5, s')
     \<and> is_hooked (ls_hooks s') 0x8000"
  using linker_failed_patch_sticks [OF demo_linker_ok [of False] _ _ _ _ _ demo_create, of "0x8000" "new_spec [0x61] 0x2000"]
  by (auto simp: demo_lstate_def demo_lenv_def new_spec_def Globals_def id_room_def is_hooked_def)

text \<open>\<open>hook_plt_method\<close> reports success only for a library in which the symbol is found and
  has exactly one jump slot: with two slots it reports failure even when both get hooked.
\<close>

theorem hook_plt_method_one_slot:
  assumes "sharedLib (le_dladdr e) (ls_libs s) lib = Inr d" "find_symbol_by_name (le_mem e) d name = Some sy"
    and "sy = 0 \<or> length (get_plt_relocations (le_mem e) d sy) \<noteq> 1"
  shows "hook_plt_method e lib name f s \<noteq> Inr (0, s')"
proof
  assume "hook_plt_method e lib name f s = Inr (0, s')"
  then show False using assms by (elim hook_plt_slots) auto
qed

theorem hook_plt_method_one_slot_witness:
  "hook_plt_method (demo_lenv True\<lparr>le_mem := demo_mem2, le_dladdr := (\<lambda>_. Some \<lparr>dli_fname = [], dli_sname = None, dli_saddr = 0\<rparr>)\<rparr>)
     [0x62] [0x61] 0x2000 (demo_lstate\<lparr>ls_libs := [([0x62], demo_elf2)]\<rparr>) \<noteq> Inr (0, demo_lstate)"
proof -
  let ?dl = "\<lambda>_. Some \<lparr>dli_fname = [], dli_sname = None, dli_saddr = 0\<rparr>"
  have lib: "sharedLib ?dl [([0x62], demo_elf2)] [0x62] = Inr demo_elf2"
    by (simp add: sharedLib_def basename_def elf_valid_def in_lib_def is_complete_def demo_elf2_def demo_elf_def empty_elf_def)
  have len: "length (get_plt_relocations demo_mem2 demo_elf2 0x210) \<noteq> 1"
    by (simp add: get_plt_relocations_def demo_elf2_def demo_elf_def empty_elf_def demo_mem2_def demo_mem_def read_u32_def
        r_info_def ELF_RELOC_TYPE_def ELF_RELOC_SYM_def PLT_RELOCATION_TYPE_def sym_addr_def upt_rec)
  show ?thesis
    by (rule hook_plt_method_one_slot [where d = demo_elf2 and sy = "0x210"])
      (use lib demo_find2 len in \<open>simp_all add: demo_lenv_def demo_lstate_def\<close>)
qed

end
