(* ===== verification/HookClients.thy ===== *)
theory HookClients
  imports Linker
begin

text \<open>
  The two clients of the PLT hooking library: the ATrace logger (\<open>ATraceLogger.cpp\<close>), which hooks the
  writes of libc to see the trace events, and the thread hook (\<open>threadHook.cpp\<close>), which hooks
  \<open>pthread_create\<close>. Their globals join the state of the linker; the dynamic linker, the system
  properties and Java are parameters.
\<close>

section \<open>The ATrace logger\<close>

record 'w atrace =
  atrace_marker_fd :: uintptr
  atrace_enabled_tags :: uintptr
  original_tags :: u64
  systrace_installed :: bool
  first_enable :: bool
  tags_at :: "uintptr \<Rightarrow> u64"
  fd_at :: "uintptr \<Rightarrow> int"
  at_linker :: "'w linker_state"
  at_log :: "u8 list list"

abbreviation "UINT64_MAX \<equiv> (- 1 :: u64)"

definition atrace_start :: "(uintptr \<Rightarrow> u64) \<Rightarrow> (uintptr \<Rightarrow> int) \<Rightarrow> 'w linker_state \<Rightarrow> 'w atrace" where
  "atrace_start tags fds l = \<lparr>atrace_marker_fd = 0, atrace_enabled_tags = 0, original_tags = UINT64_MAX,
     systrace_installed = False, first_enable = True, tags_at = tags, fd_at = fds, at_linker = l, at_log = []\<rparr>"

text \<open>The environment. An exception of a failed trampoline leaves the linker in a state of which nothing
  is assumed.\<close>

record 'w atrace_env =
  ae_linker :: "'w linker_env"
  ae_sdk :: int
  ae_dlopen :: "string option \<Rightarrow> uintptr"
  ae_dlsym :: "uintptr \<Rightarrow> string \<Rightarrow> uintptr"
  ae_write_hook :: uintptr
  ae_write_chk_hook :: uintptr
  ae_unwound :: "'w linker_state \<Rightarrow> 'w linker_state"

definition cstring :: "string \<Rightarrow> cstr" where
  "cstring s = map of_char s"

text \<open>The message is printed with \<open>%s\<close>: up to the first zero of the memory behind \<open>buf\<close>, wherever that is;
  without one the read leaves the memory (\<open>None\<close>).\<close>

definition log_systrace :: "u8 list \<Rightarrow> 'w atrace \<Rightarrow> 'w atrace option" where
  "log_systrace buf s =
     (case buf of
        [] \<Rightarrow> None
      | c # _ \<Rightarrow>
          if c = of_char CHR ''B'' then
            (if 0 \<in> set buf then Some (s\<lparr>at_log := at_log s @ [cstring ''========= '' @ takeWhile ((\<noteq>) 0) buf]\<rparr>) else None)
          else if c = of_char CHR ''E'' then Some (s\<lparr>at_log := at_log s @ [cstring ''========= E'']\<rparr>)
          else Some s)"

definition should_log_systrace :: "int \<Rightarrow> u32 \<Rightarrow> 'w atrace \<Rightarrow> bool" where
  "should_log_systrace fd count s \<longleftrightarrow> systrace_installed s \<and> fd = fd_at s (atrace_marker_fd s) \<and> 0 < count"

text \<open>The hooks; \<open>prev\<close> is the rest of the chain, which \<open>CALL_PREV\<close> calls with the same arguments.\<close>

definition write_hook ::
  "(int \<Rightarrow> u8 list \<Rightarrow> u32 \<Rightarrow> u32) \<Rightarrow> int \<Rightarrow> u8 list \<Rightarrow> u32 \<Rightarrow> 'w atrace \<Rightarrow> (u32 \<times> 'w atrace) option" where
  "write_hook prev fd buf count s =
     (if should_log_systrace fd count s then map_option (Pair count) (log_systrace buf s)
      else Some (prev fd buf count, s))"

definition write_chk_hook ::
  "(int \<Rightarrow> u8 list \<Rightarrow> u32 \<Rightarrow> u32 \<Rightarrow> u32) \<Rightarrow> int \<Rightarrow> u8 list \<Rightarrow> u32 \<Rightarrow> u32 \<Rightarrow> 'w atrace \<Rightarrow> (u32 \<times> 'w atrace) option" where
  "write_chk_hook prev fd buf count buf_size s =
     (if should_log_systrace fd count s then map_option (Pair count) (log_systrace buf s)
      else Some (prev fd buf count buf_size, s))"

definition hookLoadedLibs :: "'w atrace_env \<Rightarrow> 'w linker_state \<Rightarrow> linker_stop + 'w linker_state" where
  "hookLoadedLibs e l =
     (case hook_plt_method (ae_linker e) (cstring ''libc.so'') (cstring ''write'') (ae_write_hook e) l of
        Inl x \<Rightarrow> Inl x
      | Inr (_, l1) \<Rightarrow>
          (case hook_plt_method (ae_linker e) (cstring ''libc.so'') (cstring ''__write_chk'') (ae_write_chk_hook e) l1 of
             Inl x \<Rightarrow> Inl x
           | Inr (_, l2) \<Rightarrow> Inr l2))"

text \<open>The result is the message of the exception the function throws itself, if any; what stops inside
  the linker is \<open>Inl\<close>, with the state that a handler would find.\<close>

definition installSystraceSnooper ::
  "'w atrace_env \<Rightarrow> 'w atrace \<Rightarrow> (linker_stop \<times> 'w atrace) + (string option \<times> 'w atrace)" where
  "installSystraceSnooper e s =
     (let old = ae_sdk e < 18;
          lib_name = (if old then ''libutils.so'' else ''libcutils.so'');
          enabled_tags_sym = (if old then ''_ZN7android6Tracer12sEnabledTagsE'' else ''atrace_enabled_tags'');
          fd_sym = (if old then ''_ZN7android6Tracer8sTraceFDE'' else ''atrace_marker_fd'');
          handle = ae_dlopen e (if ae_sdk e < 21 then Some lib_name else None);
          s = s\<lparr>atrace_enabled_tags := ae_dlsym e handle enabled_tags_sym\<rparr>
      in if atrace_enabled_tags s = 0 then Inr (Some ''Enabled Tags not defined'', s)
         else let s = s\<lparr>atrace_marker_fd := ae_dlsym e handle fd_sym\<rparr>
         in if atrace_marker_fd s = 0 then Inr (Some ''Trace FD not defined'', s)
            else if fd_at s (atrace_marker_fd s) = - 1 then Inr (Some ''Trace FD not valid'', s)
            else case linker_initialize (ae_linker e) (at_linker s) of
                   Inl x \<Rightarrow> Inl (x, s)
                 | Inr (r, l) \<Rightarrow>
                     if r \<noteq> 0 then Inr (Some ''Could not initialize linker library'', s\<lparr>at_linker := l\<rparr>)
                     else (case hookLoadedLibs e l of
                             Inl x \<Rightarrow> Inl (x, s\<lparr>at_linker := ae_unwound e l\<rparr>)
                           | Inr l \<Rightarrow> Inr (None, s\<lparr>at_linker := l, systrace_installed := True\<rparr>)))"

text \<open>The handler catches \<open>std::runtime_error\<close>, of which \<open>std::system_error\<close> is one and
  \<open>std::bad_alloc\<close> is not.\<close>

definition installSystraceHook :: "'w atrace_env \<Rightarrow> 'w atrace \<Rightarrow> linker_stop + bool \<times> 'w atrace" where
  "installSystraceHook e s =
     (case installSystraceSnooper e s of
        Inr (None, s') \<Rightarrow> Inr (True, s')
      | Inr (Some _, s') \<Rightarrow> Inr (False, s')
      | Inl (Throws System_error, s') \<Rightarrow> Inr (False, s')
      | Inl (x, _) \<Rightarrow> Inl x)"

definition jni_installSystraceHook :: "'w atrace_env \<Rightarrow> 'w atrace \<Rightarrow> linker_stop + bool \<times> 'w atrace" where
  "jni_installSystraceHook e s =
     (case installSystraceHook e s of Inl x \<Rightarrow> Inl x | Inr (_, s') \<Rightarrow> Inr (True, s'))"

definition enableSystrace :: "'w atrace_env \<Rightarrow> 'w atrace \<Rightarrow> linker_stop + 'w atrace" where
  "enableSystrace e s =
     (if \<not> systrace_installed s then Inr s
      else case (if first_enable s then Inr (at_linker s)
                 else case hookLoadedLibs e (at_linker s) of
                        Inl (Throws _) \<Rightarrow> Inr (ae_unwound e (at_linker s))
                      | r \<Rightarrow> r) of
             Inl x \<Rightarrow> Inl x
           | Inr l \<Rightarrow>
               (let prev = tags_at s (atrace_enabled_tags s)
                in Inr (s\<lparr>at_linker := l, first_enable := False,
                          tags_at := (tags_at s)(atrace_enabled_tags s := UINT64_MAX),
                          original_tags := (if prev \<noteq> UINT64_MAX then prev else original_tags s)\<rparr>)))"

definition restoreSystrace :: "'w atrace \<Rightarrow> 'w atrace" where
  "restoreSystrace s =
     (if \<not> systrace_installed s then s
      else let tags = original_tags s
           in if tags \<noteq> UINT64_MAX then s\<lparr>tags_at := (tags_at s)(atrace_enabled_tags s := tags)\<rparr> else s)"

section \<open>The thread hook\<close>

record 'w thread_hook =
  thread_hooked :: bool
  th_linker :: "'w linker_state"
  th_log :: "string list"

text \<open>Java: the environment of the calling thread (\<open>None\<close> when it is not attached), and the stack as a
  string, which may be null.\<close>

record java_env =
  je_attached :: bool
  je_stack :: "string option"

text \<open>\<open>jniEnv\<close> stays null when \<open>GetEnv\<close> fails; the call through it then crashes (\<open>None\<close>).\<close>

definition printJavaStack :: "java_env \<Rightarrow> 'w thread_hook \<Rightarrow> 'w thread_hook option" where
  "printJavaStack j s =
     (if \<not> je_attached j then None
      else case je_stack j of None \<Rightarrow> Some s | Some stack \<Rightarrow> Some (s\<lparr>th_log := th_log s @ [''stack:'' @ stack]\<rparr>))"

definition pthread_create_hook ::
  "('a \<Rightarrow> int) \<Rightarrow> java_env \<Rightarrow> 'a \<Rightarrow> 'w thread_hook \<Rightarrow> (int \<times> 'w thread_hook) option" where
  "pthread_create_hook prev j args s = map_option (Pair (prev args)) (printJavaStack j s)"

definition thread_hookLoadedLibs :: "'w linker_env \<Rightarrow> uintptr \<Rightarrow> 'w linker_state \<Rightarrow> linker_stop + 'w linker_state" where
  "thread_hookLoadedLibs e hook l =
     (case hook_plt_method e (cstring ''libart.so'') (cstring ''pthread_create'') hook l of
        Inl x \<Rightarrow> Inl x | Inr (_, l') \<Rightarrow> Inr l')"

definition enableThreadHook ::
  "'w linker_env \<Rightarrow> uintptr \<Rightarrow> 'w thread_hook \<Rightarrow> linker_stop + string option \<times> 'w thread_hook" where
  "enableThreadHook e hook s =
     (if thread_hooked s then Inr (None, s)
      else let s = s\<lparr>thread_hooked := True\<rparr>
           in case linker_initialize e (th_linker s) of
                Inl x \<Rightarrow> Inl x
              | Inr (r, l) \<Rightarrow>
                  if r \<noteq> 0 then Inr (Some ''Could not initialize linker library'', s\<lparr>th_linker := l\<rparr>)
                  else (case thread_hookLoadedLibs e hook l of
                          Inl x \<Rightarrow> Inl x | Inr l \<Rightarrow> Inr (None, s\<lparr>th_linker := l\<rparr>)))"

text \<open>Loading: the class and the method of the stack are looked up once.\<close>

record java_vm =
  jv_env_ok :: bool
  jv_class :: bool
  jv_method :: bool

definition InitJniEnv :: "java_vm \<Rightarrow> bool" where
  "InitJniEnv vm = (if \<not> jv_env_ok vm then False else if \<not> jv_class vm then False else if \<not> jv_method vm then False else True)"

definition JNI_OnLoad :: "java_vm \<Rightarrow> int" where
  "JNI_OnLoad vm = (if \<not> InitJniEnv vm then - 1 else 0x00010006)"

section \<open>Hooking a hooked slot\<close>

lemma get_previous_first:
  "f \<noteq> orig \<Longrightarrow> run_list i = orig # f # fs \<Longrightarrow> get_previous_from_hook f (i # st) = Inr orig"
  by (simp add: get_previous_from_hook_def Let_def)

text \<open>What the second and every later hooking of a symbol with one slot does: the same hook is
  appended to the chain again.\<close>

definition one_slot :: "'w linker_env \<Rightarrow> 'w linker_state \<Rightarrow> cstr \<Rightarrow> cstr \<Rightarrow> uintptr \<Rightarrow> bool" where
  "one_slot e s lib name a \<longleftrightarrow>
     (\<exists>d sy. sharedLib (le_dladdr e) (ls_libs s) lib = Inr d \<and> find_symbol_by_name (le_mem e) d name = Some sy
        \<and> sy \<noteq> 0 \<and> get_plt_relocations (le_mem e) d sy = [a]) \<and> a \<noteq> 0 \<and> word_at (ls_vmem s) a \<noteq> 0"

lemma rehook_spec:
  assumes slot: "one_slot e s lib name a" and f: "f \<noteq> 0" and inv: "hooks_inv (ls_hooks s)" "id_room (ls_hooks s)"
    and ch: "slot_chains (ls_hooks s) a = Some ch"
  shows "\<exists>s'. hook_plt_method e lib name f s = Inr (0, s') \<and> hooks_inv (ls_hooks s') \<and> id_room (ls_hooks s')
    \<and> slot_chains (ls_hooks s') = (slot_chains (ls_hooks s))(a \<mapsto> ch @ [f])
    \<and> ls_vmem s' = ls_vmem s \<and> ls_tramp s' = ls_tramp s \<and> ls_libs s' = ls_libs s"
proof -
  obtain d sy where d: "sharedLib (le_dladdr e) (ls_libs s) lib = Inr d" "find_symbol_by_name (le_mem e) d name = Some sy"
    "sy \<noteq> 0" "get_plt_relocations (le_mem e) d sy = [a]" "a \<noteq> 0" "word_at (ls_vmem s) a \<noteq> 0"
    using slot by (auto simp: one_slot_def)
  let ?i = "\<lparr>out_id = 0, got_address = a, new_function = f, previous_function = word_at (ls_vmem s) a\<rparr>"
  obtain p where p: "hooks_by_got_address (ls_hooks s) a = Some p" "ihi_hooks (infos (ls_hooks s) p) = ch"
    using ch by (auto simp: slot_chains_def)
  obtain r i h where h: "add ?i (ls_hooks s) = (r, i, h)" using prod_cases3 by blast
  have r: "r = ALREADY_HOOKED_APPENDED" using h p f d(5,6) by (auto simp: add_def)
  have c: "slot_chains h = (slot_chains (ls_hooks s))(a \<mapsto> ch @ [f])"
    using add_chains [OF inv(1) _ _ _ h] f d(5,6) ch by simp
  have hi: "hooks_inv h" by (rule hk.add_ok [OF inv h])
  have hr: "id_room h" using h p f d(5,6) inv(2) by (auto simp: add_def id_room_def)
  have k: "is_hooked (ls_hooks s) a" using p by (simp add: is_hooked_def)
  let ?s' = "s\<lparr>ls_hooks := h\<rparr>"
  have "verify_got_entry_for_spec e a spec s = Inr True" for spec using k by (simp add: verify_got_entry_for_spec_def)
  moreover have "patch_relocation_address_for_hook e a (new_spec name f) s = Inr (0, ?s')"
    using k h r by (simp add: patch_relocation_address_for_hook_def new_spec_def Let_def)
  ultimately have "hook_plt_method e lib name f s = Inr (0, ?s')"
    using d(1-4) f by (simp add: hook_plt_method_def hook_single_lib_def new_spec_def)
  then show ?thesis using c hi hr by (intro exI [of _ ?s']) simp
qed

section \<open>Enabling and restoring\<close>

fun enable_times :: "'w atrace_env \<Rightarrow> nat \<Rightarrow> 'w atrace \<Rightarrow> linker_stop + 'w atrace" where
  "enable_times e 0 s = Inr s"
| "enable_times e (Suc n) s = (case enableSystrace e s of Inl x \<Rightarrow> Inl x | Inr s' \<Rightarrow> enable_times e n s')"

lemma enable_fields:
  assumes "systrace_installed s" "enableSystrace e s = Inr s'"
  shows "systrace_installed s'" "atrace_enabled_tags s' = atrace_enabled_tags s" "\<not> first_enable s'"
    "tags_at s' = (tags_at s)(atrace_enabled_tags s := UINT64_MAX)"
    "original_tags s' = (if tags_at s (atrace_enabled_tags s) \<noteq> UINT64_MAX then tags_at s (atrace_enabled_tags s) else original_tags s)"
  using assms by (auto simp: enableSystrace_def Let_def split: sum.splits if_splits)

lemma enable_times_fields:
  assumes "systrace_installed s" "tags_at s (atrace_enabled_tags s) = UINT64_MAX" "enable_times e n s = Inr s'"
  shows "systrace_installed s' \<and> atrace_enabled_tags s' = atrace_enabled_tags s \<and> tags_at s' = tags_at s
    \<and> original_tags s' = original_tags s"
  using assms
proof (induction n arbitrary: s)
  case (Suc n)
  obtain s1 where s1: "enableSystrace e s = Inr s1" "enable_times e n s1 = Inr s'"
    using Suc.prems(3) by (auto split: sum.splits)
  note f = enable_fields [OF Suc.prems(1) s1(1)]
  have "tags_at s1 = tags_at s" using f(4) Suc.prems(2) by auto
  then show ?case using Suc.IH [OF f(1) _ s1(2)] f Suc.prems(2) by simp
qed simp

text \<open>C20. Enabling the trace any number of times and then restoring it puts the word with the enabled
  tags back to what it was before the first call, and changes no other word, whatever the linker
  does when it hooks again.\<close>

theorem systrace_roundtrip:
  assumes "systrace_installed s" "tags_at s (atrace_enabled_tags s) \<noteq> UINT64_MAX" "enable_times e (Suc n) s = Inr s'"
  shows "tags_at s' (atrace_enabled_tags s) = UINT64_MAX \<and> tags_at (restoreSystrace s') = tags_at s"
proof -
  obtain s1 where s1: "enableSystrace e s = Inr s1" "enable_times e n s1 = Inr s'"
    using assms(3) by (auto split: sum.splits)
  note f = enable_fields [OF assms(1) s1(1)]
  have "tags_at s1 (atrace_enabled_tags s1) = UINT64_MAX" using f by simp
  note g = enable_times_fields [OF f(1) this s1(2)]
  have "tags_at s' = (tags_at s)(atrace_enabled_tags s := UINT64_MAX)" "original_tags s' = tags_at s (atrace_enabled_tags s)"
    "systrace_installed s'" "atrace_enabled_tags s' = atrace_enabled_tags s"
    using f g assms(2) by simp_all
  then show ?thesis using assms(2) by (simp add: restoreSystrace_def Let_def)
qed

text \<open>The state after the hooks have been installed and appended \<open>k\<close> more times.\<close>

definition hooked_times :: "'w atrace_env \<Rightarrow> uintptr \<Rightarrow> uintptr \<Rightarrow> uintptr \<Rightarrow> uintptr \<Rightarrow> nat \<Rightarrow> 'w linker_state \<Rightarrow> bool" where
  "hooked_times e a b ow oc k l \<longleftrightarrow>
     one_slot (ae_linker e) l (cstring ''libc.so'') (cstring ''write'') a
     \<and> one_slot (ae_linker e) l (cstring ''libc.so'') (cstring ''__write_chk'') b \<and> a \<noteq> b
     \<and> ae_write_hook e \<notin> {0, ow} \<and> ae_write_chk_hook e \<notin> {0, oc} \<and> hooks_inv (ls_hooks l) \<and> id_room (ls_hooks l)
     \<and> slot_chains (ls_hooks l) a = Some (ow # replicate (Suc k) (ae_write_hook e))
     \<and> slot_chains (ls_hooks l) b = Some (oc # replicate (Suc k) (ae_write_chk_hook e))"

lemma replicate_append_one: "replicate n x @ [x] = replicate (Suc n) x"
  by (simp add: replicate_append_same)

lemma rehook_both:
  assumes "hooked_times e a b ow oc k l"
  shows "\<exists>l'. hookLoadedLibs e l = Inr l' \<and> hooked_times e a b ow oc (Suc k) l' \<and> ls_vmem l' = ls_vmem l"
proof -
  note h = assms [unfolded hooked_times_def]
  obtain l1 where l1: "hook_plt_method (ae_linker e) (cstring ''libc.so'') (cstring ''write'') (ae_write_hook e) l = Inr (0, l1)"
    "hooks_inv (ls_hooks l1)" "id_room (ls_hooks l1)"
    "slot_chains (ls_hooks l1) = (slot_chains (ls_hooks l))(a \<mapsto> (ow # replicate (Suc k) (ae_write_hook e)) @ [ae_write_hook e])"
    "ls_vmem l1 = ls_vmem l" "ls_libs l1 = ls_libs l"
    using rehook_spec [of "ae_linker e" l _ _ a "ae_write_hook e"] h by blast
  have ba: "b \<noteq> a" using h by blast
  have o1: "one_slot (ae_linker e) l1 lib name x = one_slot (ae_linker e) l lib name x" for lib name x
    using l1(5,6) by (simp add: one_slot_def)
  have b1: "slot_chains (ls_hooks l1) b = Some (oc # replicate (Suc k) (ae_write_chk_hook e))" using l1(4) h ba by simp
  obtain l2 where l2: "hook_plt_method (ae_linker e) (cstring ''libc.so'') (cstring ''__write_chk'') (ae_write_chk_hook e) l1 = Inr (0, l2)"
    "hooks_inv (ls_hooks l2)" "id_room (ls_hooks l2)"
    "slot_chains (ls_hooks l2) = (slot_chains (ls_hooks l1))(b \<mapsto> (oc # replicate (Suc k) (ae_write_chk_hook e)) @ [ae_write_chk_hook e])"
    "ls_vmem l2 = ls_vmem l1" "ls_libs l2 = ls_libs l1"
    using rehook_spec [OF _ _ l1(2,3) b1, of "ae_linker e" _ _ "ae_write_chk_hook e"] h o1 by blast
  have o2: "one_slot (ae_linker e) l2 lib name x = one_slot (ae_linker e) l lib name x" for lib name x
    using l1(5,6) l2(5,6) by (simp add: one_slot_def)
  have "hooked_times e a b ow oc (Suc k) l2"
    unfolding hooked_times_def o2 using h ba l1(4) l2(2-4) by (simp add: replicate_append_same)
  then show ?thesis using l1 l2 by (simp add: hookLoadedLibs_def)
qed


section \<open>Failures that are not seen\<close>

text \<open>When the symbols of the tracer are not found, the method of Java reports success although
  nothing is installed, and enabling and restoring do nothing from then on.\<close>

theorem install_failure_unreported:
  assumes "\<And>h n. ae_dlsym e h n = 0" "\<not> systrace_installed s"
  shows "\<exists>s'. installSystraceHook e s = Inr (False, s') \<and> jni_installSystraceHook e s = Inr (True, s')
     \<and> \<not> systrace_installed s' \<and> at_linker s' = at_linker s \<and> enableSystrace e s' = Inr s' \<and> restoreSystrace s' = s'"
  using assms
  by (simp add: jni_installSystraceHook_def installSystraceHook_def installSystraceSnooper_def Let_def enableSystrace_def
      restoreSystrace_def)

text \<open>C22. When the linker cannot be initialised, enabling the thread hook throws but counts as done:
  every later call returns without an attempt, also when the linker could be initialised then.\<close>

theorem thread_hook_failure_sticks:
  assumes "\<not> thread_hooked s" "linker_initialize e (th_linker s) = Inr (r, l)" "r \<noteq> 0"
  shows "\<exists>s'. enableThreadHook e hook s = Inr (Some ''Could not initialize linker library'', s')
     \<and> ls_hooks (th_linker s') = ls_hooks l \<and> (\<forall>e'. enableThreadHook e' hook s' = Inr (None, s'))"
  using assms by (simp add: enableThreadHook_def Let_def)

section \<open>A concrete process with libc\<close>

definition libc_mem :: bytes_mem where
  "libc_mem = write_bytes (write_bytes (write_bytes (write_bytes (\<lambda>_. 0) 0x100 (cstring ''write''))
     0x108 (cstring ''__write_chk'')) 0x220 [8, 0, 0, 0])
     0x400 [0, 0x10, 0, 0, 22, 1, 0, 0, 4, 0x10, 0, 0, 22, 2, 0, 0]"

definition libc_elf :: elfSharedLibData where
  "libc_elf = demo_elf\<lparr>pltRelocationsLen := 2\<rparr>"

definition client_env :: "unit atrace_env" where
  "client_env = \<lparr>ae_linker = (demo_lenv True)\<lparr>le_mem := libc_mem,
       le_dladdr := (\<lambda>_. Some \<lparr>dli_fname = [], dli_sname = None, dli_saddr = 0\<rparr>)\<rparr>,
     ae_sdk = 23, ae_dlopen = (\<lambda>_. 1), ae_dlsym = (\<lambda>_ _. 0), ae_write_hook = 0x2000, ae_write_chk_hook = 0x3000,
     ae_unwound = id\<rparr>"

definition hook_of :: "uintptr \<Rightarrow> uintptr \<Rightarrow> HookInfo" where
  "hook_of a f = \<lparr>out_id = 0, got_address = a, new_function = f, previous_function = 0x1000\<rparr>"

definition client_hooks :: hook_globals where
  "client_hooks = snd (snd (add (hook_of 0x11004 0x3000) (snd (snd (add (hook_of 0x11000 0x2000) Globals)))))"

definition client_state :: "unit atrace" where
  "client_state = (atrace_start (\<lambda>_. 7) (\<lambda>_. 5) (demo_lstate\<lparr>ls_libs := [(cstring ''libc.so'', libc_elf)], ls_hooks := client_hooks,
       ls_vmem := (ls_vmem demo_lstate)\<lparr>word_at := (\<lambda>_. 0x10000)\<rparr>\<rparr>))
     \<lparr>systrace_installed := True, atrace_enabled_tags := 0x500, atrace_marker_fd := 0x600\<rparr>"

lemmas libc_defs = libc_elf_def demo_elf_def empty_elf_def libc_mem_def read_u32_def u32_at_def cstring_def of_char_def

lemma client_bloom: "gnu_find_symbol_by_name libc_mem libc_elf name = Some 0"
proof -
  have "u32_at libc_mem (gh_bloom_filter (gnuHash_of libc_elf)) 0 = 0" "gh_bloom_size (gnuHash_of libc_elf) = 0"
    by (simp_all add: libc_defs)
  then show ?thesis by (simp add: gnu_find_symbol_by_name_def Let_def)
qed

lemma client_lookup:
  "find_symbol_by_name libc_mem libc_elf (cstring ''write'') = Some 0x210"
  "find_symbol_by_name libc_mem libc_elf (cstring ''__write_chk'') = Some 0x220"
  "get_plt_relocations libc_mem libc_elf 0x210 = [0x11000]" "get_plt_relocations libc_mem libc_elf 0x220 = [0x11004]"
proof -
  have i: "r_info libc_mem 0x400 0 = 0x116" "r_info libc_mem 0x400 1 = 0x216" "r_offset libc_mem 0x400 0 = 0x1000"
    "r_offset libc_mem 0x400 1 = 0x1004" by (simp_all add: libc_defs r_info_def r_offset_def)
  have d: "pltRelocations libc_elf = 0x400" "pltRelocationsLen libc_elf = 2" "dynSymbolsTable libc_elf = 0x200"
    "dynStrsTable libc_elf = 0x100" "loadBias libc_elf = 0x10000" "usesGnuHashTable libc_elf"
    by (simp_all add: libc_elf_def demo_elf_def empty_elf_def usesGnuHashTable_def)
  have st: "st_name libc_mem 0x210 = 0" "st_name libc_mem 0x220 = 8" by (simp_all add: libc_defs st_name_def)
  have n: "str_eq libc_mem 0x100 (cstring ''write'')" "str_eq libc_mem 0x108 (cstring ''__write_chk'')"
    "\<not> str_eq libc_mem 0x100 (cstring ''__write_chk'')"
    by (simp_all add: libc_defs)
  have two: "[0..<unat (2::u32)] = [0, 1]" by (simp add: upt_rec)
  show "find_symbol_by_name libc_mem libc_elf (cstring ''write'') = Some 0x210"
    "find_symbol_by_name libc_mem libc_elf (cstring ''__write_chk'') = Some 0x220"
    unfolding find_symbol_by_name_def client_bloom reloc_scan_def d two
    by (simp_all add: i [simplified] d st n sym_named_def sym_addr_def ELF_RELOC_SYM_def Let_def)
  show "get_plt_relocations libc_mem libc_elf 0x210 = [0x11000]" "get_plt_relocations libc_mem libc_elf 0x220 = [0x11004]"
    unfolding get_plt_relocations_def d two
    by (simp_all add: i [simplified] d sym_addr_def ELF_RELOC_SYM_def ELF_RELOC_TYPE_def PLT_RELOCATION_TYPE_def)
qed

lemma client_hooked: "hooked_times client_env 0x11000 0x11004 0x1000 0x1000 0 (at_linker client_state)"
proof -
  let ?g1 = "snd (snd (add (hook_of 0x11000 0x2000) Globals))"
  have c1: "slot_chains ?g1 = [0x11000 \<mapsto> [0x1000, 0x2000]]"
    using add_chains [OF hooks_inv_Globals, of "hook_of 0x11000 0x2000"]
    by (simp add: hook_of_def prod_eq_iff slot_chains_def [of Globals] Globals_def fun_eq_iff slot_chains_def)
  have g1: "hooks_inv ?g1" "id_room ?g1"
    using hk.add_ok [OF hooks_inv_Globals, of "hook_of 0x11000 0x2000"]
    by (simp_all add: id_room_def Globals_def prod_eq_iff add_def hook_of_def allocate_id_def Let_def)
  have c2: "slot_chains client_hooks = [0x11000 \<mapsto> [0x1000, 0x2000], 0x11004 \<mapsto> [0x1000, 0x3000]]"
    using add_chains [OF g1(1), of "hook_of 0x11004 0x3000"] c1
    by (simp add: hook_of_def prod_eq_iff client_hooks_def)
  have g2: "hooks_inv client_hooks" "id_room client_hooks"
    unfolding client_hooks_def using hk.add_ok [OF g1, of "hook_of 0x11004 0x3000"]
    by (simp_all add: prod_eq_iff) (simp add: id_room_def Globals_def add_def hook_of_def allocate_id_def emplace_def Let_def)
  have lib: "sharedLib (\<lambda>_. Some \<lparr>dli_fname = [], dli_sname = None, dli_saddr = 0\<rparr>) [(cstring ''libc.so'', libc_elf)] (cstring ''libc.so'')
      = Inr libc_elf"
    by (simp add: sharedLib_def basename_def elf_valid_def in_lib_def is_complete_def libc_elf_def demo_elf_def empty_elf_def
        cstring_def of_char_def)
  show ?thesis
    unfolding hooked_times_def one_slot_def
    using client_lookup lib c2 g2
    by (simp add: client_state_def atrace_start_def client_env_def demo_lenv_def demo_lstate_def)
qed


theorem systrace_roundtrip_witness:
  "\<exists>s'. enable_times client_env 1 client_state = Inr s' \<and> tags_at (restoreSystrace s') 0x500 = 7"
proof -
  obtain s' where s': "enable_times client_env (Suc 0) client_state = Inr s'"
    by (simp add: enableSystrace_def client_state_def atrace_start_def Let_def)
  have "systrace_installed client_state" "tags_at client_state (atrace_enabled_tags client_state) \<noteq> UINT64_MAX"
    "tags_at client_state = (\<lambda>_. 7)" by (simp_all add: client_state_def atrace_start_def)
  then show ?thesis using systrace_roundtrip [of client_state client_env 0 s'] s' by simp
qed

theorem install_failure_unreported_witness:
  "\<exists>s'. jni_installSystraceHook client_env (client_state\<lparr>systrace_installed := False\<rparr>) = Inr (True, s') \<and> \<not> systrace_installed s'"
  using install_failure_unreported [of client_env "client_state\<lparr>systrace_installed := False\<rparr>"]
  by (auto simp: client_env_def)

definition disabled_linker :: "unit thread_hook" where
  "disabled_linker = \<lparr>thread_hooked = False, th_linker = demo_lstate\<lparr>g_linker_enabled := False\<rparr>, th_log = []\<rparr>"

theorem thread_hook_failure_sticks_witness:
  "\<exists>s'. enableThreadHook (demo_lenv True) 0x2000 disabled_linker = Inr (Some ''Could not initialize linker library'', s')
     \<and> enableThreadHook (demo_lenv True) 0x2000 s' = Inr (None, s')"
proof -
  let ?s = "disabled_linker"
  have "linker_initialize (demo_lenv True) (th_linker ?s) = Inr (1, th_linker ?s)" by (simp add: linker_initialize_def disabled_linker_def)
  then show ?thesis
    using thread_hook_failure_sticks [of ?s "demo_lenv True" 1 "th_linker ?s" "0x2000"] by (auto simp: disabled_linker_def)
qed

end
