(* ===== verification/NdkDlopen.thy ===== *)
theory NdkDlopen
  imports Prelude
begin

text \<open>
  Calling the dynamic linker from behind a foreign return address (\<open>dlopen.c\<close>): \<open>ndk_init\<close>
  writes two machine code stubs, one into a page of the library and one over the code of the
  function \<open>FatalError\<close>, and the \<open>ndk_\<close> functions call the linker through them, so that the
  linker sees a caller inside the runtime. The model has the two 32-bit instruction sets; the
  stubs run on a small machine that knows the instructions they consist of.
\<close>

section \<open>State\<close>

abbreviation "PAGE_SIZE \<equiv> (4096::u32)"

text \<open>\<open>code_mem\<close> are the bytes of executable memory, \<open>writable\<close> the addresses that may be
  written.\<close>

record ndk_state =
  SDK_INT :: int
  generic_stub :: uintptr
  quick_on_stack_back :: uintptr
  code_mem :: "uintptr \<Rightarrow> u8"
  writable :: "uintptr \<Rightarrow> bool"

datatype arch = I386 | ARM

text \<open>The environment: the instruction set, the system property \<open>ro.build.version.sdk\<close>, the
  page \<open>__insns\<close>, the address of \<open>FatalError\<close>, and the answer of \<open>mprotect\<close>.\<close>

record ndk_env =
  ne_arch :: arch
  ne_sdk :: int
  ne_insns :: uintptr
  ne_FatalError :: uintptr
  ne_mprotect_ok :: "uintptr \<Rightarrow> u32 \<Rightarrow> bool"

definition mprotect_rwx :: "ndk_env \<Rightarrow> uintptr \<Rightarrow> u32 \<Rightarrow> ndk_state \<Rightarrow> ndk_state" where
  "mprotect_rwx e a len s =
     (if ne_mprotect_ok e a len
      then s\<lparr>writable := (\<lambda>x. unat (x - a) < unat len \<or> writable s x)\<rparr> else s)"

text \<open>\<open>memcpy\<close> into code: a store to an address that is not writable kills the process.\<close>

fun memcpy_code :: "uintptr \<Rightarrow> u8 list \<Rightarrow> ndk_state \<Rightarrow> ndk_state option" where
  "memcpy_code a [] s = Some s"
| "memcpy_code a (b # bs) s =
     (if writable s a then memcpy_code (a + 1) bs (s\<lparr>code_mem := (code_mem s)(a := b)\<rparr>) else None)"

section \<open>The stubs\<close>

definition insns_i386 :: "u8 list" where
  "insns_i386 = [0x8B, 0x44, 0x24, 0x0C, 0x8B, 0x14, 0x24, 0x89, 0x04, 0x24,
                 0x89, 0x54, 0x24, 0x0C, 0xFF, 0x74, 0x24, 0x10, 0xC3]"

definition insns_arm :: "u8 list" where
  "insns_arm = [0x04, 0xE0, 0x2D, 0xE5, 0x02, 0xE0, 0xA0, 0xE1, 0x13, 0xFF, 0x2F, 0xE1]"

definition replace_stub :: "arch \<Rightarrow> u8 list" where
  "replace_stub ar = (case ar of I386 \<Rightarrow> insns_i386 | ARM \<Rightarrow> insns_arm)"

lemmas stub_bytes = replace_stub_def insns_i386_def insns_arm_def

text \<open>Writing the second stub over \<open>FatalError\<close>; on \<open>arm\<close> the low bit of the address says
  that the function is Thumb code.\<close>

definition install_back_i386 :: "uintptr \<Rightarrow> ndk_state \<Rightarrow> ndk_state option" where
  "install_back_i386 pv s =
     (case memcpy_code (quick_on_stack_back s) [0xC3, 0xFF, 0x74, 0x24, 0x08, 0xC3] s of
        None \<Rightarrow> None
      | Some s1 \<Rightarrow> Some (s1\<lparr>quick_on_stack_back := pv + 1\<rparr>))"

definition install_back_arm :: "uintptr \<Rightarrow> ndk_state \<Rightarrow> ndk_state option" where
  "install_back_arm pv s =
     (if pv AND 1 \<noteq> 0 then memcpy_code (pv - 1) [0x08, 0xBC, 0x18, 0x47] s
      else memcpy_code (quick_on_stack_back s) [0x04, 0x30, 0x9D, 0xE4, 0x13, 0xFF, 0x2F, 0xE1] s)"

definition install_back :: "arch \<Rightarrow> uintptr \<Rightarrow> ndk_state \<Rightarrow> ndk_state option" where
  "install_back ar = (case ar of I386 \<Rightarrow> install_back_i386 | ARM \<Rightarrow> install_back_arm)"

lemmas install_back_defs = install_back_def install_back_i386_def install_back_arm_def

definition ndk_init :: "ndk_env \<Rightarrow> ndk_state \<Rightarrow> ndk_state option" where
  "ndk_init e s =
     (if SDK_INT s \<le> 0 then
        (let s1 = s\<lparr>SDK_INT := ne_sdk e\<rparr>
         in if SDK_INT s1 \<ge> 24 then
              (let s2 = mprotect_rwx e (ne_insns e) PAGE_SIZE (s1\<lparr>generic_stub := ne_insns e\<rparr>);
                   pv = ne_FatalError e;
                   pu = (pv OR (PAGE_SIZE - 1)) + 1;
                   pd = pv AND NOT (PAGE_SIZE - 1);
                   s3 = mprotect_rwx e pd (if pv + 8 \<ge> pu then PAGE_SIZE * 2 else PAGE_SIZE) s2;
                   s4 = s3\<lparr>quick_on_stack_back := pv\<rparr>
               in case memcpy_code (ne_insns e) (replace_stub (ne_arch e)) s4 of
                    None \<Rightarrow> None
                  | Some s5 \<Rightarrow> install_back (ne_arch e) pv s5)
            else Some s1)
      else Some s)"

section \<open>The functions of the interface\<close>

text \<open>A call of the C function at an address with two word arguments, directly or through the
  stub: \<open>quick_on_stack_replace\<close> takes the two arguments, the fake return address and the
  function.\<close>

record ndk_calls =
  nc_call :: "uintptr \<Rightarrow> u32 \<Rightarrow> u32 \<Rightarrow> u32"
  nc_stub :: "uintptr \<Rightarrow> u32 \<Rightarrow> u32 \<Rightarrow> uintptr \<Rightarrow> uintptr \<Rightarrow> u32"
  nc_dlopen :: uintptr
  nc_dlclose :: uintptr
  nc_dlerror :: uintptr
  nc_dlsym :: uintptr
  nc_dladdr :: uintptr

definition ndk_dlopen :: "ndk_calls \<Rightarrow> ndk_state \<Rightarrow> uintptr \<Rightarrow> u32 \<Rightarrow> uintptr" where
  "ndk_dlopen c s filename flag =
     (if SDK_INT s \<ge> 24 then nc_stub c (generic_stub s) filename flag (quick_on_stack_back s) (nc_dlopen c)
      else nc_call c (nc_dlopen c) filename flag)"

definition ndk_dlclose :: "ndk_calls \<Rightarrow> ndk_state \<Rightarrow> uintptr \<Rightarrow> u32" where
  "ndk_dlclose c s handle =
     (if SDK_INT s \<ge> 24 then nc_stub c (generic_stub s) handle 0 (quick_on_stack_back s) (nc_dlclose c)
      else nc_call c (nc_dlclose c) handle 0)"

definition ndk_dlerror :: "ndk_calls \<Rightarrow> ndk_state \<Rightarrow> uintptr" where
  "ndk_dlerror c s =
     (if SDK_INT s \<ge> 24 then nc_stub c (generic_stub s) 0 0 (quick_on_stack_back s) (nc_dlerror c)
      else nc_call c (nc_dlerror c) 0 0)"

definition ndk_dlsym :: "ndk_calls \<Rightarrow> ndk_state \<Rightarrow> uintptr \<Rightarrow> uintptr \<Rightarrow> uintptr" where
  "ndk_dlsym c s handle symbol =
     (if SDK_INT s \<ge> 24 then nc_stub c (generic_stub s) handle symbol (quick_on_stack_back s) (nc_dlsym c)
      else nc_call c (nc_dlsym c) handle symbol)"

definition ndk_dladdr :: "ndk_calls \<Rightarrow> ndk_state \<Rightarrow> uintptr \<Rightarrow> uintptr \<Rightarrow> u32" where
  "ndk_dladdr c s ddr dinfo =
     (if SDK_INT s \<ge> 24 then nc_stub c (generic_stub s) ddr dinfo (quick_on_stack_back s) (nc_dladdr c)
      else nc_call c (nc_dladdr c) ddr dinfo)"

section \<open>The machine\<close>

text \<open>The registers that the stubs use (\<open>ra\<close> is \<open>eax\<close> or \<open>r0\<close>, \<open>rb\<close> is \<open>edx\<close> or \<open>r1\<close>) and the
  words of the stack. On \<open>arm\<close> the low bit of \<open>pc\<close> is the Thumb state.\<close>

record machine =
  ra :: u32
  rb :: u32
  r2 :: u32
  r3 :: u32
  lr :: u32
  sp :: u32
  pc :: u32
  stack :: "u32 \<Rightarrow> u32"

definition fetch :: "(u32 \<Rightarrow> u8) \<Rightarrow> u32 \<Rightarrow> nat \<Rightarrow> u8 list" where
  "fetch c a n = map (\<lambda>i. c (a + of_nat i)) [0..<n]"

definition push_word :: "u32 \<Rightarrow> machine \<Rightarrow> machine" where
  "push_word v m = m\<lparr>sp := sp m - 4, stack := (stack m)(sp m - 4 := v)\<rparr>"

definition x86_step :: "(u32 \<Rightarrow> u8) \<Rightarrow> machine \<Rightarrow> machine option" where
  "x86_step c m =
     (if fetch c (pc m) 3 = [0x8B, 0x44, 0x24] then
        Some (m\<lparr>ra := stack m (sp m + ucast (c (pc m + 3))), pc := pc m + 4\<rparr>)
      else if fetch c (pc m) 3 = [0x8B, 0x14, 0x24] then Some (m\<lparr>rb := stack m (sp m), pc := pc m + 3\<rparr>)
      else if fetch c (pc m) 3 = [0x89, 0x04, 0x24] then
        Some (m\<lparr>stack := (stack m)(sp m := ra m), pc := pc m + 3\<rparr>)
      else if fetch c (pc m) 3 = [0x89, 0x54, 0x24] then
        Some (m\<lparr>stack := (stack m)(sp m + ucast (c (pc m + 3)) := rb m), pc := pc m + 4\<rparr>)
      else if fetch c (pc m) 3 = [0xFF, 0x74, 0x24] then
        Some ((push_word (stack m (sp m + ucast (c (pc m + 3)))) m)\<lparr>pc := pc m + 4\<rparr>)
      else if c (pc m) = 0xC3 then Some (m\<lparr>sp := sp m + 4, pc := stack m (sp m)\<rparr>)
      else None)"

definition arm_step :: "(u32 \<Rightarrow> u8) \<Rightarrow> machine \<Rightarrow> machine option" where
  "arm_step c m =
     (if pc m AND 1 = 0 then
        (let w = fetch c (pc m) 4
         in if w = [0x04, 0xE0, 0x2D, 0xE5] then Some ((push_word (lr m) m)\<lparr>pc := pc m + 4\<rparr>)
            else if w = [0x02, 0xE0, 0xA0, 0xE1] then Some (m\<lparr>lr := r2 m, pc := pc m + 4\<rparr>)
            else if w = [0x04, 0x30, 0x9D, 0xE4] then Some (m\<lparr>r3 := stack m (sp m), sp := sp m + 4, pc := pc m + 4\<rparr>)
            else if w = [0x13, 0xFF, 0x2F, 0xE1] then Some (m\<lparr>pc := r3 m\<rparr>)
            else None)
      else
        (let w = fetch c (pc m - 1) 2
         in if w = [0x08, 0xBC] then Some (m\<lparr>r3 := stack m (sp m), sp := sp m + 4, pc := pc m + 2\<rparr>)
            else if w = [0x18, 0x47] then Some (m\<lparr>pc := r3 m\<rparr>)
            else None))"

definition step :: "arch \<Rightarrow> (u32 \<Rightarrow> u8) \<Rightarrow> machine \<Rightarrow> machine option" where
  "step ar = (case ar of I386 \<Rightarrow> x86_step | ARM \<Rightarrow> arm_step)"

text \<open>Run for a number of instructions.\<close>

fun run_n :: "arch \<Rightarrow> (u32 \<Rightarrow> u8) \<Rightarrow> nat \<Rightarrow> machine \<Rightarrow> machine option" where
  "run_n ar c 0 m = Some m"
| "run_n ar c (Suc n) m = (case step ar c m of None \<Rightarrow> None | Some m' \<Rightarrow> run_n ar c n m')"

text \<open>The calling convention: the machine just after a call of \<open>f\<close> with four arguments and
  return address \<open>ret\<close>, and what it means that a function returned.\<close>

definition called_with :: "arch \<Rightarrow> u32 \<Rightarrow> u32 \<Rightarrow> u32 \<Rightarrow> machine \<Rightarrow> bool" where
  "called_with ar ret a b m \<longleftrightarrow>
     (case ar of
        I386 \<Rightarrow> stack m (sp m) = ret \<and> stack m (sp m + 4) = a \<and> stack m (sp m + 8) = b
      | ARM \<Rightarrow> lr m = ret \<and> ra m = a \<and> rb m = b)"

definition called_with4 :: "arch \<Rightarrow> u32 \<Rightarrow> u32 \<Rightarrow> u32 \<Rightarrow> u32 \<Rightarrow> u32 \<Rightarrow> machine \<Rightarrow> bool" where
  "called_with4 ar ret a b x y m \<longleftrightarrow> called_with ar ret a b m
     \<and> (case ar of I386 \<Rightarrow> stack m (sp m + 12) = x \<and> stack m (sp m + 16) = y
                 | ARM \<Rightarrow> r2 m = x \<and> r3 m = y)"

text \<open>The stack pointer after a return: \<open>ret\<close> of \<open>i386\<close> pops the return address.\<close>

definition sp_after :: "arch \<Rightarrow> machine \<Rightarrow> u32" where
  "sp_after ar m = (case ar of I386 \<Rightarrow> sp m + 4 | ARM \<Rightarrow> sp m)"

text \<open>A function obeys the convention when it returns to its return address with its result,
  the stack pointer restored and the words at and above its caller's frame unchanged. The
  callee may write its own arguments' slots only below \<open>12\<close> bytes (two arguments).\<close>

definition returns_to :: "arch \<Rightarrow> machine \<Rightarrow> u32 \<Rightarrow> machine \<Rightarrow> bool" where
  "returns_to ar m v m' \<longleftrightarrow>
     ra m' = v \<and> sp m' = sp_after ar m
     \<and> pc m' = (case ar of I386 \<Rightarrow> stack m (sp m) | ARM \<Rightarrow> lr m)
     \<and> (case ar of I386 \<Rightarrow> stack m' (sp m + 12) = stack m (sp m + 12)
                 | ARM \<Rightarrow> stack m' (sp m) = stack m (sp m))"

section \<open>Code bytes\<close>

fun store_bytes :: "u32 \<Rightarrow> u8 list \<Rightarrow> (u32 \<Rightarrow> u8) \<Rightarrow> u32 \<Rightarrow> u8" where
  "store_bytes a [] c = c"
| "store_bytes a (b # bs) c = store_bytes (a + 1) bs (c(a := b))"

definition in_bytes :: "u32 \<Rightarrow> nat \<Rightarrow> u32 \<Rightarrow> bool" where
  "in_bytes a n x \<longleftrightarrow> unat (x - a) < n"

definition holds_bytes :: "(u32 \<Rightarrow> u8) \<Rightarrow> u32 \<Rightarrow> u8 list \<Rightarrow> bool" where
  "holds_bytes c a bs \<longleftrightarrow> (\<forall>i<length bs. c (a + of_nat i) = bs ! i)"

lemma memcpy_code_ok:
  assumes "\<And>i. i < length bs \<Longrightarrow> writable s (a + of_nat i)"
  shows "memcpy_code a bs s = Some (s\<lparr>code_mem := store_bytes a bs (code_mem s)\<rparr>)"
  using assms
proof (induction bs arbitrary: a s)
  case (Cons b bs)
  have "writable s (a + 1 + of_nat i)" if "i < length bs" for i
    using Cons(2) [of "Suc i"] that by (simp add: algebra_simps)
  then show ?case using Cons(1) [of "s\<lparr>code_mem := (code_mem s)(a := b)\<rparr>" "a + 1"] Cons(2) [of 0]
    by (simp add: fun_upd_def)
qed simp

lemma store_bytes_outside:
  "\<not> in_bytes a (length bs) x \<Longrightarrow> length bs < 2 ^ 32 \<Longrightarrow> store_bytes a bs c x = c x"
proof (induction bs arbitrary: a c)
  case (Cons b bs)
  have ne: "x \<noteq> a" using Cons(2) by (auto simp: in_bytes_def)
  then have "x - a \<noteq> 0" by simp
  then have "unat (x - (a + 1)) = unat (x - a) - 1"
    using unat_minus_one [of "x - a"] by (simp add: algebra_simps)
  then have "\<not> in_bytes (a + 1) (length bs) x" using Cons(2) by (auto simp: in_bytes_def)
  then show ?case using Cons ne by simp
qed simp

lemma store_bytes_holds: "length bs < 2 ^ 32 \<Longrightarrow> holds_bytes (store_bytes a bs c) a bs"
proof (induction bs arbitrary: a c)
  case (Cons b bs)
  have "store_bytes (a + 1) bs (c(a := b)) (a + of_nat i) = (b # bs) ! i" if i: "i < length (b # bs)" for i
  proof (cases i)
    case 0
    have "a - (a + 1) = - 1" by simp
    then have "unat (a - (a + 1)) = 2 ^ 32 - 1" by (simp add: unsigned_minus_1_eq_mask mask_eq_exp_minus_1)
    then have "\<not> in_bytes (a + 1) (length bs) a" using Cons(2) by (auto simp: in_bytes_def)
    then show ?thesis using 0 Cons(2) by (simp add: store_bytes_outside)
  next
    case (Suc j)
    then show ?thesis using Cons(1) [of "a + 1" "c(a := b)"] Cons(2) i
      by (auto simp: holds_bytes_def algebra_simps fun_upd_def)
  qed
  then show ?case by (simp add: holds_bytes_def)
qed (simp add: holds_bytes_def)

lemma in_bytes_offset: "i < n \<Longrightarrow> n < 2 ^ 32 \<Longrightarrow> in_bytes a n (a + of_nat i)"
  by (simp add: in_bytes_def unat_of_nat)

lemma store_bytes_keeps:
  assumes "holds_bytes c a bs" "\<And>x. in_bytes a (length bs) x \<Longrightarrow> \<not> in_bytes b (length cs) x"
    "length bs < 2 ^ 32" "length cs < 2 ^ 32"
  shows "holds_bytes (store_bytes b cs c) a bs"
  using assms by (auto simp: holds_bytes_def store_bytes_outside in_bytes_offset)

lemma fetch_holds:
  "holds_bytes c a bs \<Longrightarrow> k + n \<le> length bs \<Longrightarrow> fetch c (a + of_nat k) n = take n (drop k bs)"
  by (auto simp: fetch_def holds_bytes_def add.assoc simp flip: of_nat_add intro!: nth_equalityI)

lemma byte_holds: "holds_bytes c a bs \<Longrightarrow> k < length bs \<Longrightarrow> c (a + of_nat k) = bs ! k"
  by (simp add: holds_bytes_def)

section \<open>Page arithmetic\<close>

text \<open>The page arithmetic of \<open>ndk_init\<close>: the protected pages hold the bytes around \<open>pv\<close>.\<close>

lemma page_offset:
  fixes pv :: u32
  defines "pd \<equiv> pv AND NOT (PAGE_SIZE - 1)"
  shows "unat (pv - pd) = unat pv mod 4096"
proof -
  have m: "PAGE_SIZE - 1 = mask 12" by (simp add: mask_eq_exp_minus_1)
  have "unat pd = unat pv - unat pv mod 4096" unfolding pd_def m by (simp add: unat_and_not_mask)
  then show ?thesis using unat_sub [of pd pv] by (simp add: word_le_nat_alt)
qed

lemma page_end:
  fixes pv :: u32
  assumes "\<not> pv + 8 \<ge> (pv OR (PAGE_SIZE - 1)) + 1"
  shows "unat pv mod 4096 + 8 < 4096"
proof -
  have m: "PAGE_SIZE - 1 = mask 12" by (simp add: mask_eq_exp_minus_1)
  have b: "unat pv < 2 ^ 32" using unsigned_less [of pv, where 'a = nat] by simp
  define q r where "q = unat pv div 4096" "r = unat pv mod 4096"
  have qr: "unat pv = q * 4096 + r" "r < 4096" "q < 2 ^ 20" using b unfolding q_r_def by auto
  have "pv OR mask 12 = (pv AND NOT (mask 12)) OR mask 12" by (rule bit_word_eqI) (auto simp: bit_simps)
  also have "\<dots> = (pv AND NOT (mask 12)) + mask 12"
    by (rule disjunctive_add_eq_or [symmetric]) (rule bit_word_eqI, auto simp: bit_simps)
  finally have e: "(pv OR (PAGE_SIZE - 1)) + 1 = (pv AND NOT (mask 12)) + 4096"
    unfolding m by (simp add: mask_eq_exp_minus_1)
  have ud: "unat (pv AND NOT (mask 12)) = q * 4096" using qr by (simp add: unat_and_not_mask)
  have up: "unat ((pv OR (PAGE_SIZE - 1)) + 1) = (q * 4096 + 4096) mod 2 ^ 32"
    unfolding e by (simp add: unat_word_ariths ud)
  have u8: "unat (pv + 8) = (q * 4096 + r + 8) mod 2 ^ 32" using qr by (simp add: unat_word_ariths)
  have lt: "(q * 4096 + r + 8) mod 2 ^ 32 < (q * 4096 + 4096) mod 2 ^ 32"
    using assms unfolding word_le_nat_alt up u8 by simp
  show ?thesis
  proof (cases "q = 2 ^ 20 - 1")
    case True
    then show ?thesis using lt by simp
  next
    case False
    then have "q * 4096 + 4096 < 2 ^ 32" using qr(3) by simp
    moreover from this have "q * 4096 + r + 8 < 2 ^ 32 \<or> r + 8 \<ge> 4096" using qr by arith
    ultimately show ?thesis using lt qr
      by (cases "r + 8 < 4096") (auto simp: q_r_def [symmetric])
  qed
qed

section \<open>Initialisation\<close>

text \<open>Where the second stub is written, its bytes and its entry.\<close>

definition back_start :: "arch \<Rightarrow> uintptr \<Rightarrow> uintptr" where
  "back_start ar pv = (if ar = ARM \<and> pv AND 1 \<noteq> 0 then pv - 1 else pv)"

definition back_stub :: "arch \<Rightarrow> uintptr \<Rightarrow> u8 list" where
  "back_stub ar pv =
     (case ar of I386 \<Rightarrow> [0xC3, 0xFF, 0x74, 0x24, 0x08, 0xC3]
               | ARM \<Rightarrow> if pv AND 1 \<noteq> 0 then [0x08, 0xBC, 0x18, 0x47]
                        else [0x04, 0x30, 0x9D, 0xE4, 0x13, 0xFF, 0x2F, 0xE1])"

definition back_entry :: "arch \<Rightarrow> uintptr \<Rightarrow> uintptr" where
  "back_entry ar pv = (case ar of I386 \<Rightarrow> pv + 1 | ARM \<Rightarrow> pv)"

lemma mprotect_rwx_simps [simp]:
  "SDK_INT (mprotect_rwx e a n s) = SDK_INT s" "generic_stub (mprotect_rwx e a n s) = generic_stub s"
  "code_mem (mprotect_rwx e a n s) = code_mem s"
  "quick_on_stack_back (mprotect_rwx e a n s) = quick_on_stack_back s"
  by (auto simp: mprotect_rwx_def)

lemma writable_mprotect:
  "ne_mprotect_ok e a n \<Longrightarrow> writable (mprotect_rwx e a n s) x \<longleftrightarrow> unat (x - a) < unat n \<or> writable s x"
  by (auto simp: mprotect_rwx_def)

lemma even_unat_word: "even (unat (w::u32)) \<longleftrightarrow> even w"
  using bit_unsigned_iff [of w 0, where 'a = nat] by (simp add: bit_0)

lemma unat_plus_le: "unat ((x::u32) + y) \<le> unat x + unat y"
  unfolding unat_word_ariths by (rule mod_less_eq_dividend)

lemma unat_small: "i < 8 \<Longrightarrow> unat (of_nat i :: u32) = i"
  by (simp add: unat_of_nat)

lemma back_bytes_in_page:
  fixes pv :: u32
  defines "pd \<equiv> pv AND NOT (PAGE_SIZE - 1)"
  assumes "i < length (back_stub ar pv)"
  shows "unat (back_start ar pv + of_nat i - pd)
           < unat (if pv + 8 \<ge> (pv OR (PAGE_SIZE - 1)) + 1 then PAGE_SIZE * 2 else PAGE_SIZE)"
proof -
  define r where "r = unat pv mod 4096"
  have r: "unat (pv - pd) = r" "r < 4096" unfolding r_def pd_def by (rule page_offset, simp)
  have lim: "r + 8 < unat (if pv + 8 \<ge> (pv OR (PAGE_SIZE - 1)) + 1 then PAGE_SIZE * 2 else PAGE_SIZE)"
    using page_end [of pv] r(2) unfolding r_def by (auto simp del: not_le)
  have i: "i < 8" using assms(2) by (auto simp: back_stub_def split: arch.splits if_splits)
  have up: "unat (pv + of_nat i - pd) \<le> r + i"
  proof -
    have "pv + of_nat i - pd = (pv - pd) + of_nat i" by simp
    then show ?thesis using unat_plus_le [of "pv - pd" "of_nat i"] by (simp only: r(1) unat_small [OF i])
  qed
  show ?thesis
  proof (cases "ar = ARM \<and> pv AND 1 \<noteq> 0")
    case True
    then have "odd pv" by (metis and_one_eq even_iff_mod_2_eq_zero)
    then have "odd (unat pv)" by (simp add: even_unat_word)
    then have "odd r" unfolding r_def by (subst dvd_mod_iff) simp_all
    then have "r \<noteq> 0" by (cases r) auto
    then have "pv - pd \<noteq> 0" using r(1) by auto
    then have "unat (pv - pd - 1) = r - 1" using r(1) by (simp add: unat_minus_one)
    then have "unat ((pv - pd - 1) + of_nat i) \<le> r - 1 + i"
      using unat_plus_le [of "pv - pd - 1" "of_nat i"] by (simp only: unat_small [OF i])
    moreover have "back_start ar pv + of_nat i - pd = (pv - pd - 1) + of_nat i"
      using True by (simp add: back_start_def)
    ultimately have "unat (back_start ar pv + of_nat i - pd) \<le> r - 1 + i" by (simp only:)
    then show ?thesis using i by (intro less_trans [OF _ lim]) linarith
  next
    case False
    then have "unat (back_start ar pv + of_nat i - pd) \<le> r + i" using up by (auto simp: back_start_def)
    then show ?thesis using i by (intro less_trans [OF _ lim]) linarith
  qed
qed

lemma ndk_init_result:
  assumes "SDK_INT s \<le> 0" "24 \<le> ne_sdk e" "\<And>a n. ne_mprotect_ok e a n"
  obtains s' where "ndk_init e s = Some s'" "SDK_INT s' = ne_sdk e" "generic_stub s' = ne_insns e"
    "quick_on_stack_back s' = back_entry (ne_arch e) (ne_FatalError e)"
    "code_mem s' = store_bytes (back_start (ne_arch e) (ne_FatalError e)) (back_stub (ne_arch e) (ne_FatalError e))
                     (store_bytes (ne_insns e) (replace_stub (ne_arch e)) (code_mem s))"
proof -
  let ?pv = "ne_FatalError e" and ?ar = "ne_arch e"
  let ?pd = "?pv AND NOT (PAGE_SIZE - 1)"
  let ?n = "if ?pv + 8 \<ge> (?pv OR (PAGE_SIZE - 1)) + 1 then PAGE_SIZE * 2 else PAGE_SIZE"
  define s4 where "s4 = (mprotect_rwx e ?pd ?n (mprotect_rwx e (ne_insns e) PAGE_SIZE
      (s\<lparr>SDK_INT := ne_sdk e, generic_stub := ne_insns e\<rparr>)))\<lparr>quick_on_stack_back := ?pv\<rparr>"
  define s5 where "s5 = s4\<lparr>code_mem := store_bytes (ne_insns e) (replace_stub ?ar) (code_mem s4)\<rparr>"
  have w1: "writable s4 (ne_insns e + of_nat i)" if "i < length (replace_stub ?ar)" for i
    using that assms(3)
    by (auto simp: s4_def writable_mprotect stub_bytes unat_of_nat split: arch.splits)
  have m1: "memcpy_code (ne_insns e) (replace_stub ?ar) s4 = Some s5"
    unfolding s5_def using w1 by (rule memcpy_code_ok)
  have w2: "writable s5 (back_start ?ar ?pv + of_nat i)" if h: "i < length (back_stub ?ar ?pv)" for i
    using back_bytes_in_page [OF h] assms(3) by (simp add: s5_def s4_def writable_mprotect)
  have m2: "memcpy_code (back_start ?ar ?pv) (back_stub ?ar ?pv) s5
      = Some (s5\<lparr>code_mem := store_bytes (back_start ?ar ?pv) (back_stub ?ar ?pv) (code_mem s5)\<rparr>)"
    using w2 by (rule memcpy_code_ok)
  have q: "quick_on_stack_back s5 = ?pv" by (simp add: s5_def s4_def)
  have "install_back ?ar ?pv s5 =
      Some (s5\<lparr>code_mem := store_bytes (back_start ?ar ?pv) (back_stub ?ar ?pv) (code_mem s5),
               quick_on_stack_back := back_entry ?ar ?pv\<rparr>)"
    using m2 q by (cases ?ar)
      (simp_all add: install_back_defs back_start_def back_stub_def back_entry_def del: memcpy_code.simps store_bytes.simps split: if_splits)
  then have "ndk_init e s = Some (s5\<lparr>code_mem := store_bytes (back_start ?ar ?pv) (back_stub ?ar ?pv) (code_mem s5),
               quick_on_stack_back := back_entry ?ar ?pv\<rparr>)"
    using assms m1 by (simp add: ndk_init_def Let_def s4_def)
  then show thesis by (rule that) (auto simp: s5_def s4_def)
qed

section \<open>Running the stubs\<close>

lemma x86_step_simps:
  "fetch c (pc m) 3 = [0x8B, 0x44, 0x24] \<Longrightarrow>
     x86_step c m = Some (m\<lparr>ra := stack m (sp m + ucast (c (pc m + 3))), pc := pc m + 4\<rparr>)"
  "fetch c (pc m) 3 = [0x8B, 0x14, 0x24] \<Longrightarrow> x86_step c m = Some (m\<lparr>rb := stack m (sp m), pc := pc m + 3\<rparr>)"
  "fetch c (pc m) 3 = [0x89, 0x04, 0x24] \<Longrightarrow>
     x86_step c m = Some (m\<lparr>stack := (stack m)(sp m := ra m), pc := pc m + 3\<rparr>)"
  "fetch c (pc m) 3 = [0x89, 0x54, 0x24] \<Longrightarrow>
     x86_step c m = Some (m\<lparr>stack := (stack m)(sp m + ucast (c (pc m + 3)) := rb m), pc := pc m + 4\<rparr>)"
  "fetch c (pc m) 3 = [0xFF, 0x74, 0x24] \<Longrightarrow>
     x86_step c m = Some ((push_word (stack m (sp m + ucast (c (pc m + 3)))) m)\<lparr>pc := pc m + 4\<rparr>)"
  by (simp_all add: x86_step_def)

lemma x86_step_ret: "c (pc m) = 0xC3 \<Longrightarrow> x86_step c m = Some (m\<lparr>sp := sp m + 4, pc := stack m (sp m)\<rparr>)"
  by (auto simp: x86_step_def fetch_def upt_rec numeral_3_eq_3)

lemma x86_replace_run:
  assumes h: "holds_bytes c a (replace_stub I386)" and p: "pc m = a"
  defines "ret \<equiv> stack m (sp m)" and "x \<equiv> stack m (sp m + 12)" and "y \<equiv> stack m (sp m + 16)"
  obtains m' where "run_n I386 c 6 m = Some m'" "pc m' = y" "sp m' = sp m"
    "stack m' = (stack m)(sp m := x, sp m + 12 := ret, sp m - 4 := y)"
proof -
  have f: "fetch c a 3 = [0x8B, 0x44, 0x24]" "fetch c (a + 4) 3 = [0x8B, 0x14, 0x24]"
    "fetch c (a + 7) 3 = [0x89, 0x04, 0x24]" "fetch c (a + 10) 3 = [0x89, 0x54, 0x24]"
    "fetch c (a + 14) 3 = [0xFF, 0x74, 0x24]"
    using fetch_holds [OF h, of 0 3] fetch_holds [OF h, of 4 3] fetch_holds [OF h, of 7 3]
      fetch_holds [OF h, of 10 3] fetch_holds [OF h, of 14 3]
    by (simp_all add: stub_bytes)
  have b: "c (a + 3) = 0x0C" "c (a + 13) = 0x0C" "c (a + 17) = 0x10" "c (a + 18) = 0xC3"
    using byte_holds [OF h, of 3] byte_holds [OF h, of 13] byte_holds [OF h, of 17] byte_holds [OF h, of 18]
    by (simp_all add: stub_bytes)
  note b = b b [unfolded add.commute [of a]]
  let ?m1 = "m\<lparr>ra := x, pc := a + 4\<rparr>"
  let ?m2 = "?m1\<lparr>rb := ret, pc := a + 7\<rparr>"
  let ?m3 = "?m2\<lparr>stack := (stack m)(sp m := x), pc := a + 10\<rparr>"
  let ?m4 = "?m3\<lparr>stack := (stack m)(sp m := x, sp m + 12 := ret), pc := a + 14\<rparr>"
  let ?m5 = "?m4\<lparr>sp := sp m - 4, stack := (stack m)(sp m := x, sp m + 12 := ret, sp m - 4 := y), pc := a + 18\<rparr>"
  let ?m6 = "?m5\<lparr>sp := sp m, pc := y\<rparr>"
  have "x86_step c m = Some ?m1" by (subst x86_step_simps(1)) (simp_all add: f b p x_def)
  moreover have "x86_step c ?m1 = Some ?m2" by (subst x86_step_simps(2)) (simp_all add: f b p ret_def)
  moreover have "x86_step c ?m2 = Some ?m3" by (subst x86_step_simps(3)) (simp_all add: f b)
  moreover have "x86_step c ?m3 = Some ?m4" by (subst x86_step_simps(4)) (simp_all add: f b)
  moreover have "x86_step c ?m4 = Some ?m5" by (subst x86_step_simps(5)) (simp_all add: f b push_word_def y_def)
  moreover have "x86_step c ?m5 = Some ?m6" by (subst x86_step_ret) (simp_all add: f b)
  ultimately have "run_n I386 c 6 m = Some ?m6" by (simp add: eval_nat_numeral step_def)
  then show thesis by (rule that) simp_all
qed

lemma x86_back_run:
  assumes h: "holds_bytes c b [0xC3, 0xFF, 0x74, 0x24, 0x08, 0xC3]" and p: "pc m = b + 1"
  obtains m' where "run_n I386 c 2 m = Some m'" "pc m' = stack m (sp m + 8)" "sp m' = sp m" "ra m' = ra m"
proof -
  have f: "fetch c (b + 1) 3 = [0xFF, 0x74, 0x24]" using fetch_holds [OF h, of 1 3] by simp
  have b: "c (b + 4) = 8" "c (b + 5) = 0xC3" using byte_holds [OF h, of 4] byte_holds [OF h, of 5] by simp_all
  note b = b b [unfolded add.commute [of b]]
  let ?v = "stack m (sp m + 8)"
  let ?m1 = "m\<lparr>sp := sp m - 4, stack := (stack m)(sp m - 4 := ?v), pc := b + 5\<rparr>"
  have "x86_step c m = Some ?m1" by (subst x86_step_simps(5)) (simp_all add: f b p push_word_def)
  moreover have "x86_step c ?m1 = Some (?m1\<lparr>sp := sp m, pc := ?v\<rparr>)"
    by (subst x86_step_ret) (simp_all add: b)
  ultimately have "run_n I386 c 2 m = Some (?m1\<lparr>sp := sp m, pc := ?v\<rparr>)"
    by (simp add: eval_nat_numeral step_def)
  then show thesis by (rule that) simp_all
qed

lemma arm_replace_run:
  assumes h: "holds_bytes c a (replace_stub ARM)" and p: "pc m = a" and al: "a AND 3 = 0"
  obtains m' where "run_n ARM c 3 m = Some m'" "pc m' = r3 m" "sp m' = sp m - 4" "lr m' = r2 m"
    "ra m' = ra m" "rb m' = rb m" "stack m' = (stack m)(sp m - 4 := lr m)"
proof -
  have f: "fetch c a 4 = [0x04, 0xE0, 0x2D, 0xE5]" "fetch c (a + 4) 4 = [0x02, 0xE0, 0xA0, 0xE1]"
    "fetch c (a + 8) 4 = [0x13, 0xFF, 0x2F, 0xE1]"
    using fetch_holds [OF h, of 0 4] fetch_holds [OF h, of 4 4] fetch_holds [OF h, of 8 4]
    by (simp_all add: stub_bytes)
  have ev: "even a"
  proof -
    have "even (a AND 3)" using al by simp
    then show ?thesis by (simp add: even_and_iff)
  qed
  then have e: "a AND 1 = 0" "(a + 4) AND 1 = 0" "(a + 8) AND 1 = 0"
    by (simp_all add: and_one_eq flip: even_iff_mod_2_eq_zero)
  let ?m1 = "m\<lparr>sp := sp m - 4, stack := (stack m)(sp m - 4 := lr m), pc := a + 4\<rparr>"
  let ?m2 = "?m1\<lparr>lr := r2 m, pc := a + 8\<rparr>"
  have "arm_step c m = Some ?m1" by (simp add: arm_step_def p f e push_word_def)
  moreover have "arm_step c ?m1 = Some ?m2" by (simp add: arm_step_def f e)
  moreover have "arm_step c ?m2 = Some (?m2\<lparr>pc := r3 m\<rparr>)" by (simp add: arm_step_def f e)
  ultimately have "run_n ARM c 3 m = Some (?m2\<lparr>pc := r3 m\<rparr>)" by (simp add: numeral_3_eq_3 step_def)
  then show thesis by (rule that) simp_all
qed

lemma arm_back_run:
  assumes h: "holds_bytes c (back_start ARM b) (back_stub ARM b)" and p: "pc m = b"
  obtains m' where "run_n ARM c 2 m = Some m'" "pc m' = stack m (sp m)" "sp m' = sp m + 4" "ra m' = ra m"
proof (cases "b AND 1 = 0")
  case True
  then have f: "fetch c b 4 = [0x04, 0x30, 0x9D, 0xE4]" "fetch c (b + 4) 4 = [0x13, 0xFF, 0x2F, 0xE1]"
    using fetch_holds [OF h, of 0 4] fetch_holds [OF h, of 4 4] by (simp_all add: back_stub_def back_start_def)
  have e: "(b + 4) AND 1 = 0" using True by (simp add: and_one_eq flip: even_iff_mod_2_eq_zero)
  let ?m1 = "m\<lparr>r3 := stack m (sp m), sp := sp m + 4, pc := b + 4\<rparr>"
  have "arm_step c m = Some ?m1" by (simp add: arm_step_def p f True)
  moreover have "arm_step c ?m1 = Some (?m1\<lparr>pc := stack m (sp m)\<rparr>)" by (simp add: arm_step_def f e)
  ultimately have "run_n ARM c 2 m = Some (?m1\<lparr>pc := stack m (sp m)\<rparr>)" by (simp add: numeral_2_eq_2 step_def)
  then show thesis by (rule that) simp_all
next
  case False
  then have f: "fetch c (b - 1) 2 = [0x08, 0xBC]" "fetch c (b + 1) 2 = [0x18, 0x47]"
    using fetch_holds [OF h, of 0 2] fetch_holds [OF h, of 2 2]
    by (simp_all add: back_stub_def back_start_def algebra_simps)
  note f = f f(2) [unfolded add.commute [of b]]
  have e: "(b + 2) AND 1 \<noteq> 0" using False by (simp add: and_one_eq flip: even_iff_mod_2_eq_zero)
  let ?m1 = "m\<lparr>r3 := stack m (sp m), sp := sp m + 4, pc := b + 2\<rparr>"
  have "arm_step c m = Some ?m1" by (simp add: arm_step_def p f False)
  moreover have "arm_step c ?m1 = Some (?m1\<lparr>pc := stack m (sp m)\<rparr>)" by (simp add: arm_step_def f e)
  ultimately have "run_n ARM c 2 m = Some (?m1\<lparr>pc := stack m (sp m)\<rparr>)" by (simp add: numeral_2_eq_2 step_def)
  then show thesis by (rule that) simp_all
qed

text \<open>The bytes that the two stubs occupy are apart: \<open>__insns\<close> is not the page of \<open>FatalError\<close>.\<close>

definition ndk_layout_ok :: "ndk_env \<Rightarrow> bool" where
  "ndk_layout_ok e \<longleftrightarrow> ne_insns e AND 3 = 0
     \<and> unat (ne_insns e - (ne_FatalError e - 1)) \<ge> 9
     \<and> unat (ne_FatalError e - 1 - ne_insns e) \<ge> 19"

lemma in_bytes_apart:
  assumes "unat (a - (b - 1)) \<ge> 9" "unat (b - 1 - a) \<ge> 19" "in_bytes a n x" "n \<le> 19" "in_bytes b' k x"
    "b' = b \<or> b' = b - 1" "k \<le> 8"
  shows False
proof -
  have x: "unat (x - a) < 19" using assms(3,4) by (simp add: in_bytes_def)
  have "unat (x - (b - 1)) < 9"
  proof -
    have "unat (x - (b - 1)) \<le> unat (x - b) + 1"
      using unat_plus_le [of "x - b" 1] by (simp add: algebra_simps)
    then show ?thesis using assms(5-7) by (auto simp: in_bytes_def)
  qed
  moreover define u v where "u = x - a" and "v = x - (b - 1)"
  ultimately have uv: "unat u < 19" "unat v < 9" using x by simp_all
  have "v = u + (a - (b - 1))" "u = v + (b - 1 - a)" unfolding u_def v_def by simp_all
  show False
  proof (cases "u \<le> v")
    case True
    then have "unat (v - u) = unat v - unat u" by (simp add: unat_sub)
    moreover have "v - u = a - (b - 1)" unfolding u_def v_def by simp
    ultimately show False using assms(1) uv by simp
  next
    case False
    then have "unat (u - v) = unat u - unat v" by (simp add: unat_sub)
    moreover have "u - v = b - 1 - a" unfolding u_def v_def by simp
    ultimately show False using assms(2) uv by simp
  qed
qed

lemma ndk_stubs_in_place:
  assumes "SDK_INT s \<le> 0" "24 \<le> ne_sdk e" "\<And>a n. ne_mprotect_ok e a n" "ndk_layout_ok e"
  obtains s' where "ndk_init e s = Some s'" "SDK_INT s' = ne_sdk e" "generic_stub s' = ne_insns e"
    "quick_on_stack_back s' = back_entry (ne_arch e) (ne_FatalError e)"
    "holds_bytes (code_mem s') (ne_insns e) (replace_stub (ne_arch e))"
    "holds_bytes (code_mem s') (back_start (ne_arch e) (ne_FatalError e)) (back_stub (ne_arch e) (ne_FatalError e))"
proof -
  let ?ar = "ne_arch e" and ?b = "ne_FatalError e"
  obtain s' where s': "ndk_init e s = Some s'" "SDK_INT s' = ne_sdk e" "generic_stub s' = ne_insns e"
    "quick_on_stack_back s' = back_entry ?ar ?b"
    "code_mem s' = store_bytes (back_start ?ar ?b) (back_stub ?ar ?b)
                     (store_bytes (ne_insns e) (replace_stub ?ar) (code_mem s))"
    using ndk_init_result [OF assms(1-3)] by blast
  have len: "length (replace_stub ?ar) \<le> 19" "length (back_stub ?ar ?b) \<le> 8"
    by (auto simp: stub_bytes back_stub_def split: arch.splits)
  have h1: "holds_bytes (store_bytes (ne_insns e) (replace_stub ?ar) (code_mem s)) (ne_insns e) (replace_stub ?ar)"
    using len by (intro store_bytes_holds) simp
  have "holds_bytes (code_mem s') (ne_insns e) (replace_stub ?ar)"
    unfolding s'(5)
  proof (rule store_bytes_keeps [OF h1])
    show "\<not> in_bytes (back_start ?ar ?b) (length (back_stub ?ar ?b)) x"
      if "in_bytes (ne_insns e) (length (replace_stub ?ar)) x" for x
    proof
      assume "in_bytes (back_start ?ar ?b) (length (back_stub ?ar ?b)) x"
      then show False
        using assms(4) by (intro in_bytes_apart [OF _ _ that len(1) _ _ len(2)])
          (auto simp: ndk_layout_ok_def back_start_def split: if_splits)
    qed
  qed (use len in simp_all)
  moreover have "holds_bytes (code_mem s') (back_start ?ar ?b) (back_stub ?ar ?b)"
    unfolding s'(5) using len by (intro store_bytes_holds) simp
  ultimately show thesis using s' that by blast
qed

text \<open>A call through the stubs, with the convention of the instruction set.\<close>

lemma stub_call_run:
  assumes "holds_bytes c a (replace_stub ar)" "holds_bytes c (back_start ar b) (back_stub ar b)" "a AND 3 = 0"
    and "pc m = a" "called_with4 ar ret x y (back_entry ar b) f m"
  shows "\<exists>n m1. run_n ar c n m = Some m1 \<and> pc m1 = f \<and> called_with ar (back_entry ar b) x y m1
     \<and> (\<forall>v m2. returns_to ar m1 v m2 \<longrightarrow>
          (\<exists>k m3. run_n ar c k m2 = Some m3 \<and> pc m3 = ret \<and> ra m3 = v \<and> sp m3 = sp_after ar m))"
proof (cases ar)
  case I386
  have w: "stack m (sp m) = ret" "stack m (sp m + 4) = x" "stack m (sp m + 8) = y"
    "stack m (sp m + 12) = b + 1" "stack m (sp m + 16) = f"
    using assms(5) I386 by (auto simp: called_with4_def called_with_def back_entry_def)
  obtain m1 where m1: "run_n I386 c 6 m = Some m1" "pc m1 = f" "sp m1 = sp m"
    "stack m1 = (stack m)(sp m := b + 1, sp m + 12 := ret, sp m - 4 := f)"
    using x86_replace_run [of c a m] assms I386 w by auto
  have ne: "sp m + 4 \<noteq> sp m - 4" "sp m + 8 \<noteq> sp m - 4" "sp m + 12 \<noteq> sp m - 4" "sp m \<noteq> sp m - 4"
    by (simp_all add: eq_diff_eq add.assoc)
  have c1: "called_with I386 (b + 1) x y m1"
    using m1(3,4) w ne by (simp add: called_with_def)
  have "\<exists>k m3. run_n I386 c k m2 = Some m3 \<and> pc m3 = ret \<and> ra m3 = v \<and> sp m3 = sp m + 4"
    if r: "returns_to I386 m1 v m2" for v m2
  proof -
    have r2: "ra m2 = v" "sp m2 = sp m + 4" "pc m2 = b + 1" "stack m2 (sp m + 12) = ret"
      using r m1(3,4) ne by (simp_all add: returns_to_def sp_after_def)
    obtain m3 where "run_n I386 c 2 m2 = Some m3" "pc m3 = stack m2 (sp m2 + 8)" "sp m3 = sp m2" "ra m3 = ra m2"
      using x86_back_run [of c b m2] assms(2) I386 r2(3) by (auto simp: back_start_def back_stub_def)
    then show ?thesis using r2 by (auto simp: add.commute)
  qed
  then show ?thesis using m1(1,2) c1 I386 by (auto simp: back_entry_def sp_after_def)
next
  case ARM
  have w: "lr m = ret" "ra m = x" "rb m = y" "r2 m = b" "r3 m = f"
    using assms(5) ARM by (auto simp: called_with4_def called_with_def back_entry_def)
  obtain m1 where m1: "run_n ARM c 3 m = Some m1" "pc m1 = f" "sp m1 = sp m - 4" "lr m1 = b"
    "ra m1 = x" "rb m1 = y" "stack m1 = (stack m)(sp m - 4 := ret)"
    using arm_replace_run [of c a m] assms ARM w by auto
  have "\<exists>k m3. run_n ARM c k m2 = Some m3 \<and> pc m3 = ret \<and> ra m3 = v \<and> sp m3 = sp m"
    if r: "returns_to ARM m1 v m2" for v m2
  proof -
    have r2: "ra m2 = v" "sp m2 = sp m - 4" "pc m2 = b" "stack m2 (sp m - 4) = ret"
      using r m1(3,4,7) by (simp_all add: returns_to_def sp_after_def)
    obtain m3 where "run_n ARM c 2 m2 = Some m3" "pc m3 = stack m2 (sp m2)" "sp m3 = sp m2 + 4" "ra m3 = ra m2"
      using arm_back_run [of c b m2] assms(2) ARM r2(3) by blast
    then show ?thesis using r2 by auto
  qed
  moreover have "called_with ARM b x y m1" using m1 by (simp add: called_with_def)
  ultimately show ?thesis using m1(1,2) ARM by (auto simp: back_entry_def sp_after_def)
qed


text \<open>A concrete process: the page of the stub, a Thumb function near the end of its page.\<close>

definition ndk_demo :: "arch \<Rightarrow> ndk_env" where
  "ndk_demo ar = \<lparr>ne_arch = ar, ne_sdk = 26, ne_insns = 0x8000, ne_FatalError = 0x40000FFF,
                 ne_mprotect_ok = (\<lambda>_ _. True)\<rparr>"

definition ndk_start :: ndk_state where
  "ndk_start = \<lparr>SDK_INT = 0, generic_stub = 0, quick_on_stack_back = 0,
                code_mem = (\<lambda>_. 0), writable = (\<lambda>_. False)\<rparr>"

definition machine_demo :: machine where
  "machine_demo = \<lparr>ra = 0x1000, rb = 2, r2 = 0x40000FFF, r3 = 0x50000000, lr = 0x9001, sp = 0x7000,
     pc = 0x8000, stack = (\<lambda>_. 0)\<rparr>"

section \<open>Properties\<close>

text \<open>\<open>ndk_init\<close> never stores outside the pages it has made writable: wherever \<open>FatalError\<close>
  lies in its page, and in whichever state, the one or two pages it unprotects hold all bytes of
  the stub, so that the initialisation completes and leaves the stub and its entry ready.\<close>

theorem ndk_init_safe:
  assumes "SDK_INT s \<le> 0" "24 \<le> ne_sdk e" "\<And>a n. ne_mprotect_ok e a n"
  shows "\<exists>s'. ndk_init e s = Some s' \<and> SDK_INT s' = ne_sdk e \<and> generic_stub s' = ne_insns e
    \<and> quick_on_stack_back s' = (if ne_arch e = I386 then ne_FatalError e + 1 else ne_FatalError e)"
  by (rule ndk_init_result [OF assms], intro exI conjI, assumption+)
    (simp add: back_entry_def split: arch.splits)

theorem ndk_init_safe_witness:
  "\<exists>s'. ndk_init (ndk_demo ARM) ndk_start = Some s' \<and> quick_on_stack_back s' = 0x40000FFF"
  using ndk_init_safe [of ndk_start "ndk_demo ARM"] by (auto simp: ndk_start_def ndk_demo_def)

text \<open>C40. After \<open>ndk_init\<close>, calling \<open>quick_on_stack_replace\<close> with two arguments, the fake return
  address and a function runs the function with these arguments and with a return address inside
  \<open>FatalError\<close>; when the function returns, the code written there goes back to the original
  caller with the result and the stack pointer that a plain call leaves.\<close>

theorem ndk_call_through:
  assumes "SDK_INT s \<le> 0" "24 \<le> ne_sdk e" "\<And>a n. ne_mprotect_ok e a n" "ndk_layout_ok e"
    and "ndk_init e s = Some s'"
    and "pc m = generic_stub s'" "called_with4 (ne_arch e) ret x y (quick_on_stack_back s') f m"
  shows "\<exists>n m1. run_n (ne_arch e) (code_mem s') n m = Some m1
     \<and> pc m1 = f \<and> called_with (ne_arch e) (quick_on_stack_back s') x y m1
     \<and> (\<forall>v m2. returns_to (ne_arch e) m1 v m2 \<longrightarrow>
          (\<exists>k m3. run_n (ne_arch e) (code_mem s') k m2 = Some m3
             \<and> pc m3 = ret \<and> ra m3 = v \<and> sp m3 = sp_after (ne_arch e) m))"
proof -
  have s': "generic_stub s' = ne_insns e" "quick_on_stack_back s' = back_entry (ne_arch e) (ne_FatalError e)"
    "holds_bytes (code_mem s') (ne_insns e) (replace_stub (ne_arch e))"
    "holds_bytes (code_mem s') (back_start (ne_arch e) (ne_FatalError e)) (back_stub (ne_arch e) (ne_FatalError e))"
    using ndk_stubs_in_place [OF assms(1-4)] assms(5) by (metis option.inject)+
  show ?thesis
    using stub_call_run [OF s'(3,4)] assms(4,6,7) unfolding s'(1,2) ndk_layout_ok_def by blast
qed

theorem ndk_call_through_witness:
  "\<exists>s' n m1. ndk_init (ndk_demo ARM) ndk_start = Some s' \<and> run_n ARM (code_mem s') n machine_demo = Some m1
     \<and> pc m1 = 0x50000000 \<and> called_with ARM 0x40000FFF 0x1000 2 m1"
proof -
  obtain s' where s': "ndk_init (ndk_demo ARM) ndk_start = Some s'" "generic_stub s' = 0x8000"
    "quick_on_stack_back s' = 0x40000FFF"
    by (rule ndk_init_result [of ndk_start "ndk_demo ARM"]) (auto simp: ndk_start_def ndk_demo_def back_entry_def)
  have "ndk_layout_ok (ndk_demo ARM)" by (simp add: ndk_layout_ok_def ndk_demo_def)
  then show ?thesis
    using ndk_call_through [OF _ _ _ _ s'(1), where m = machine_demo and ret = "0x9001" and x = "0x1000" and y = 2 and f = "0x50000000"] s'
    by (auto simp: ndk_start_def ndk_demo_def machine_demo_def called_with4_def called_with_def)
qed

end
