(* ===== verification/Substrate.thy ===== *)
theory Substrate
  imports Prelude "HOL-Library.Monad_Syntax"
begin

text \<open>
  Common ground of the inline hooking of ARM code (\<open>Substrate/SubstrateHook.cpp\<close>): code memory,
  the permission to write it (\<open>SubstratePosixMemory.cpp\<close>), buffers for relocated code, and the
  instruction encodings of \<open>SubstrateARM.hpp\<close>.
\<close>

section \<open>Code memory\<close>

text \<open>Code is read and written in units of 16 and 32 bits at even addresses: \<open>hmem\<close> maps an even
  address to the halfword there. \<open>rwx\<close> are the addresses that may be written, \<open>maps\<close> the mapped
  buffers, the last one first.\<close>

record code_state =
  hmem :: "uintptr \<Rightarrow> u16"
  rwx :: "uintptr \<Rightarrow> bool"
  maps :: "(uintptr \<times> u32) list"

text \<open>The system: the page size, the answers of \<open>mprotect\<close> for writable code and for finished
  buffers, and the address that \<open>mmap\<close> gives to the next buffer of a length.\<close>

record code_env =
  ce_page :: u32
  ce_mprotect_ok :: "uintptr \<Rightarrow> u32 \<Rightarrow> bool"
  ce_mprotect_rx_ok :: "uintptr \<Rightarrow> u32 \<Rightarrow> bool"
  ce_mmap :: "(uintptr \<times> u32) list \<Rightarrow> u32 \<Rightarrow> uintptr option"

definition lo16 :: "u32 \<Rightarrow> u16" where "lo16 w = ucast w"
definition hi16 :: "u32 \<Rightarrow> u16" where "hi16 w = ucast (drop_bit 16 w)"
definition cat32 :: "u16 \<Rightarrow> u16 \<Rightarrow> u32" where "cat32 l h = ucast l OR push_bit 16 (ucast h)"

definition read32 :: "(uintptr \<Rightarrow> u16) \<Rightarrow> uintptr \<Rightarrow> u32" where
  "read32 m a = cat32 (m a) (m (a + 2))"

text \<open>Stores into code: \<open>None\<close> is the fault of a store to protected memory.\<close>

definition write16 :: "uintptr \<Rightarrow> u16 \<Rightarrow> code_state \<Rightarrow> code_state option" where
  "write16 a v s = (if rwx s a then Some (s\<lparr>hmem := (hmem s)(a := v)\<rparr>) else None)"

definition write32 :: "uintptr \<Rightarrow> u32 \<Rightarrow> code_state \<Rightarrow> code_state option" where
  "write32 a v s = Option.bind (write16 a (lo16 v) s) (write16 (a + 2) (hi16 v))"

fun write_all :: "uintptr \<Rightarrow> u16 list \<Rightarrow> code_state \<Rightarrow> code_state option" where
  "write_all a [] s = Some s"
| "write_all a (v # vs) s = Option.bind (write16 a v s) (write_all (a + 2) vs)"

fun store_code :: "uintptr \<Rightarrow> u16 list \<Rightarrow> (uintptr \<Rightarrow> u16) \<Rightarrow> uintptr \<Rightarrow> u16" where
  "store_code a [] m = m"
| "store_code a (v # vs) m = store_code (a + 2) vs (m(a := v))"

section \<open>SubstratePosixMemory.cpp\<close>

text \<open>\<open>SubstrateMemoryCreate\<close>: the pages of a range of code become writable; a failure is only
  logged. \<open>SubstrateMemoryRelease\<close> leaves them writable.\<close>

definition memory_base :: "code_env \<Rightarrow> uintptr \<Rightarrow> uintptr" where
  "memory_base e a = a div ce_page e * ce_page e"

definition memory_width :: "code_env \<Rightarrow> uintptr \<Rightarrow> u32 \<Rightarrow> u32" where
  "memory_width e a n = ((a + n - 1) div ce_page e + 1) * ce_page e - memory_base e a"

definition SubstrateMemoryCreate :: "code_env \<Rightarrow> uintptr \<Rightarrow> u32 \<Rightarrow> code_state \<Rightarrow> (uintptr \<times> u32) option \<times> code_state" where
  "SubstrateMemoryCreate e data n s =
     (if n = 0 then (None, s)
      else let base = memory_base e data; width = memory_width e data n
           in if \<not> ce_mprotect_ok e base width then (None, s)
              else (Some (base, width),
                    s\<lparr>rwx := (\<lambda>x. unat (x - base) < unat width \<or> rwx s x)\<rparr>))"

definition SubstrateMemoryRelease :: "code_env \<Rightarrow> uintptr \<times> u32 \<Rightarrow> code_state \<Rightarrow> code_state" where
  "SubstrateMemoryRelease e h s =
     (if \<not> ce_mprotect_ok e (fst h) (snd h) then s
      else s\<lparr>rwx := (\<lambda>x. unat (x - fst h) < unat (snd h) \<or> rwx s x)\<rparr>)"

text \<open>\<open>SubstrateHookMemory\<close>: the writes between its constructor and its destructor.\<close>

definition with_hook_memory ::
  "code_env \<Rightarrow> uintptr \<Rightarrow> u32 \<Rightarrow> (code_state \<Rightarrow> code_state option) \<Rightarrow> code_state \<Rightarrow> code_state option" where
  "with_hook_memory e a n body s =
     (case SubstrateMemoryCreate e a n s of
        (h, s1) \<Rightarrow>
          (case body s1 of
             None \<Rightarrow> None
           | Some s2 \<Rightarrow> Some (case h of None \<Rightarrow> s2 | Some h \<Rightarrow> SubstrateMemoryRelease e h s2)))"

section \<open>SubstrateARM.hpp\<close>

abbreviation "A_r0 \<equiv> (0::u32)"
abbreviation "A_r1 \<equiv> (1::u32)"
abbreviation "A_r6 \<equiv> (6::u32)"
abbreviation "A_r7 \<equiv> (7::u32)"
abbreviation "A_sp \<equiv> (13::u32)"
abbreviation "A_lr \<equiv> (14::u32)"
abbreviation "A_pc \<equiv> (15::u32)"
abbreviation "A_al \<equiv> (14::u32)"

text \<open>\<open>labs\<close> on the 32-bit \<open>long\<close> that the value of an expression converts to.\<close>

definition labs :: "int \<Rightarrow> u32" where
  "labs im = of_int (abs (sint (word_of_int im :: u32)))"

definition A_ldr_rd_rn_im :: "u32 \<Rightarrow> u32 \<Rightarrow> int \<Rightarrow> u32" where
  "A_ldr_rd_rn_im rd rn im =
     0xe5100000 OR (if im < 0 then 0 else push_bit 23 1) OR push_bit 16 rn OR push_bit 12 rd OR labs im"

definition A_ldmia_sp_rs :: "u32 \<Rightarrow> u32" where
  "A_ldmia_sp_rs rs = 0xe8b00000 OR push_bit 16 A_sp OR rs"

definition A_stmdb_sp_rs :: "u32 \<Rightarrow> u32" where
  "A_stmdb_sp_rs rs = 0xe9200000 OR push_bit 16 A_sp OR rs"

text \<open>\<open>ldr pc, [pc, #-4]\<close>, which jumps to the address in the next word.\<close>

abbreviation "A_jump \<equiv> A_ldr_rd_rn_im A_pc A_pc (4 - 8)"

lemma A_jump_eval [simp]: "A_ldr_rd_rn_im A_pc A_pc (- 4) = 0xe51ff004"
  by (simp add: A_ldr_rd_rn_im_def labs_def)

section \<open>Stores into code\<close>

lemma cat32_halves [simp]: "cat32 (lo16 w) (hi16 w) = w"
  unfolding cat32_def lo16_def hi16_def by (rule bit_word_eqI) (auto simp: bit_simps)

lemma store_code_outside:
  "2 * length vs \<le> unat (x - a) \<Longrightarrow> 2 * length vs < 2 ^ 32 \<Longrightarrow> store_code a vs m x = m x"
proof (induction vs arbitrary: a m)
  case (Cons v vs)
  have ge: "2 \<le> unat (x - a)" using Cons.prems(1) by simp
  then have "x \<noteq> a" by auto
  have "unat (x - (a + 2)) = unat (x - a) - 2"
    using ge unat_sub [of 2 "x - a"] by (simp add: word_le_nat_alt algebra_simps)
  then show ?case using Cons \<open>x \<noteq> a\<close> by (simp add: fun_upd_def)
qed simp

lemma store_code_nth:
  "i < length vs \<Longrightarrow> 2 * length vs < 2 ^ 32 \<Longrightarrow> store_code a vs m (a + 2 * of_nat i) = vs ! i"
proof (induction vs arbitrary: a m i)
  case (Cons v vs)
  show ?case
  proof (cases i)
    case 0
    have "a - (a + 2) = - 2" by simp
    then have "unat (a - (a + 2)) = 2 ^ 32 - 2" by simp
    then have "2 * length vs \<le> unat (a - (a + 2))" using Cons.prems(2) by simp
    then show ?thesis using 0 Cons.prems(2) by (simp add: store_code_outside)
  next
    case (Suc k)
    then show ?thesis using Cons.IH [of k "a + 2" "m(a := v)"] Cons.prems
      by (simp add: algebra_simps fun_upd_def)
  qed
qed simp

text \<open>The pages of \<open>SubstrateMemoryCreate\<close> cover the range.\<close>

lemma memory_covers:
  assumes "ce_page e = 4096" "i < n" "n \<le> 2 ^ 16" "unat a + n \<le> 2 ^ 32"
  shows "unat (a + of_nat i - memory_base e a) < unat (memory_width e a (of_nat n))"
  unfolding memory_base_def memory_width_def
  by (rule page_range_covers) (use assms in simp_all)

end
