(* ===== verification/SubstrateArm.thy ===== *)
theory SubstrateArm
  imports Substrate
begin

text \<open>
  Hooking a function of the ARM instruction set (\<open>SubstrateHookFunctionARM\<close> of
  \<open>Substrate/SubstrateHook.cpp\<close>): its first two instructions are moved into a buffer, where
  instructions that address memory relative to the program counter are rewritten, and replaced
  by a jump.
\<close>

section \<open>Fields of a load or store\<close>

definition A_pcrel_r :: "u32 \<Rightarrow> bool" where
  "A_pcrel_r ic \<longleftrightarrow> ic AND 0x0c000000 = 0x04000000 \<and> ic AND 0xf0000000 \<noteq> 0xf0000000 \<and> ic AND 0x000f0000 = 0x000f0000"

definition bits_rm :: "u32 \<Rightarrow> u32" where "bits_rm v = v AND 0xf"
definition bits_rd :: "u32 \<Rightarrow> u32" where "bits_rd v = drop_bit 12 v AND 0xf"
definition bits_mode :: "u32 \<Rightarrow> u32" where "bits_mode v = drop_bit 25 v AND 1"
definition set_rn :: "u32 \<Rightarrow> u32 \<Rightarrow> u32" where "set_rn v r = (v AND NOT 0x000f0000) OR push_bit 16 r"

section \<open>The size of the buffer\<close>

text \<open>\<open>>>\<close> binds stronger than \<open>&\<close>, so both sides of the comparison are the low four bits.\<close>

definition arm_extra :: "u32 \<Rightarrow> nat" where
  "arm_extra b =
     (if A_pcrel_r b
      then (if b AND 0x02000000 = 0 \<or> b AND drop_bit 12 0x0000f000 \<noteq> b AND 0x0000000f then 2 * 4 else 4 * 4)
      else 0)"

definition arm_length :: "u32 list \<Rightarrow> nat" where
  "arm_length backup = 8 + sum_list (map arm_extra backup) + 2 * 4"

section \<open>Relocation\<close>

text \<open>The buffer in words, the next free word \<open>start\<close>, the size \<open>end\<close> without the trailer, and
  the word \<open>trailer\<close> points to. A store outside the buffer is \<open>None\<close>.\<close>

record arm_buf =
  abuf :: "u32 list"
  astart :: nat
  aend :: nat
  atrailer :: nat

definition aput :: "nat \<Rightarrow> u32 \<Rightarrow> arm_buf \<Rightarrow> arm_buf option" where
  "aput i v s = (if i < length (abuf s) then Some (s\<lparr>abuf := (abuf s)[i := v]\<rparr>) else None)"

definition aput_next :: "u32 \<Rightarrow> arm_buf \<Rightarrow> arm_buf option" where
  "aput_next v s = map_option (\<lambda>s. s\<lparr>astart := astart s + 1\<rparr>) (aput (astart s) v s)"

definition atrail :: "u32 \<Rightarrow> arm_buf \<Rightarrow> arm_buf option" where
  "atrail v s =
     (if atrailer s = 0 then None
      else map_option (\<lambda>s. s\<lparr>atrailer := atrailer s - 1\<rparr>) (aput (atrailer s - 1) v s))"

definition arm_copy_rn :: "u32 \<Rightarrow> u32 \<times> bool" where
  "arm_copy_rn b =
     (if bits_mode b = 0 \<or> bits_rd b \<noteq> bits_rm b then (bits_rd b, False)
      else (if bits_rm b \<noteq> A_r0 then A_r0 else A_r1, True))"

definition arm_literal :: "arm_buf \<Rightarrow> int" where
  "arm_literal s = uint ((of_nat (aend s) - 1 - of_nat (astart s)) * 4 - 8 :: u32)"

definition arm_relocate_pcrel :: "uintptr \<Rightarrow> nat \<Rightarrow> u32 \<Rightarrow> arm_buf \<Rightarrow> arm_buf option" where
  "arm_relocate_pcrel area offset b s =
     (let (rn, guard) = arm_copy_rn b
      in do {
        s \<leftarrow> (if guard then aput_next (A_stmdb_sp_rs (push_bit (unat rn) 1)) s else Some s);
        s \<leftarrow> aput (astart s) (A_ldr_rd_rn_im rn A_pc (arm_literal s)) s;
        s \<leftarrow> aput (astart s + 1) (set_rn b rn) s;
        s \<leftarrow> Some (s\<lparr>astart := astart s + 2\<rparr>);
        s \<leftarrow> (if guard then aput_next (A_ldmia_sp_rs (push_bit (unat rn) 1)) s else Some s);
        s \<leftarrow> atrail (area + of_nat offset * 4 + 8) s;
        Some (s\<lparr>aend := aend s - 1\<rparr>)
      })"

fun arm_relocate :: "uintptr \<Rightarrow> nat \<Rightarrow> u32 list \<Rightarrow> arm_buf \<Rightarrow> arm_buf option" where
  "arm_relocate area offset [] s = Some s"
| "arm_relocate area offset (b # bs) s =
     Option.bind (if A_pcrel_r b then arm_relocate_pcrel area offset b s else aput_next b s)
       (arm_relocate area (offset + 1) bs)"

definition arm_finish :: "uintptr \<Rightarrow> arm_buf \<Rightarrow> arm_buf option" where
  "arm_finish area s = Option.bind (aput (astart s) A_jump s) (aput (astart s + 1) (area + 8))"

definition arm_buffer :: "uintptr \<Rightarrow> u32 list \<Rightarrow> u32 list option" where
  "arm_buffer area backup =
     (let n = arm_length backup div 4
      in map_option abuf (Option.bind
           (arm_relocate area 0 backup \<lparr>abuf = replicate n 0, astart = 0, aend = n, atrailer = n\<rparr>)
           (arm_finish area)))"

section \<open>The function\<close>

text \<open>Words as halfwords in memory, low half first.\<close>

fun halfwords :: "u32 list \<Rightarrow> u16 list" where
  "halfwords [] = []"
| "halfwords (w # ws) = lo16 w # hi16 w # halfwords ws"

text \<open>The patch of the function: a jump to the replacement.\<close>

definition arm_patch :: "uintptr \<Rightarrow> u32 \<Rightarrow> code_state \<Rightarrow> code_state option" where
  "arm_patch arm replace s = Option.bind (write32 arm A_jump s) (write32 (arm + 4) replace)"

text \<open>The function with a caller that passes \<open>result\<close> or not; the second component is what is
  stored there. \<open>None\<close> is a crash.\<close>

definition SubstrateHookFunctionARM ::
  "code_env \<Rightarrow> uintptr \<Rightarrow> uintptr \<Rightarrow> bool \<Rightarrow> code_state \<Rightarrow> (nat \<times> uintptr option \<times> code_state) option" where
  "SubstrateHookFunctionARM e symbol replace want_result s =
     (if symbol = 0 then Some (0, None, s)
      else let used = 8; backup = [read32 (hmem s) symbol, read32 (hmem s) (symbol + 4)];
               patch = (\<lambda>r s. map_option (\<lambda>s. (used, r, s))
                          (with_hook_memory e symbol (of_nat used) (arm_patch symbol replace) s))
           in if \<not> want_result then patch None s
              else if backup ! 0 = A_jump then Some (4, Some (backup ! 1), s)
              else let len = of_nat (arm_length backup)
                   in case ce_mmap e (maps s) len of
                        None \<Rightarrow> Some (0, Some 0, s)
                      | Some buffer \<Rightarrow>
                          (let s1 = s\<lparr>maps := (buffer, len) # maps s\<rparr>
                           in case arm_buffer symbol backup of
                                None \<Rightarrow> None
                              | Some ws \<Rightarrow>
                                  (let s2 = s1\<lparr>hmem := store_code buffer (halfwords ws) (hmem s1)\<rparr>
                                   in if \<not> ce_mprotect_rx_ok e buffer len
                                      then Some (0, Some 0, s2\<lparr>maps := removeAll (buffer, len) (maps s2)\<rparr>)
                                      else patch (Some buffer) s2)))"

section \<open>The buffer is never overrun\<close>

lemma bits_mode_iff: "bits_mode b = 0 \<longleftrightarrow> b AND 0x02000000 = 0"
proof -
  have "bits_mode b = 0 \<longleftrightarrow> \<not> bit b 25"
    by (simp add: bits_mode_def and_one_eq bit_iff_odd_drop_bit flip: even_iff_mod_2_eq_zero)
  moreover have "(0x02000000::u32) = push_bit 25 1" by simp
  then have "b AND 0x02000000 = 0 \<longleftrightarrow> \<not> bit b 25"
    by (metis and_exp_eq_0_iff_not_bit push_bit_eq_mult mult_1)
  ultimately show ?thesis by simp
qed

lemma arm_extra_eq: "arm_extra b = (if A_pcrel_r b then if bits_mode b = 0 then 8 else 16 else 0)"
  by (simp add: arm_extra_def bits_mode_iff)

text \<open>The words that the relocation of an instruction takes from the buffer.\<close>

definition arm_need :: "u32 \<Rightarrow> nat" where
  "arm_need b = (if A_pcrel_r b then if snd (arm_copy_rn b) then 5 else 3 else 1)"

lemma arm_need_le: "arm_need b \<le> 1 + arm_extra b div 4"
  by (simp add: arm_need_def arm_extra_eq arm_copy_rn_def)

definition arm_room :: "nat \<Rightarrow> nat \<Rightarrow> arm_buf \<Rightarrow> bool" where
  "arm_room n k s \<longleftrightarrow> length (abuf s) = n \<and> atrailer s = aend s \<and> aend s \<le> n \<and> astart s + k \<le> aend s"

text \<open>What the relocation of a list of instructions leaves in the buffer between two positions.\<close>

fun arm_code :: "u32 list \<Rightarrow> uintptr \<Rightarrow> nat \<Rightarrow> u32 list \<Rightarrow> nat \<Rightarrow> nat \<Rightarrow> nat \<Rightarrow> bool" where
  "arm_code ws area off [] i j i' \<longleftrightarrow> i' = i"
| "arm_code ws area off (b # bs) i j i' \<longleftrightarrow>
     (if \<not> A_pcrel_r b then ws ! i = b \<and> arm_code ws area (off + 1) bs (i + 1) j i'
      else let rn = fst (arm_copy_rn b);
               lit = (\<lambda>i. uint ((of_nat j - 1 - of_nat i) * 4 - 8 :: u32))
           in ws ! (j - 1) = area + of_nat off * 4 + 8
              \<and> (if snd (arm_copy_rn b)
                 then ws ! i = A_stmdb_sp_rs (push_bit (unat rn) 1)
                      \<and> ws ! (i + 1) = A_ldr_rd_rn_im rn A_pc (lit (i + 1))
                      \<and> ws ! (i + 2) = set_rn b rn
                      \<and> ws ! (i + 3) = A_ldmia_sp_rs (push_bit (unat rn) 1)
                      \<and> arm_code ws area (off + 1) bs (i + 4) (j - 1) i'
                 else ws ! i = A_ldr_rd_rn_im rn A_pc (lit i) \<and> ws ! (i + 1) = set_rn b rn
                      \<and> arm_code ws area (off + 1) bs (i + 2) (j - 1) i'))"

text \<open>One instruction.\<close>

lemma arm_relocate_pcrel_ok:
  assumes "arm_room n (arm_need b + k) s" "A_pcrel_r b"
  obtains s' where "arm_relocate_pcrel area off b s = Some s'" "arm_room n k s'"
    "aend s' = aend s - 1" "astart s' = astart s + (if snd (arm_copy_rn b) then 4 else 2)"
    "\<And>i. i < astart s \<or> aend s \<le> i \<Longrightarrow> abuf s' ! i = abuf s ! i"
    "abuf s' ! (aend s - 1) = area + of_nat off * 4 + 8"
    "if snd (arm_copy_rn b)
     then abuf s' ! astart s = A_stmdb_sp_rs (push_bit (unat (fst (arm_copy_rn b))) 1)
       \<and> abuf s' ! (astart s + 1) = A_ldr_rd_rn_im (fst (arm_copy_rn b)) A_pc
            (uint ((of_nat (aend s) - 1 - of_nat (astart s + 1)) * 4 - 8 :: u32))
       \<and> abuf s' ! (astart s + 2) = set_rn b (fst (arm_copy_rn b))
       \<and> abuf s' ! (astart s + 3) = A_ldmia_sp_rs (push_bit (unat (fst (arm_copy_rn b))) 1)
     else abuf s' ! astart s = A_ldr_rd_rn_im (fst (arm_copy_rn b)) A_pc
            (uint ((of_nat (aend s) - 1 - of_nat (astart s)) * 4 - 8 :: u32))
       \<and> abuf s' ! (astart s + 1) = set_rn b (fst (arm_copy_rn b))"
proof -
  obtain rn guard where c: "arm_copy_rn b = (rn, guard)" by (cases "arm_copy_rn b")
  have l: "length (abuf s) = n" "atrailer s = aend s" "aend s \<le> n"
    using assms(1) by (auto simp: arm_room_def)
  show thesis
  proof (cases guard)
    case True
    then have r: "astart s + 5 + k \<le> aend s" using assms c by (auto simp: arm_room_def arm_need_def)
    let ?s' = "s\<lparr>abuf := (abuf s)[astart s := A_stmdb_sp_rs (push_bit (unat rn) 1),
        astart s + 1 := A_ldr_rd_rn_im rn A_pc (uint ((of_nat (aend s) - 1 - of_nat (astart s + 1)) * 4 - 8 :: u32)),
        astart s + 2 := set_rn b rn, astart s + 3 := A_ldmia_sp_rs (push_bit (unat rn) 1),
        aend s - 1 := area + of_nat off * 4 + 8],
      astart := astart s + 4, atrailer := aend s - 1, aend := aend s - 1\<rparr>"
    have "arm_relocate_pcrel area off b s = Some ?s'"
      using r l by (simp add: arm_relocate_pcrel_def c True aput_next_def aput_def atrail_def arm_literal_def numeral_eq_Suc)
    then show thesis
      by (rule that) (use r l in \<open>auto simp: c True arm_room_def nth_list_update\<close>)
  next
    case False
    then have r: "astart s + 3 + k \<le> aend s" using assms c by (auto simp: arm_room_def arm_need_def)
    let ?s' = "s\<lparr>abuf := (abuf s)[
        astart s := A_ldr_rd_rn_im rn A_pc (uint ((of_nat (aend s) - 1 - of_nat (astart s)) * 4 - 8 :: u32)),
        astart s + 1 := set_rn b rn, aend s - 1 := area + of_nat off * 4 + 8],
      astart := astart s + 2, atrailer := aend s - 1, aend := aend s - 1\<rparr>"
    have "arm_relocate_pcrel area off b s = Some ?s'"
      using r l by (simp add: arm_relocate_pcrel_def c False aput_next_def aput_def atrail_def arm_literal_def)
    then show thesis
      by (rule that) (use r l in \<open>auto simp: c False arm_room_def nth_list_update\<close>)
  qed
qed

lemma aput_next_ok:
  assumes "arm_room n (Suc k) s"
  shows "aput_next v s = Some (s\<lparr>abuf := (abuf s)[astart s := v], astart := astart s + 1\<rparr>)"
    "arm_room n k (s\<lparr>abuf := (abuf s)[astart s := v], astart := astart s + 1\<rparr>)"
  using assms by (auto simp: aput_next_def aput_def arm_room_def)

lemma arm_relocate_ok:
  assumes "arm_room n (sum_list (map arm_need bs) + k) s"
  shows "\<exists>s'. arm_relocate area off bs s = Some s' \<and> arm_room n k s'
     \<and> (\<forall>ws. (\<forall>i. i < astart s' \<or> aend s' \<le> i \<longrightarrow> ws ! i = abuf s' ! i)
            \<longrightarrow> arm_code ws area off bs (astart s) (aend s) (astart s'))
     \<and> (\<forall>i. i < astart s \<or> aend s \<le> i \<longrightarrow> abuf s' ! i = abuf s ! i)
     \<and> astart s \<le> astart s' \<and> aend s' \<le> aend s"
  using assms
proof (induction bs arbitrary: off s)
  case (Cons b bs)
  show ?case
  proof (cases "A_pcrel_r b")
    case False
    define s1 where "s1 = s\<lparr>abuf := (abuf s)[astart s := b], astart := astart s + 1\<rparr>"
    have f: "astart s1 = astart s + 1" "aend s1 = aend s" "abuf s1 = (abuf s)[astart s := b]"
      by (simp_all add: s1_def)
    have s1: "aput_next b s = Some s1" "arm_room n (sum_list (map arm_need bs) + k) s1"
      using aput_next_ok [of n "sum_list (map arm_need bs) + k" s b] Cons.prems False
      by (simp_all add: arm_need_def [of b] s1_def)
    from Cons.IH [OF s1(2), of "off + 1", unfolded f] obtain s' where
      s': "arm_relocate area (off + 1) bs s1 = Some s'" "arm_room n k s'"
      "\<forall>ws. (\<forall>i. i < astart s' \<or> aend s' \<le> i \<longrightarrow> ws ! i = abuf s' ! i)
         \<longrightarrow> arm_code ws area (off + 1) bs (astart s + 1) (aend s) (astart s')"
      "\<forall>i. i < astart s + 1 \<or> aend s \<le> i \<longrightarrow> abuf s' ! i = (abuf s)[astart s := b] ! i"
      "astart s + 1 \<le> astart s'" "aend s' \<le> aend s"
      by (elim exE conjE)
    note s' = s'(1,2) s'(3,4) [rule_format] s'(5,6)
    have l: "astart s < length (abuf s)" "astart s < aend s"
      using Cons.prems False by (auto simp: arm_room_def arm_need_def)
    have "abuf s' ! astart s = b" using s'(4) [of "astart s"] l by simp
    then have "arm_code ws area off (b # bs) (astart s) (aend s) (astart s')"
      if h: "\<And>i. i < astart s' \<or> aend s' \<le> i \<Longrightarrow> ws ! i = abuf s' ! i" for ws
      using s'(3) [OF h] h [of "astart s"] s'(5) False by simp
    moreover have "abuf s' ! i = abuf s ! i" if "i < astart s \<or> aend s \<le> i" for i
      using s'(4) [of i] that l by auto
    ultimately show ?thesis using s'(1,2,5,6) s1(1) False by (auto simp del: arm_code.simps)
  next
    case True
    have "arm_room n (arm_need b + (sum_list (map arm_need bs) + k)) s" using Cons.prems by (simp add: add.assoc)
    from arm_relocate_pcrel_ok [OF this True, of area off] obtain s1 where s1:
      "arm_relocate_pcrel area off b s = Some s1" "arm_room n (sum_list (map arm_need bs) + k) s1"
      "aend s1 = aend s - 1" "astart s1 = astart s + (if snd (arm_copy_rn b) then 4 else 2)"
      "\<And>i. i < astart s \<or> aend s \<le> i \<Longrightarrow> abuf s1 ! i = abuf s ! i"
      "abuf s1 ! (aend s - 1) = area + of_nat off * 4 + 8"
      and words: "if snd (arm_copy_rn b)
       then abuf s1 ! astart s = A_stmdb_sp_rs (push_bit (unat (fst (arm_copy_rn b))) 1)
         \<and> abuf s1 ! (astart s + 1) = A_ldr_rd_rn_im (fst (arm_copy_rn b)) A_pc
              (uint ((of_nat (aend s) - 1 - of_nat (astart s + 1)) * 4 - 8 :: u32))
         \<and> abuf s1 ! (astart s + 2) = set_rn b (fst (arm_copy_rn b))
         \<and> abuf s1 ! (astart s + 3) = A_ldmia_sp_rs (push_bit (unat (fst (arm_copy_rn b))) 1)
       else abuf s1 ! astart s = A_ldr_rd_rn_im (fst (arm_copy_rn b)) A_pc
              (uint ((of_nat (aend s) - 1 - of_nat (astart s)) * 4 - 8 :: u32))
         \<and> abuf s1 ! (astart s + 1) = set_rn b (fst (arm_copy_rn b))"
      by blast
    from Cons.IH [OF s1(2), of "off + 1"] obtain s' where s': "arm_relocate area (off + 1) bs s1 = Some s'"
      "arm_room n k s'"
      "\<forall>ws. (\<forall>i. i < astart s' \<or> aend s' \<le> i \<longrightarrow> ws ! i = abuf s' ! i)
         \<longrightarrow> arm_code ws area (off + 1) bs (astart s1) (aend s1) (astart s')"
      "\<forall>i. i < astart s1 \<or> aend s1 \<le> i \<longrightarrow> abuf s' ! i = abuf s1 ! i"
      "astart s1 \<le> astart s'" "aend s' \<le> aend s1"
      by (elim exE conjE)
    note s' = s'(1,2) s'(3,4) [rule_format] s'(5,6)
    have "arm_code ws area off (b # bs) (astart s) (aend s) (astart s')"
      if ws: "\<And>i. i < astart s' \<or> aend s' \<le> i \<Longrightarrow> ws ! i = abuf s' ! i" for ws
    proof -
      have "ws ! i = abuf s1 ! i" if "i < astart s1 \<or> aend s - 1 \<le> i" for i
        using ws [of i] s'(4) [of i] that s1(3) s'(5,6) by auto
      then show ?thesis using words s1(3,4,6) s'(3) [OF ws] True by (auto simp: Let_def split: if_splits)
    qed
    moreover have "abuf s' ! i = abuf s ! i" if "i < astart s \<or> aend s \<le> i" for i
    proof -
      have "i < astart s1 \<or> aend s1 \<le> i" using that s1(3,4) by auto
      then show ?thesis using s'(4) [of i] s1(5) [of i] that by simp
    qed
    ultimately show ?thesis using s'(1,2,5,6) s1(1,3,4) True by (auto simp del: arm_code.simps)
  qed
qed auto

lemma arm_need_sum: "sum_list (map arm_need bs) \<le> length bs + sum_list (map arm_extra bs) div 4"
proof (induction bs)
  case (Cons b bs)
  moreover have "arm_extra b = arm_extra b div 4 * 4" by (simp add: arm_extra_eq)
  ultimately show ?case using arm_need_le [of b] by simp
qed simp

lemma arm_buffer_ok:
  assumes "length backup = 2"
  obtains ws i where "arm_buffer area backup = Some ws" "length ws = arm_length backup div 4"
    "arm_code ws area 0 backup 0 (length ws) i" "ws ! i = A_jump" "ws ! (i + 1) = area + 8" "i + 2 \<le> length ws"
proof -
  define n where "n = arm_length backup div 4"
  let ?s = "\<lparr>abuf = replicate n 0, astart = 0, aend = n, atrailer = n\<rparr>"
  have n: "n = 2 + (sum_list (map arm_extra backup)) div 4 + 2" by (simp add: n_def arm_length_def)
  have room: "arm_room n (sum_list (map arm_need backup) + 2) ?s"
    using arm_need_sum [of backup] assms by (simp add: arm_room_def n)
  from arm_relocate_ok [OF room, of area 0, unfolded arm_buf.simps] obtain s' where
    s': "arm_relocate area 0 backup ?s = Some s'" "arm_room n 2 s'"
    "\<forall>ws. (\<forall>i. i < astart s' \<or> aend s' \<le> i \<longrightarrow> ws ! i = abuf s' ! i) \<longrightarrow> arm_code ws area 0 backup 0 n (astart s')"
    by (elim exE conjE)
  note s' = s'(1,2) s'(3) [rule_format]
  let ?ws = "(abuf s')[astart s' := A_jump, astart s' + 1 := area + 8]"
  have l: "astart s' + 2 \<le> n" "length (abuf s') = n" using s'(2) by (auto simp: arm_room_def)
  have "arm_finish area s' = Some (s'\<lparr>abuf := ?ws\<rparr>)" using l by (simp add: arm_finish_def aput_def)
  then have b: "arm_buffer area backup = Some ?ws" using s'(1) by (simp add: arm_buffer_def n_def)
  have "arm_code ?ws area 0 backup 0 n (astart s')"
    by (rule s'(3)) (use s'(2) in \<open>auto simp: arm_room_def\<close>)
  then show thesis using b l by (intro that [of ?ws "astart s'"]) (auto simp: n_def nth_list_update)
qed

section \<open>Executing relocated code\<close>

text \<open>The part of the instruction set that the relocation rewrites: unconditional word loads with
  an immediate or a left-shifted register offset, without write-back, whose target is not the
  program counter.\<close>

record arm_machine =
  areg :: "u32 \<Rightarrow> u32"
  amem :: "uintptr \<Rightarrow> u16"

definition is_ldr :: "u32 \<Rightarrow> bool" where
  "is_ldr b \<longleftrightarrow> b AND 0xf0000000 = 0xe0000000 \<and> b AND 0x0c000000 = 0x04000000 \<and> b AND 0x01000000 \<noteq> 0
     \<and> b AND 0x00200000 = 0 \<and> b AND 0x00400000 = 0 \<and> b AND 0x00100000 \<noteq> 0 \<and> bits_rd b \<noteq> A_pc
     \<and> (bits_mode b = 0 \<or> b AND 0x70 = 0 \<and> bits_rm b \<noteq> A_pc)"

definition ldr_rn :: "u32 \<Rightarrow> u32" where "ldr_rn b = drop_bit 16 b AND 0xf"

definition ldr_base :: "u32 \<Rightarrow> uintptr \<Rightarrow> arm_machine \<Rightarrow> u32" where
  "ldr_base b p m = (if ldr_rn b = A_pc then p + 8 else areg m (ldr_rn b))"

definition ldr_offset :: "u32 \<Rightarrow> arm_machine \<Rightarrow> u32" where
  "ldr_offset b m =
     (if bits_mode b = 0 then b AND 0xfff else push_bit (unat (drop_bit 7 b AND 0x1f)) (areg m (bits_rm b)))"

definition ldr_addr :: "u32 \<Rightarrow> uintptr \<Rightarrow> arm_machine \<Rightarrow> u32" where
  "ldr_addr b p m =
     (if b AND 0x00800000 \<noteq> 0 then ldr_base b p m + ldr_offset b m else ldr_base b p m - ldr_offset b m)"

definition exec_ldr :: "u32 \<Rightarrow> uintptr \<Rightarrow> arm_machine \<Rightarrow> arm_machine" where
  "exec_ldr b p m = m\<lparr>areg := (areg m)(bits_rd b := read32 (amem m) (ldr_addr b p m))\<rparr>"

text \<open>Other instructions are a parameter.\<close>

type_synonym arm_other = "u32 \<Rightarrow> uintptr \<Rightarrow> arm_machine \<Rightarrow> arm_machine option"

definition exec_arm :: "arm_other \<Rightarrow> u32 \<Rightarrow> uintptr \<Rightarrow> arm_machine \<Rightarrow> arm_machine option" where
  "exec_arm other b p m = (if is_ldr b then Some (exec_ldr b p m) else other b p m)"

text \<open>The original instructions in their place, and a number of instructions of memory.\<close>

fun arm_straight :: "arm_other \<Rightarrow> uintptr \<Rightarrow> u32 list \<Rightarrow> arm_machine \<Rightarrow> arm_machine option" where
  "arm_straight other p [] m = Some m"
| "arm_straight other p (b # bs) m = Option.bind (exec_arm other b p m) (arm_straight other (p + 4) bs)"

fun arm_run :: "arm_other \<Rightarrow> nat \<Rightarrow> uintptr \<Rightarrow> arm_machine \<Rightarrow> (uintptr \<times> arm_machine) option" where
  "arm_run other 0 p m = Some (p, m)"
| "arm_run other (Suc n) p m =
     (let w = read32 (amem m) p
      in if w = A_jump then arm_run other n (read32 (amem m) (p + 4)) m
         else Option.bind (exec_arm other w p m) (arm_run other n (p + 4)))"

definition holds_words :: "(uintptr \<Rightarrow> u16) \<Rightarrow> uintptr \<Rightarrow> u32 list \<Rightarrow> bool" where
  "holds_words m a ws \<longleftrightarrow> (\<forall>i<length ws. read32 m (a + 4 * of_nat i) = ws ! i)"

lemma not_and_absorb:
  fixes m f :: "'a::len word"
  assumes "m AND f = 0"
  shows "NOT f AND m = m"
proof (rule bit_word_eqI)
  fix n
  assume "n < LENGTH('a)"
  moreover have "\<not> (bit m n \<and> bit f n)" using assms by (metis bit_and_iff bit_0_eq bot_apply bot_bool_def)
  ultimately show "bit (NOT f AND m) n \<longleftrightarrow> bit m n" by (auto simp: bit_simps)
qed

lemma and_absorb: "x = x AND f \<Longrightarrow> x AND m = x AND (f AND m)" for x :: "'a::len word"
  using and.assoc [of x f m] by simp

lemma set_rn_and:
  assumes m: "0x000f0000 AND m = 0" and r: "r < 16"
  shows "set_rn b r AND m = b AND m"
proof -
  have "r = r AND mask 4" using r by (simp add: word_unat_eq_iff unat_and_mask word_less_nat_alt)
  then have "push_bit 16 r = push_bit 16 r AND push_bit 16 (mask 4)" by (metis push_bit_and)
  moreover have "push_bit 16 (mask 4) = (0x000f0000::u32)" by (simp add: mask_eq_exp_minus_1)
  ultimately have "push_bit 16 r = push_bit 16 r AND 0x000f0000" by (simp only:)
  from and_absorb [OF this, of m] have p: "push_bit 16 r AND m = 0" unfolding m by (simp only: and_zero_eq)
  have "NOT 0x000f0000 AND m = m" using m by (intro not_and_absorb) (simp only: and.commute)
  then show ?thesis unfolding set_rn_def by (simp only: bit.conj_disj_distrib2 and.assoc p or.right_neutral)
qed

lemma reg_mask: "r < 16 \<Longrightarrow> r = r AND (0xf::u32)"
proof -
  assume "r < 16"
  then have "r = r AND mask 4" by (simp add: word_unat_eq_iff unat_and_mask word_less_nat_alt)
  then show ?thesis by (simp add: mask_eq_exp_minus_1)
qed

lemma mask_numeral_12: "mask 12 = (0xfff::u32)" by (simp add: mask_eq_exp_minus_1)

text \<open>The literal load that the relocation emits, field by field.\<close>

lemma ldr_literal_and:
  fixes r l m :: u32
  assumes "r < 16" "l < 4096"
  shows "(0xe59f0000 OR push_bit 12 r OR l) AND m
    = (0xe59f0000 AND m) OR (push_bit 12 r AND (0xf000 AND m)) OR (l AND (0xfff AND m))"
proof -
  have "push_bit 12 r = push_bit 12 (r AND 0xf)" using reg_mask [OF assms(1)] by simp
  also have "\<dots> = push_bit 12 r AND 0xf000" by (simp add: push_bit_and)
  finally have r: "push_bit 12 r AND m = push_bit 12 r AND (0xf000 AND m)" by (rule and_absorb)
  have "l = l AND mask 12" using assms(2) by (simp add: word_unat_eq_iff unat_and_mask word_less_nat_alt)
  then have l: "l AND m = l AND (0xfff AND m)" unfolding mask_numeral_12 by (rule and_absorb)
  show ?thesis by (simp only: bit.conj_disj_distrib2 r l)
qed

lemma labs_small: "k < 2 ^ 31 \<Longrightarrow> labs (int k) = of_nat k"
proof -
  assume k: "k < 2 ^ 31"
  have "sint (word_of_int (int k) :: u32) = int k"
    using k by (simp add: sint_sbintrunc' signed_take_bit_int_eq_self del: of_int_of_nat_eq)
  then show ?thesis unfolding labs_def by (simp only: abs_of_nat of_int_of_nat_eq)
qed

lemma ldr_literal_word:
  assumes "k < 4096"
  shows "A_ldr_rd_rn_im r A_pc (int k) = 0xe59f0000 OR push_bit 12 r OR of_nat k"
proof -
  have "(0xe5100000 OR push_bit 23 1) OR push_bit 16 A_pc = 0xe59f0000" by simp
  moreover have "labs (int k) = of_nat k" "\<not> int k < 0" using assms by (simp_all add: labs_small)
  ultimately show ?thesis unfolding A_ldr_rd_rn_im_def by (simp only: or.assoc [symmetric] if_False)
qed

lemma drop_and: "drop_bit a v AND n = drop_bit a (v AND push_bit a n)" for v n :: u32
  by (rule bit_word_eqI) (auto simp: bit_simps dest: bit_imp_le_length)

lemma exec_literal:
  assumes "r < 15" "k < 4096"
  defines "w \<equiv> A_ldr_rd_rn_im r A_pc (int k)"
  shows "w \<noteq> A_jump" "exec_arm other w p m = Some (m\<lparr>areg := (areg m)(r := read32 (amem m) (p + 8 + of_nat k))\<rparr>)"
proof -
  have l: "(of_nat k :: u32) < 4096" using assms(2) by (simp add: word_less_nat_alt unat_of_nat)
  have r16: "r < 16" using assms(1) by (simp add: word_less_nat_alt)
  note f = ldr_literal_and [OF r16 l]
  have w: "w = 0xe59f0000 OR push_bit 12 r OR of_nat k" unfolding w_def using ldr_literal_word [OF assms(2)] .
  have rm: "r AND 0xf = r" using reg_mask [OF r16] by simp
  have k: "of_nat k AND (0xfff::u32) = of_nat k"
  proof -
    have "of_nat k = (of_nat k AND mask 12 :: u32)"
      using l by (simp add: word_unat_eq_iff unat_and_mask word_less_nat_alt)
    then show ?thesis unfolding mask_numeral_12 by (rule sym)
  qed
  have rd: "bits_rd w = r"
  proof -
    have "bits_rd w = drop_bit 12 (push_bit 12 r AND 0xf000)" unfolding bits_rd_def drop_and w by (simp add: f)
    also have "(0xf000::u32) = push_bit 12 (mask 4)" by (simp add: mask_eq_exp_minus_1)
    also have "drop_bit 12 (push_bit 12 r AND push_bit 12 (mask 4)) = r AND mask 4"
      by (rule bit_word_eqI) (auto simp: bit_simps)
    also have "mask 4 = (0xf::u32)" by (simp add: mask_eq_exp_minus_1)
    finally show ?thesis using rm by simp
  qed
  have rn: "ldr_rn w = A_pc" unfolding ldr_rn_def drop_and w by (simp add: f)
  have mode: "bits_mode w = 0" unfolding bits_mode_def drop_and w by (simp add: f)
  have u: "w AND 0x00800000 \<noteq> 0" unfolding w by (simp add: f)
  have im: "w AND 0xfff = of_nat k" unfolding w using k by (simp add: f)
  have "w AND 0xf0000000 = 0xe0000000" "w AND 0x0c000000 = 0x04000000" "w AND 0x01000000 \<noteq> 0"
    "w AND 0x00200000 = 0" "w AND 0x00400000 = 0" "w AND 0x00100000 \<noteq> 0"
    unfolding w by (simp_all add: f)
  then have "is_ldr w" using assms(1) by (auto simp: is_ldr_def rd mode)
  then show "exec_arm other w p m = Some (m\<lparr>areg := (areg m)(r := read32 (amem m) (p + 8 + of_nat k))\<rparr>)"
    using u by (simp add: exec_arm_def exec_ldr_def rd ldr_addr_def ldr_base_def rn ldr_offset_def mode im)
  show "w \<noteq> A_jump"
  proof
    assume "w = A_jump"
    then have "w AND 0x00800000 = 0" by simp
    then show False using u by simp
  qed
qed


lemma ldr_rn_set_rn: "r < 16 \<Longrightarrow> ldr_rn (set_rn b r) = r"
proof -
  assume r: "r < 16"
  have f: "(0xf::u32) = mask 4" by (simp add: mask_eq_exp_minus_1)
  have g: "(0x000f0000::u32) = push_bit 16 (mask 4)" by (simp add: mask_eq_exp_minus_1)
  have "ldr_rn (set_rn b r) = r AND mask 4"
    unfolding ldr_rn_def set_rn_def f g by (rule bit_word_eqI) (auto simp: bit_simps)
  then show ?thesis using reg_mask [OF r] f by simp
qed

lemma exec_copy:
  assumes b: "is_ldr b" "A_pcrel_r b" "\<not> snd (arm_copy_rn b)"
    and m': "m' = m\<lparr>areg := (areg m)(bits_rd b := p + 8)\<rparr>"
  defines "w \<equiv> set_rn b (bits_rd b)"
  shows "w \<noteq> A_jump" "exec_arm other w q m' = Some (exec_ldr b p m)"
proof -
  have rd: "bits_rd b < 16" "bits_rd b \<noteq> A_pc"
    using b(1) by (auto simp: is_ldr_def bits_rd_def word_less_nat_alt unat_and_mask [of _ 4, simplified mask_eq_exp_minus_1, simplified])
  note f = set_rn_and [OF _ rd(1), of _ b, folded w_def]
  have fields: "bits_rd w = bits_rd b" "bits_mode w = bits_mode b" "bits_rm w = bits_rm b"
    "drop_bit 7 w AND 0x1f = drop_bit 7 b AND 0x1f" "w AND 0xfff = b AND 0xfff" "w AND 0x00800000 = b AND 0x00800000"
    unfolding bits_rd_def bits_mode_def bits_rm_def drop_and by (simp_all add: f)
  have rn: "ldr_rn w = bits_rd b" unfolding w_def using rd(1) by (rule ldr_rn_set_rn)
  have rnb: "ldr_rn b = A_pc" using b(2) unfolding A_pcrel_r_def ldr_rn_def drop_and by simp
  have "w AND 0xf0000000 = b AND 0xf0000000" "w AND 0x0c000000 = b AND 0x0c000000" "w AND 0x01000000 = b AND 0x01000000"
    "w AND 0x00200000 = b AND 0x00200000" "w AND 0x00400000 = b AND 0x00400000" "w AND 0x00100000 = b AND 0x00100000"
    "w AND 0x70 = b AND 0x70"
    by (simp_all add: f)
  then have "is_ldr w" using b(1) by (simp add: is_ldr_def fields)
  moreover have "bits_mode b = 0 \<or> bits_rd b \<noteq> bits_rm b"
    using b(3) by (auto simp: arm_copy_rn_def split: if_splits)
  ultimately show "exec_arm other w q m' = Some (exec_ldr b p m)"
    using rd(2) by (auto simp: exec_arm_def exec_ldr_def fields ldr_addr_def ldr_base_def ldr_offset_def rn rnb m')
  have "bits_rd A_jump = A_pc" by (simp add: bits_rd_def)
  then show "w \<noteq> A_jump" using fields(1) rd(2) by metis
qed

lemma literal_distance:
  assumes "i + 3 \<le> j" "j \<le> 12"
  defines "k \<equiv> 4 * (j - 1 - i) - 8"
  shows "uint ((of_nat j - 1 - of_nat i) * 4 - 8 :: u32) = int k" "k < 4096"
    "(a + 4 * of_nat i) + 8 + of_nat k = a + 4 * (of_nat (j - 1) :: u32)"
proof -
  have e: "(of_nat j - 1 - of_nat i :: u32) = of_nat (j - 1 - i)"
    using assms(1) by (simp add: of_nat_diff)
  have "(of_nat (j - 1 - i) * 4 - 8 :: u32) = of_nat k"
    using assms(1) by (simp add: k_def of_nat_diff algebra_simps)
  moreover have k: "k < 4096" using assms by (simp add: k_def)
  ultimately show "uint ((of_nat j - 1 - of_nat i) * 4 - 8 :: u32) = int k"
    unfolding e by (simp add: uint_nat unat_of_nat)
  show "k < 4096" by (rule k)
  have "of_nat k + 8 = (of_nat (4 * (j - 1 - i)) :: u32)"
    using assms(1) by (simp add: k_def of_nat_diff)
  also have "\<dots> = 4 * of_nat (j - 1) - 4 * of_nat i" using assms(1) by (simp add: of_nat_diff algebra_simps)
  finally show "(a + 4 * of_nat i) + 8 + of_nat k = a + 4 * (of_nat (j - 1) :: u32)" by (simp add: algebra_simps)
qed

text \<open>Instructions that may be moved: the loads of the relocation that need no scratch register,
  and instructions that do not read the program counter and do not change the buffer.\<close>

definition movable :: "arm_other \<Rightarrow> uintptr \<Rightarrow> u32 list \<Rightarrow> u32 \<Rightarrow> bool" where
  "movable other buf ws b \<longleftrightarrow>
     (if A_pcrel_r b then is_ldr b \<and> \<not> snd (arm_copy_rn b)
      else b \<noteq> A_jump \<and> (\<forall>p q m. exec_arm other b p m = exec_arm other b q m)
        \<and> (\<forall>p m m'. exec_arm other b p m = Some m' \<longrightarrow> holds_words (amem m) buf ws \<longrightarrow> holds_words (amem m') buf ws))"

definition arm_steps :: "u32 \<Rightarrow> nat" where
  "arm_steps b = (if A_pcrel_r b then 2 else 1)"

lemma holds_word: "holds_words m a ws \<Longrightarrow> i < length ws \<Longrightarrow> read32 m (a + 4 * of_nat i) = ws ! i"
  by (simp add: holds_words_def)

lemma arm_code_runs:
  assumes "arm_code ws area off bs i j i'" "i + sum_list (map arm_need bs) + 2 \<le> j" "j \<le> length ws" "length ws \<le> 12"
    and "holds_words (amem m) buf ws" "\<forall>b \<in> set bs. movable other buf ws b"
    and "\<And>m'. holds_words (amem m') buf ws \<Longrightarrow> arm_run other n (buf + 4 * of_nat i') m' = Some (q, m')"
  shows "arm_run other (sum_list (map arm_steps bs) + n) (buf + 4 * of_nat i) m
    = map_option (Pair q) (arm_straight other (area + 4 * of_nat off) bs m)"
  using assms
proof (induction bs arbitrary: off i j m)
  case Nil
  then show ?case by simp
next
  case (Cons b bs)
  let ?p = "buf + 4 * of_nat i"
  have mv: "movable other buf ws b" "\<forall>b \<in> set bs. movable other buf ws b" using Cons.prems(6) by simp_all
  show ?case
  proof (cases "A_pcrel_r b")
    case False
    have c: "ws ! i = b" "arm_code ws area (off + 1) bs (i + 1) j i'" using Cons.prems(1) False by simp_all
    have i: "i < length ws" "i + 1 + sum_list (map arm_need bs) + 2 \<le> j"
      using Cons.prems(2,3) False by (simp_all add: arm_need_def [of b])
    have w: "read32 (amem m) ?p = b" using holds_word [OF Cons.prems(5) i(1)] c(1) by simp
    have nb: "b \<noteq> A_jump" using mv(1) False by (simp add: movable_def)
    have ex: "exec_arm other b ?p m = exec_arm other b (area + 4 * of_nat off) m"
      using mv(1) False unfolding movable_def by (metis (no_types))
    have "arm_run other (Suc (sum_list (map arm_steps bs) + n)) ?p m
      = Option.bind (exec_arm other b ?p m) (arm_run other (sum_list (map arm_steps bs) + n) (?p + 4))"
      using w nb by (simp only: arm_run.simps Let_def if_False)
    also have "\<dots> = Option.bind (exec_arm other b (area + 4 * of_nat off) m)
        (\<lambda>m'. map_option (Pair q) (arm_straight other (area + 4 * of_nat off + 4) bs m'))"
    proof (cases "exec_arm other b (area + 4 * of_nat off) m")
      case (Some m')
      then have "holds_words (amem m') buf ws" using mv(1) False Cons.prems(5) unfolding movable_def by (metis (no_types))
      from Cons.IH [OF c(2) i(2) Cons.prems(3,4) this mv(2) Cons.prems(7)] show ?thesis
        using Some ex by (simp add: algebra_simps)
    qed (simp add: ex)
    also have "\<dots> = map_option (Pair q) (arm_straight other (area + 4 * of_nat off) (b # bs) m)"
      by (cases "exec_arm other b (area + 4 * of_nat off) m") simp_all
    finally show ?thesis using False by (simp add: arm_steps_def [of b])
  next
    case True
    let ?k = "4 * (j - 1 - i) - 8" and ?r = "bits_rd b" and ?a = "area + of_nat off * 4 + 8"
    have ok: "is_ldr b" "\<not> snd (arm_copy_rn b)" using mv(1) True by (auto simp: movable_def)
    then have r: "fst (arm_copy_rn b) = ?r" by (auto simp: arm_copy_rn_def split: if_splits)
    have ij: "i + 5 + sum_list (map arm_need bs) \<le> j"
      using Cons.prems(2) True ok(2) by (simp add: arm_need_def [of b])
    have j12: "j \<le> 12" using Cons.prems(3,4) by simp
    have i3: "i + 3 \<le> j" using ij by simp
    note lit = literal_distance [OF i3 j12]
    have c: "ws ! (j - 1) = ?a" "ws ! i = A_ldr_rd_rn_im ?r A_pc (int ?k)" "ws ! (i + 1) = set_rn b ?r"
      "arm_code ws area (off + 1) bs (i + 2) (j - 1) i'"
      using Cons.prems(1) [unfolded arm_code.simps Let_def r lit(1)] True ok(2) by simp_all
    have rd: "?r < 15"
    proof -
      have "?r \<noteq> A_pc" using ok(1) by (simp add: is_ldr_def)
      moreover have "?r < 16"
        by (simp add: bits_rd_def word_less_nat_alt unat_and_mask [of _ 4, simplified mask_eq_exp_minus_1, simplified])
      ultimately show ?thesis by (simp add: word_less_nat_alt word_unat_eq_iff)
    qed
    let ?m1 = "m\<lparr>areg := (areg m)(?r := ?a)\<rparr>"
    let ?m2 = "exec_ldr b (area + 4 * of_nat off) m"
    have lt: "i < length ws" "i + 1 < length ws" "j - 1 < length ws" using ij Cons.prems(3) by auto
    note w1 = holds_word [OF Cons.prems(5) lt(1), unfolded c(2)]
    have v: "read32 (amem m) (?p + 8 + of_nat ?k) = ?a"
      unfolding lit(3) using holds_word [OF Cons.prems(5) lt(3)] c(1) by simp
    note e1 = exec_literal [OF rd lit(2)]
    have w2: "read32 (amem ?m1) (?p + 4) = set_rn b ?r"
      using holds_word [OF Cons.prems(5) lt(2)] c(3) by (simp add: algebra_simps)
    have e2: "set_rn b ?r \<noteq> A_jump" "exec_arm other (set_rn b ?r) (?p + 4) ?m1 = Some ?m2"
      using exec_copy [OF ok(1) True ok(2), of ?m1 m "area + 4 * of_nat off"]
      by (simp_all add: algebra_simps)
    have "holds_words (amem ?m2) buf ws" using Cons.prems(5) by (simp add: exec_ldr_def)
    from Cons.IH [OF c(4) _ _ Cons.prems(4) this mv(2) Cons.prems(7)] ij Cons.prems(3)
    have ih: "arm_run other (sum_list (map arm_steps bs) + n) (buf + 4 * of_nat (i + 2)) ?m2
      = map_option (Pair q) (arm_straight other (area + 4 * of_nat (off + 1)) bs ?m2)" by simp
    have "arm_run other (Suc (Suc (sum_list (map arm_steps bs) + n))) ?p m
        = arm_run other (Suc (sum_list (map arm_steps bs) + n)) (?p + 4) ?m1"
      using w1 e1 v by (simp only: arm_run.simps(2) [of other "Suc (sum_list (map arm_steps bs) + n)" ?p m] Let_def if_False Option.bind_lunit) 
    also have "\<dots> = arm_run other (sum_list (map arm_steps bs) + n) (?p + 4 + 4) ?m2"
      using w2 e2 by (simp only: arm_run.simps Let_def if_False Option.bind_lunit)
    also have "?p + 4 + 4 = buf + 4 * of_nat (i + 2)" by (simp add: algebra_simps)
    also note ih
    also have "map_option (Pair q) (arm_straight other (area + 4 * of_nat (off + 1)) bs ?m2)
        = map_option (Pair q) (arm_straight other (area + 4 * of_nat off) (b # bs) m)"
      using ok(1) by (simp add: exec_arm_def algebra_simps)
    finally show ?thesis using True by (simp add: arm_steps_def [of b])
  qed
qed

section \<open>Code in memory\<close>

lemma with_hook_memory_ok:
  assumes "ce_page e = 4096" "\<And>a n. ce_mprotect_ok e a n" "0 < n" "n \<le> 2 ^ 16" "unat a + n \<le> 2 ^ 32"
    and body: "\<And>s1. hmem s1 = hmem s \<Longrightarrow> (\<And>i. i < n \<Longrightarrow> rwx s1 (a + of_nat i))
      \<Longrightarrow> body s1 = Some (s1\<lparr>hmem := f (hmem s1)\<rparr>)"
  shows "\<exists>s'. with_hook_memory e a (of_nat n) body s = Some s' \<and> hmem s' = f (hmem s) \<and> maps s' = maps s"
proof -
  let ?h = "(memory_base e a, memory_width e a (of_nat n))"
  let ?s1 = "s\<lparr>rwx := (\<lambda>x. unat (x - fst ?h) < unat (snd ?h) \<or> rwx s x)\<rparr>"
  have "(of_nat n :: u32) \<noteq> 0" using assms(3,4) by (simp add: word_unat_eq_iff unat_of_nat)
  then have c: "SubstrateMemoryCreate e a (of_nat n) s = (Some ?h, ?s1)"
    using assms(2) by (simp add: SubstrateMemoryCreate_def Let_def)
  have "body ?s1 = Some (?s1\<lparr>hmem := f (hmem ?s1)\<rparr>)"
    using memory_covers [OF assms(1) _ assms(4,5)] by (intro body) simp_all
  then show ?thesis using assms(2) by (simp add: with_hook_memory_def c SubstrateMemoryRelease_def)
qed

lemma arm_patch_ok:
  assumes "\<And>i. i < 8 \<Longrightarrow> rwx s (a + of_nat i)"
  shows "arm_patch a replace s = Some (s\<lparr>hmem := store_code a (halfwords [A_jump, replace]) (hmem s)\<rparr>)"
  using assms [of 0] assms [of 2] assms [of 4] assms [of 6]
  by (simp add: arm_patch_def write32_def write16_def add.assoc)

lemma length_halfwords [simp]: "length (halfwords ws) = 2 * length ws"
  by (induction ws) auto

lemma nth_halfwords: "i < length ws \<Longrightarrow> halfwords ws ! (2 * i) = lo16 (ws ! i) \<and> halfwords ws ! (2 * i + 1) = hi16 (ws ! i)"
proof (induction ws arbitrary: i)
  case (Cons w ws)
  then show ?case by (cases i) auto
qed simp

lemma holds_words_stored:
  assumes "4 * length ws < 2 ^ 32"
  shows "holds_words (store_code a (halfwords ws) m) a ws"
  unfolding holds_words_def
proof (intro allI impI)
  fix i
  assume i: "i < length ws"
  have "store_code a (halfwords ws) m (a + 2 * of_nat (2 * i)) = lo16 (ws ! i)"
    "store_code a (halfwords ws) m (a + 2 * of_nat (2 * i + 1)) = hi16 (ws ! i)"
    using nth_halfwords [OF i] i assms
      store_code_nth [of "2 * i" "halfwords ws" a m] store_code_nth [of "2 * i + 1" "halfwords ws" a m]
    by simp_all
  then show "read32 (store_code a (halfwords ws) m) (a + 4 * of_nat i) = ws ! i"
    by (simp add: read32_def algebra_simps)
qed

text \<open>Two ranges of code without a common byte.\<close>

definition apart :: "uintptr \<Rightarrow> nat \<Rightarrow> uintptr \<Rightarrow> nat \<Rightarrow> bool" where
  "apart a n b k \<longleftrightarrow> n \<le> unat (b - a) \<and> k \<le> unat (a - b)"

lemma apart_outside:
  assumes "apart a n b k" "unat (x - a) < n" "n < 2 ^ 31" "k < 2 ^ 31"
  shows "k \<le> unat (x - b)"
proof (rule ccontr)
  assume h: "\<not> k \<le> unat (x - b)"
  show False
  proof (cases "x - a \<le> x - b")
    case True
    then have "unat ((x - b) - (x - a)) = unat (x - b) - unat (x - a)" by (rule unat_sub)
    then have "unat (a - b) = unat (x - b) - unat (x - a)" by simp
    then show False using assms(1) h unfolding apart_def by linarith
  next
    case False
    then have "unat ((x - a) - (x - b)) = unat (x - a) - unat (x - b)" by (intro unat_sub) simp
    then have "unat (b - a) = unat (x - a) - unat (x - b)" by simp
    then show False using assms(1,2) unfolding apart_def by linarith
  qed
qed

lemma holds_words_outside:
  assumes "holds_words m a ws" "apart a (4 * length ws) b (2 * length vs)" "4 * length ws < 2 ^ 31" "2 * length vs < 2 ^ 31"
  shows "holds_words (store_code b vs m) a ws"
  unfolding holds_words_def
proof (intro allI impI)
  fix i
  assume i: "i < length ws"
  have u: "unat ((a + of_nat k) - a) = k" if "k < 4 * length ws" for k
    using that assms(3) by (simp add: unat_of_nat)
  have "store_code b vs m (a + of_nat k) = m (a + of_nat k)" if "k < 4 * length ws" for k
    by (rule store_code_outside, rule apart_outside [OF assms(2) _ assms(3,4)])
      (use that u [OF that] assms(4) in simp_all)
  from this [of "4 * i"] this [of "4 * i + 2"] i
  have "read32 (store_code b vs m) (a + 4 * of_nat i) = read32 m (a + 4 * of_nat i)"
    by (simp add: read32_def algebra_simps)
  then show "read32 (store_code b vs m) (a + 4 * of_nat i) = ws ! i" using assms(1) i by (simp add: holds_words_def)
qed

text \<open>The situation in which a function can be hooked: the system grants all requests, the
  function does not reach over the end of the address space, and the buffer is fresh.\<close>

definition arm_hook_ok :: "code_env \<Rightarrow> uintptr \<Rightarrow> uintptr \<Rightarrow> code_state \<Rightarrow> bool" where
  "arm_hook_ok e symbol buffer s \<longleftrightarrow>
     ce_page e = 4096 \<and> (\<forall>a n. ce_mprotect_ok e a n) \<and> (\<forall>a n. ce_mprotect_rx_ok e a n)
     \<and> symbol \<noteq> 0 \<and> unat symbol + 8 \<le> 2 ^ 32 \<and> (\<forall>n. ce_mmap e (maps s) n = Some buffer)
     \<and> apart buffer 48 symbol 8"

lemma arm_length_le: "arm_length [b0, b1] \<le> 48" "arm_length [b0, b1] div 4 \<le> 12"
  by (simp_all add: arm_length_def arm_extra_eq)

lemma apart_mono: "apart a n b k \<Longrightarrow> n' \<le> n \<Longrightarrow> apart a n' b k"
  by (auto simp: apart_def)

lemma hook_arm_spec:
  assumes ok: "arm_hook_ok e symbol buffer s" and "read32 (hmem s) symbol \<noteq> A_jump"
  defines "bs \<equiv> [read32 (hmem s) symbol, read32 (hmem s) (symbol + 4)]"
  obtains s' ws i where "SubstrateHookFunctionARM e symbol replace True s = Some (8, Some buffer, s')"
    "holds_words (hmem s') symbol [A_jump, replace]"
    "\<And>x. 8 \<le> unat (x - symbol) \<Longrightarrow> 48 \<le> unat (x - buffer) \<Longrightarrow> hmem s' x = hmem s x"
    "holds_words (hmem s') buffer ws" "length ws \<le> 12" "length ws = arm_length bs div 4"
    "arm_code ws symbol 0 bs 0 (length ws) i" "ws ! i = A_jump" "ws ! (i + 1) = symbol + 8" "i + 2 \<le> length ws"
proof -
  obtain ws i where ws: "arm_buffer symbol bs = Some ws" "length ws = arm_length bs div 4"
    "arm_code ws symbol 0 bs 0 (length ws) i" "ws ! i = A_jump" "ws ! (i + 1) = symbol + 8" "i + 2 \<le> length ws"
    using arm_buffer_ok [of bs symbol] by (auto simp: bs_def)
  have len: "length ws \<le> 12" using ws(2) arm_length_le by (simp add: bs_def)
  let ?n = "of_nat (arm_length bs) :: u32"
  let ?s2 = "s\<lparr>maps := (buffer, ?n) # maps s, hmem := store_code buffer (halfwords ws) (hmem s)\<rparr>"
  let ?f = "store_code symbol (halfwords [A_jump, replace])"
  have "\<exists>s'. with_hook_memory e symbol (of_nat 8) (arm_patch symbol replace) ?s2 = Some s'
      \<and> hmem s' = ?f (hmem ?s2) \<and> maps s' = maps ?s2"
    using ok by (intro with_hook_memory_ok arm_patch_ok) (auto simp: arm_hook_ok_def)
  then obtain s' where s': "with_hook_memory e symbol 8 (arm_patch symbol replace) ?s2 = Some s'"
    "hmem s' = ?f (store_code buffer (halfwords ws) (hmem s))" by auto
  have "SubstrateHookFunctionARM e symbol replace True s = Some (8, Some buffer, s')"
    using ok assms(2) ws(1) s'(1)
    by (simp add: SubstrateHookFunctionARM_def arm_hook_ok_def Let_def bs_def [symmetric] del: A_jump_eval)
      (simp add: bs_def)
  moreover have "holds_words (hmem s') symbol [A_jump, replace]"
    unfolding s'(2) by (rule holds_words_stored) simp
  moreover have "hmem s' x = hmem s x" if "8 \<le> unat (x - symbol)" "48 \<le> unat (x - buffer)" for x
    unfolding s'(2) using that len by (subst store_code_outside, simp, simp)+ simp
  moreover have "holds_words (hmem s') buffer ws"
    unfolding s'(2)
  proof (rule holds_words_outside)
    show "holds_words (store_code buffer (halfwords ws) (hmem s)) buffer ws"
      by (rule holds_words_stored) (use len in simp)
    show "apart buffer (4 * length ws) symbol (2 * length (halfwords [A_jump, replace]))"
      using ok len by (auto simp: arm_hook_ok_def elim: apart_mono)
  qed (use len in simp_all)
  ultimately show thesis using that ws len by blast
qed

lemma arm_relocated_runs:
  assumes "holds_words (amem m) buffer ws" "length ws \<le> 12" "length ws = arm_length bs div 4" "length bs = 2"
    "arm_code ws symbol 0 bs 0 (length ws) i" "ws ! i = A_jump" "ws ! (i + 1) = symbol + 8" "i + 2 \<le> length ws"
    "\<forall>b \<in> set bs. movable other buffer ws b"
  shows "arm_run other (sum_list (map arm_steps bs) + 1) buffer m
    = map_option (Pair (symbol + 8)) (arm_straight other symbol bs m)"
proof -
  have "arm_run other 1 (buffer + 4 * of_nat i) m' = Some (symbol + 8, m')"
    if h: "holds_words (amem m') buffer ws" for m'
    using holds_word [OF h, of i] holds_word [OF h, of "i + 1"] assms(6-8)
    by (simp add: algebra_simps)
  moreover have "0 + sum_list (map arm_need bs) + 2 \<le> length ws"
    using arm_need_sum [of bs] assms(3,4) by (simp add: arm_length_def)
  ultimately show ?thesis
    using arm_code_runs [OF assms(5) _ _ assms(2) assms(1) assms(9), of 1 "symbol + 8"] by simp
qed


text \<open>A concrete function: \<open>ldr r0, [pc, #8]; mov r1, r2\<close>.\<close>

definition arm_demo_mem :: "uintptr \<Rightarrow> u16" where
  "arm_demo_mem = store_code 0x8000 (halfwords [0xe59f0008, 0xe1a01002]) (\<lambda>_. 0)"

definition arm_demo :: code_state where
  "arm_demo = \<lparr>hmem = arm_demo_mem, rwx = (\<lambda>_. False), maps = []\<rparr>"

definition arm_demo_env :: code_env where
  "arm_demo_env = \<lparr>ce_page = 4096, ce_mprotect_ok = (\<lambda>_ _. True), ce_mprotect_rx_ok = (\<lambda>_ _. True),
     ce_mmap = (\<lambda>_ _. Some 0x40000000)\<rparr>"

definition mov_r1_r2 :: arm_other where
  "mov_r1_r2 w p m = (if w = 0xe1a01002 then Some (m\<lparr>areg := (areg m)(1 := areg m 2)\<rparr>) else None)"

lemma arm_demo_words [simp]:
  "read32 (hmem arm_demo) 0x8000 = 0xe59f0008" "read32 (hmem arm_demo) 0x8004 = 0xe1a01002"
  by (simp_all add: arm_demo_def arm_demo_mem_def read32_def)

lemma arm_demo_ok: "arm_hook_ok arm_demo_env 0x8000 0x40000000 arm_demo"
  by (simp add: arm_hook_ok_def arm_demo_env_def apart_def)

lemma arm_demo_movable: "\<forall>b \<in> {0xe59f0008, 0xe1a01002}. movable mov_r1_r2 0x40000000 ws b"
  by (auto simp: movable_def A_pcrel_r_def is_ldr_def bits_rd_def bits_mode_def arm_copy_rn_def exec_arm_def mov_r1_r2_def)

section \<open>Properties\<close>

text \<open>C23. For any two instructions the relocation stays inside the buffer that it has sized: no
  word is written before or behind it, and the code and the literals do not meet.\<close>

theorem arm_relocation_in_bounds:
  "\<exists>ws. arm_buffer area [b0, b1] = Some ws \<and> length ws = arm_length [b0, b1] div 4 \<and> length ws \<le> 12"
  by (rule arm_buffer_ok [of "[b0, b1]" area]) (use arm_length_le [of b0 b1] in auto)

text \<open>Hooking a fresh ARM function returns the 8 bytes used, stores the address of the buffer
  for the caller, replaces the first two words by a jump to the replacement and changes no other
  code outside the buffer: running the function from its first instruction leads to the
  replacement.\<close>

theorem hook_arm_installs:
  assumes "arm_hook_ok e symbol buffer s" "read32 (hmem s) symbol \<noteq> A_jump"
  shows "\<exists>s'. SubstrateHookFunctionARM e symbol replace True s = Some (8, Some buffer, s')
     \<and> read32 (hmem s') symbol = A_jump \<and> read32 (hmem s') (symbol + 4) = replace
     \<and> (\<forall>x. 8 \<le> unat (x - symbol) \<longrightarrow> 48 \<le> unat (x - buffer) \<longrightarrow> hmem s' x = hmem s x)
     \<and> (\<forall>other m. amem m = hmem s' \<longrightarrow> arm_run other 1 symbol m = Some (replace, m))"
proof -
  obtain s' where s': "SubstrateHookFunctionARM e symbol replace True s = Some (8, Some buffer, s')"
    "holds_words (hmem s') symbol [A_jump, replace]"
    "\<And>x. 8 \<le> unat (x - symbol) \<Longrightarrow> 48 \<le> unat (x - buffer) \<Longrightarrow> hmem s' x = hmem s x"
    using hook_arm_spec [OF assms, of replace] by blast
  have "read32 (hmem s') symbol = A_jump" "read32 (hmem s') (symbol + 4) = replace"
    using holds_word [OF s'(2), of 0] holds_word [OF s'(2), of 1] by simp_all
  then show ?thesis using s' by auto
qed

theorem hook_arm_installs_witness:
  "\<exists>s'. SubstrateHookFunctionARM arm_demo_env 0x8000 0x9000 True arm_demo = Some (8, Some 0x40000000, s')
     \<and> read32 (hmem s') 0x8004 = 0x9000"
  using hook_arm_installs [OF arm_demo_ok, of "0x9000"] by auto



text \<open>A function that already starts with the jump of a hook is not hooked again: the call
  reports four bytes and hands out the old replacement, and the new one is never reached.\<close>

theorem hook_arm_twice_ignored:
  assumes "symbol \<noteq> 0" "read32 (hmem s) symbol = A_jump"
  shows "SubstrateHookFunctionARM e symbol replace True s = Some (4, Some (read32 (hmem s) (symbol + 4)), s)"
  using assms by (simp add: SubstrateHookFunctionARM_def Let_def)

theorem hook_arm_twice_ignored_witness:
  "SubstrateHookFunctionARM arm_demo_env 0x8000 0x9000 True
     (arm_demo\<lparr>hmem := store_code 0x8000 (halfwords [A_jump, 0x7000]) (\<lambda>_. 0)\<rparr>)
   = Some (4, Some 0x7000, arm_demo\<lparr>hmem := store_code 0x8000 (halfwords [A_jump, 0x7000]) (\<lambda>_. 0)\<rparr>)"
proof -
  let ?s = "arm_demo\<lparr>hmem := store_code 0x8000 (halfwords [A_jump, 0x7000]) (\<lambda>_. 0)\<rparr>"
  have "read32 (hmem ?s) 0x8000 = A_jump" "read32 (hmem ?s) 0x8004 = 0x7000"
    by (simp_all add: read32_def)
  then show ?thesis using hook_arm_twice_ignored [of "0x8000" ?s arm_demo_env "0x9000"] by simp
qed

end
