(* ===== verification/SubstrateThumb.thy ===== *)
theory SubstrateThumb
  imports SubstrateArm
begin

text \<open>
  Hooking a function of the Thumb instruction set (\<open>SubstrateHookFunctionThumb\<close>) and the
  choice between the two instruction sets (\<open>SubstrateHookFunction\<close>, \<open>MSHookFunction\<close>). Code is a
  list of halfwords; the relocation of an instruction depends on its kind.
\<close>

section \<open>Encodings\<close>

abbreviation "T_nop \<equiv> (0x46c0::u32)"

definition T_bx :: "u32 \<Rightarrow> u32" where "T_bx rm = 0x4700 OR push_bit 3 rm"
definition T_blx :: "u32 \<Rightarrow> u32" where "T_blx rm = 0x4780 OR push_bit 3 rm"

definition T_add_rd_rm :: "u32 \<Rightarrow> u32 \<Rightarrow> u32" where
  "T_add_rd_rm rd rm = 0x4400 OR push_bit 7 (drop_bit 3 (rd AND 8)) OR push_bit 6 (drop_bit 3 (rm AND 8))
     OR push_bit 3 (rm AND 7) OR (rd AND 7)"

definition T_push_r :: "u32 \<Rightarrow> u32" where
  "T_push_r r = 0xb400 OR push_bit 8 (drop_bit 14 (r AND push_bit 14 1)) OR (r AND 0xff)"

definition T_pop_r :: "u32 \<Rightarrow> u32" where
  "T_pop_r r = 0xbc00 OR push_bit 8 (drop_bit 15 (r AND push_bit 15 1)) OR (r AND 0xff)"

definition T_mov_rd_rm :: "u32 \<Rightarrow> u32 \<Rightarrow> u32" where
  "T_mov_rd_rm rd rm = 0x4600 OR push_bit 7 (drop_bit 3 (rd AND 8)) OR push_bit 6 (drop_bit 3 (rm AND 8))
     OR push_bit 3 (rm AND 7) OR (rd AND 7)"

definition T_ldr_rd_rn_im_4 :: "u32 \<Rightarrow> u32 \<Rightarrow> u32 \<Rightarrow> u32" where
  "T_ldr_rd_rn_im_4 rd rn im = 0x6800 OR push_bit 6 (im AND 0x1f) OR push_bit 3 rn OR rd"

definition T_ldr_rd_pc_im_4 :: "u32 \<Rightarrow> u32 \<Rightarrow> u32" where
  "T_ldr_rd_pc_im_4 rd im = 0x4800 OR push_bit 8 rd OR (im AND 0xff)"

definition T_cbz_rn_im :: "u32 \<Rightarrow> u32 \<Rightarrow> u32 \<Rightarrow> u32" where
  "T_cbz_rn_im cop rn im = 0xb100 OR push_bit 11 cop OR push_bit 9 (drop_bit 6 (im AND 0x40))
     OR push_bit 3 (drop_bit 1 (im AND 0x3e)) OR rn"

definition T_b_im :: "u32 \<Rightarrow> u32 \<Rightarrow> u32" where
  "T_b_im cond im =
     (if cond = A_al then 0xe000 OR (drop_bit 1 im AND 0x7ff)
      else 0xd000 OR push_bit 8 cond OR (drop_bit 1 im AND 0xff))"

text \<open>\<open>im\<close> is of an unsigned type in all uses, so that \<open>im < 0\<close> is false.\<close>

definition T1_ldr_rt_rn_im :: "u32 \<Rightarrow> u32 \<Rightarrow> u32 \<Rightarrow> u32" where
  "T1_ldr_rt_rn_im rt rn im = 0xf850 OR push_bit 7 1 OR rn"

definition T2_ldr_rt_rn_im :: "u32 \<Rightarrow> u32 \<Rightarrow> u32 \<Rightarrow> u32" where
  "T2_ldr_rt_rn_im rt rn im = push_bit 12 rt OR labs (uint im)"

definition T1_mrs_rd_apsr :: "u32 \<Rightarrow> u32" where "T1_mrs_rd_apsr rd = 0xf3ef"
definition T2_mrs_rd_apsr :: "u32 \<Rightarrow> u32" where "T2_mrs_rd_apsr rd = 0x8000 OR push_bit 8 rd"
definition T1_msr_apsr_nzcvqg_rn :: "u32 \<Rightarrow> u32" where "T1_msr_apsr_nzcvqg_rn rn = 0xf380 OR rn"
definition T2_msr_apsr_nzcvqg_rn :: "u32 \<Rightarrow> u32" where "T2_msr_apsr_nzcvqg_rn rn = 0x8c00"

definition T_msr_apsr_nzcvqg_rn :: "u32 \<Rightarrow> u32" where
  "T_msr_apsr_nzcvqg_rn rn = push_bit 16 (T2_msr_apsr_nzcvqg_rn rn) OR T1_msr_apsr_nzcvqg_rn rn"

text \<open>The distance between two halfwords of the buffer as a load relative to the program counter
  sees it, in the arithmetic of \<open>size_t\<close>.\<close>

definition T_Label :: "u32 \<Rightarrow> u32 \<Rightarrow> u32" where
  "T_Label l r = (r - l) * 2 - 4 + (if l mod 2 = 0 then 0 else 2)"

section \<open>Kinds of instructions\<close>

definition T_32bit_i :: "u16 \<Rightarrow> bool" where
  "T_32bit_i ic \<longleftrightarrow> ic AND 0xe000 = 0xe000 \<and> ic AND 0x1800 \<noteq> 0"

definition T_pcrel_cbz :: "u16 \<Rightarrow> bool" where "T_pcrel_cbz ic \<longleftrightarrow> ic AND 0xf500 = 0xb100"
definition T_pcrel_b :: "u16 \<Rightarrow> bool" where
  "T_pcrel_b ic \<longleftrightarrow> ic AND 0xf000 = 0xd000 \<and> ic AND 0x0e00 \<noteq> 0x0e00"

definition T2_pcrel_b :: "u16 \<Rightarrow> u16 \<Rightarrow> bool" where
  "T2_pcrel_b ic0 ic1 \<longleftrightarrow> ic0 AND 0xf800 = 0xf000
     \<and> (ic1 AND 0xd000 = 0x9000 \<or> ic1 AND 0xd000 = 0x8000 \<and> ic0 AND 0x0380 \<noteq> 0x0380)"

definition T_pcrel_bl :: "u16 \<Rightarrow> u16 \<Rightarrow> bool" where
  "T_pcrel_bl ic0 ic1 \<longleftrightarrow> ic0 AND 0xf800 = 0xf000 \<and> (ic1 AND 0xd000 = 0xd000 \<or> ic1 AND 0xd001 = 0xc000)"

definition T_pcrel_ldr :: "u16 \<Rightarrow> bool" where "T_pcrel_ldr ic \<longleftrightarrow> ic AND 0xf800 = 0x4800"
definition T_pcrel_add :: "u16 \<Rightarrow> bool" where "T_pcrel_add ic \<longleftrightarrow> ic AND 0xff78 = 0x4478"
definition T_pcrel_ldrw :: "u16 \<Rightarrow> bool" where "T_pcrel_ldrw ic \<longleftrightarrow> ic AND 0xff7f = 0xf85f"

definition MSGetInstructionWidthThumb :: "u16 \<Rightarrow> nat" where
  "MSGetInstructionWidthThumb h = (if T_32bit_i h then 4 else 2)"

definition MSGetInstructionWidthARM :: "uintptr \<Rightarrow> nat" where
  "MSGetInstructionWidthARM start = 4"

definition MSGetInstructionWidth :: "(uintptr \<Rightarrow> u16) \<Rightarrow> uintptr \<Rightarrow> nat" where
  "MSGetInstructionWidth m start =
     (if start AND 1 = 0 then MSGetInstructionWidthARM start
      else MSGetInstructionWidthThumb (m (start AND NOT 1)))"

text \<open>The tests in the order in which both loops make them.\<close>

datatype thumb_kind = K_ldr | K_b | K_b2 | K_bl | K_cbz | K_ldrw | K_add | K_32 | K_16

definition thumb_kind :: "u16 \<Rightarrow> u16 \<Rightarrow> thumb_kind" where
  "thumb_kind h h' =
     (if T_pcrel_ldr h then K_ldr else if T_pcrel_b h then K_b else if T2_pcrel_b h h' then K_b2
      else if T_pcrel_bl h h' then K_bl else if T_pcrel_cbz h then K_cbz else if T_pcrel_ldrw h then K_ldrw
      else if T_pcrel_add h then K_add else if T_32bit_i h then K_32 else K_16)"

definition wide_kind :: "thumb_kind \<Rightarrow> bool" where
  "wide_kind k \<longleftrightarrow> k \<in> {K_b2, K_bl, K_ldrw, K_32}"

section \<open>The size of the buffer\<close>

definition kind_extra :: "thumb_kind \<Rightarrow> nat" where
  "kind_extra k =
     (case k of K_ldr \<Rightarrow> 3 * 2 | K_b \<Rightarrow> 6 * 2 | K_b2 \<Rightarrow> 5 * 2 | K_bl \<Rightarrow> 5 * 2 | K_cbz \<Rightarrow> 16 * 2
      | K_ldrw \<Rightarrow> 4 * 2 | K_add \<Rightarrow> 6 * 2 | K_32 \<Rightarrow> 0 | K_16 \<Rightarrow> 0)"

text \<open>The loop over the halfwords; an instruction of two halfwords at the end would run past
  them (\<open>None\<close>).\<close>

fun thumb_extra :: "u16 list \<Rightarrow> nat option" where
  "thumb_extra [] = Some 0"
| "thumb_extra (h # hs) =
     (let k = thumb_kind h (if hs = [] then 0 else hd hs)
      in if wide_kind k then (case hs of [] \<Rightarrow> None | _ # hs' \<Rightarrow> map_option ((+) (kind_extra k)) (thumb_extra hs'))
         else map_option ((+) (kind_extra k)) (thumb_extra hs))"

text \<open>The padding that puts the trailing words on a word boundary, and the whole length in bytes.\<close>

definition thumb_pad :: "nat \<Rightarrow> nat" where
  "thumb_pad len = (if (of_nat len :: u32) AND 2 = 0 then 0 else 1)"

definition thumb_length :: "nat \<Rightarrow> nat" where
  "thumb_length len = len + (thumb_pad len + 2) * 2 + 2 * 4"

section \<open>Relocation\<close>

text \<open>The buffer in halfwords; \<open>ttrailer\<close> is the position of the next trailing word. A store
  outside the buffer is \<open>None\<close>.\<close>

record thumb_buf =
  tbuf :: "u16 list"
  tstart :: nat
  tend :: nat
  ttrailer :: nat

definition tput :: "nat \<Rightarrow> u32 \<Rightarrow> thumb_buf \<Rightarrow> thumb_buf option" where
  "tput i v s = (if i < length (tbuf s) then Some (s\<lparr>tbuf := (tbuf s)[i := ucast v]\<rparr>) else None)"

definition ttrail :: "u32 \<Rightarrow> thumb_buf \<Rightarrow> thumb_buf option" where
  "ttrail w s =
     (if ttrailer s < 2 \<or> length (tbuf s) < ttrailer s then None
      else Some (s\<lparr>tbuf := (tbuf s)[ttrailer s - 2 := lo16 w, ttrailer s - 1 := hi16 w],
                   ttrailer := ttrailer s - 2\<rparr>))"

text \<open>What an instruction becomes: halfwords at \<open>start\<close>, words pushed in front of the trailer in
  their order, and the changes of \<open>start\<close> and \<open>end\<close>.\<close>

record emission =
  em_code :: "u32 list"
  em_words :: "u32 list"
  em_start :: nat
  em_end :: nat

definition fld :: "nat \<Rightarrow> nat \<Rightarrow> u16 \<Rightarrow> u32" where
  "fld k n h = drop_bit k (ucast h) AND mask n"

text \<open>The words that a jump in the trailer consists of, in the order in which they are pushed.\<close>

abbreviation "jump_words target \<equiv> [target, A_jump, push_bit 16 T_nop OR T_bx A_pc]"

definition emit_ldr :: "u32 \<Rightarrow> u16 \<Rightarrow> u32 \<Rightarrow> u32 \<Rightarrow> emission" where
  "emit_ldr pc h st en =
     (let rd = fld 8 3 h; immediate = fld 0 8 h
      in \<lparr>em_code = [T_ldr_rd_pc_im_4 rd (T_Label st (en - 2) div 4), T_ldr_rd_rn_im_4 rd rd 0],
          em_words = [((pc + 4) AND NOT 2) + immediate * 4], em_start = 2, em_end = 2\<rparr>)"

definition sign_extend :: "nat \<Rightarrow> u32 \<Rightarrow> u32" where
  "sign_extend n w = signed_drop_bit n (push_bit n w)"

definition b_jump :: "u16 \<Rightarrow> u32" where
  "b_jump h = sign_extend 23 (push_bit 1 (fld 0 8 h) OR 1)"

definition emit_b :: "u32 \<Rightarrow> u16 \<Rightarrow> u32 \<Rightarrow> u32 \<Rightarrow> emission" where
  "emit_b pc h st en =
     \<lparr>em_code = [T_b_im (fld 8 4 h) ((en - 6 - st) * 2 - 4)],
      em_words = jump_words (pc + 4 + b_jump h), em_start = 1, em_end = 6\<rparr>"

definition b2_jump :: "u16 \<Rightarrow> u16 \<Rightarrow> u32" where
  "b2_jump h h' =
     (let imm6 = fld 0 6 h; cond = fld 6 4 h; s = fld 10 1 h; imm11 = fld 0 11 h'; j2 = fld 11 1 h';
          a = fld 12 1 h'; j1 = fld 13 1 h'; jump = 1 OR push_bit 1 imm11 OR push_bit 12 imm6
      in if a \<noteq> 0 then
           sign_extend 7 (jump OR push_bit 24 s OR push_bit 23 (NOT (s XOR j1) AND 1)
             OR push_bit 22 (NOT (s XOR j2) AND 1) OR push_bit 18 cond)
         else sign_extend 11 (jump OR push_bit 20 s OR push_bit 19 j2 OR push_bit 18 j1))"

definition emit_b2 :: "u32 \<Rightarrow> u16 \<Rightarrow> u16 \<Rightarrow> u32 \<Rightarrow> u32 \<Rightarrow> emission" where
  "emit_b2 pc h h' st en =
     \<lparr>em_code = [T_b_im (if fld 12 1 h' \<noteq> 0 then A_al else fld 6 4 h) ((en - 6 - st) * 2 - 4)],
      em_words = jump_words (pc + 4 + b2_jump h h'), em_start = 1, em_end = 6\<rparr>"

definition bl_jump :: "u16 \<Rightarrow> u16 \<Rightarrow> u32" where
  "bl_jump h h' =
     (let imm10 = fld 0 10 h; s = fld 10 1 h; imm11 = fld 0 11 h'; j2 = fld 11 1 h'; x = fld 12 1 h';
          j1 = fld 13 1 h'
      in sign_extend 7 (push_bit 24 s OR push_bit 23 (NOT (s XOR j1) AND 1)
           OR push_bit 22 (NOT (s XOR j2) AND 1) OR push_bit 12 imm10 OR push_bit 1 imm11 OR x))"

definition emit_bl :: "u32 \<Rightarrow> u16 \<Rightarrow> u16 \<Rightarrow> u32 \<Rightarrow> u32 \<Rightarrow> emission" where
  "emit_bl pc h h' st en =
     \<lparr>em_code = [T_push_r (push_bit 7 1), T_ldr_rd_pc_im_4 A_r7 (((en - 2 - (st + 1)) * 2 - 4 + 2) div 4),
        T_mov_rd_rm A_lr A_r7, T_pop_r (push_bit 7 1), T_blx A_lr],
      em_words = [pc + 4 + bl_jump h h'], em_start = 5, em_end = 2\<rparr>"

definition emit_cbz :: "u32 \<Rightarrow> u16 \<Rightarrow> u32 \<Rightarrow> u32 \<Rightarrow> emission" where
  "emit_cbz pc h st en =
     (let rn = fld 0 3 h; immediate = fld 3 5 h; i = fld 9 1 h; cop = fld 11 1 h;
          jump = 1 OR push_bit 6 i OR push_bit 1 immediate; rt = (if rn = A_r7 then A_r6 else A_r7)
      in \<lparr>em_code = [T_push_r (push_bit (unat rt) 1), T1_mrs_rd_apsr rt, T2_mrs_rd_apsr rt,
            T_cbz_rn_im cop rn ((en - 10 - (st + 3)) * 2 - 4),
            T1_msr_apsr_nzcvqg_rn rt, T2_msr_apsr_nzcvqg_rn rt, T_pop_r (push_bit (unat rt) 1)],
          em_words = jump_words (pc + 4 + jump)
            @ [push_bit 16 T_nop OR T_pop_r (push_bit (unat rt) 1), T_msr_apsr_nzcvqg_rn rt],
          em_start = 7, em_end = 10\<rparr>)"

definition emit_ldrw :: "u32 \<Rightarrow> u16 \<Rightarrow> u16 \<Rightarrow> u32 \<Rightarrow> u32 \<Rightarrow> emission" where
  "emit_ldrw pc h h' st en =
     (let u = fld 7 1 h; immediate = fld 0 12 h'; rt = fld 12 4 h'; lbl = T_Label st (en - 2)
      in \<lparr>em_code = [T1_ldr_rt_rn_im rt A_pc lbl, T2_ldr_rt_rn_im rt A_pc lbl,
            T1_ldr_rt_rn_im rt rt 0, T2_ldr_rt_rn_im rt rt 0],
          em_words = [((pc + 4) AND NOT 2) + (if u = 0 then - immediate else immediate)],
          em_start = 4, em_end = 2\<rparr>)"

text \<open>An addition to a high register is not supported (\<open>goto fail\<close>).\<close>

definition emit_add :: "u32 \<Rightarrow> u16 \<Rightarrow> u32 \<Rightarrow> u32 \<Rightarrow> emission option" where
  "emit_add pc h st en =
     (let rd = fld 0 3 h; h1 = fld 7 1 h; rt = (if rd = A_r7 then A_r6 else A_r7)
      in if h1 \<noteq> 0 then None
         else Some \<lparr>em_code = [T_push_r (push_bit (unat rt) 1), T_mov_rd_rm rt (push_bit 3 h1 OR rd),
                T_ldr_rd_pc_im_4 rd (T_Label (st + 2) (en - 2) div 4), T_add_rd_rm (push_bit 3 h1 OR rd) rt,
                T_pop_r (push_bit (unat rt) 1)],
              em_words = [pc + 4], em_start = 5, em_end = 2\<rparr>)"

definition emit_plain :: "u16 list \<Rightarrow> emission" where
  "emit_plain hs = \<lparr>em_code = map ucast hs, em_words = [], em_start = length hs, em_end = 0\<rparr>"

definition emit :: "u32 \<Rightarrow> thumb_kind \<Rightarrow> u16 \<Rightarrow> u16 \<Rightarrow> u32 \<Rightarrow> u32 \<Rightarrow> emission option" where
  "emit pc k h h' st en =
     (case k of K_ldr \<Rightarrow> Some (emit_ldr pc h st en) | K_b \<Rightarrow> Some (emit_b pc h st en)
      | K_b2 \<Rightarrow> Some (emit_b2 pc h h' st en) | K_bl \<Rightarrow> Some (emit_bl pc h h' st en)
      | K_cbz \<Rightarrow> Some (emit_cbz pc h st en) | K_ldrw \<Rightarrow> Some (emit_ldrw pc h h' st en)
      | K_add \<Rightarrow> emit_add pc h st en
      | K_32 \<Rightarrow> Some (emit_plain [h, h']) | K_16 \<Rightarrow> Some (emit_plain [h]))"

fun tput_all :: "nat \<Rightarrow> u32 list \<Rightarrow> thumb_buf \<Rightarrow> thumb_buf option" where
  "tput_all i [] s = Some s"
| "tput_all i (v # vs) s = Option.bind (tput i v s) (tput_all (i + 1) vs)"

fun ttrail_all :: "u32 list \<Rightarrow> thumb_buf \<Rightarrow> thumb_buf option" where
  "ttrail_all [] s = Some s"
| "ttrail_all (w # ws) s = Option.bind (ttrail w s) (ttrail_all ws)"

definition apply_emission :: "emission \<Rightarrow> thumb_buf \<Rightarrow> thumb_buf option" where
  "apply_emission em s = do {
     s \<leftarrow> tput_all (tstart s) (em_code em) s;
     s \<leftarrow> ttrail_all (em_words em) s;
     Some (s\<lparr>tstart := tstart s + em_start em, tend := tend s - em_end em\<rparr>)
   }"

text \<open>The loop: \<open>Some None\<close> is the jump to \<open>fail\<close>, \<open>None\<close> a store or a read out of bounds.\<close>

fun thumb_relocate :: "uintptr \<Rightarrow> nat \<Rightarrow> u16 list \<Rightarrow> thumb_buf \<Rightarrow> thumb_buf option option" where
  "thumb_relocate area off [] s = Some (Some s)"
| "thumb_relocate area off (h # hs) s =
     (let h' = (if hs = [] then 0 else hd hs); k = thumb_kind h h'
      in case emit (area + 2 * of_nat off) k h h' (of_nat (tstart s)) (of_nat (tend s)) of
           None \<Rightarrow> Some None
         | Some em \<Rightarrow>
             Option.bind (apply_emission em s)
               (\<lambda>s'. if wide_kind k then (case hs of [] \<Rightarrow> None | _ # hs' \<Rightarrow> thumb_relocate area (off + 2) hs' s')
                     else thumb_relocate area (off + 1) hs s'))"

definition thumb_exit :: "uintptr \<Rightarrow> nat \<Rightarrow> u32 list" where
  "thumb_exit area used =
     (let target = area + of_nat used + 1
      in [T_bx A_pc, T_nop, ucast (lo16 A_jump), ucast (hi16 A_jump), ucast (lo16 target), ucast (hi16 target)])"

definition thumb_finish :: "uintptr \<Rightarrow> nat \<Rightarrow> thumb_buf \<Rightarrow> thumb_buf option" where
  "thumb_finish area used s = tput_all (tstart s) (thumb_exit area used) s"

definition thumb_buffer :: "uintptr \<Rightarrow> u16 list \<Rightarrow> nat \<Rightarrow> u16 list option option" where
  "thumb_buffer area backup len =
     (let n = thumb_length len div 2; used = 2 * length backup;
          s = \<lparr>tbuf = replicate n 0, tstart = thumb_pad len, tend = n, ttrailer = n\<rparr>
      in case thumb_relocate area 0 backup s of
           None \<Rightarrow> None
         | Some None \<Rightarrow> Some None
         | Some (Some s') \<Rightarrow> map_option (\<lambda>s. Some (tbuf s)) (thumb_finish area used s'))"

section \<open>The function\<close>

text \<open>Whole instructions until the patch fits.\<close>

function thumb_used :: "(uintptr \<Rightarrow> u16) \<Rightarrow> uintptr \<Rightarrow> nat \<Rightarrow> nat \<Rightarrow> nat" where
  "thumb_used m area required used =
     (if used < required
      then thumb_used m area required (used + MSGetInstructionWidthThumb (m (area + of_nat used)))
      else used)"
  by auto
termination
  by (relation "measure (\<lambda>(m, area, required, used). required - used)")
    (auto simp: MSGetInstructionWidthThumb_def)

declare thumb_used.simps [simp del]

definition area_words :: "(uintptr \<Rightarrow> u16) \<Rightarrow> uintptr \<Rightarrow> nat \<Rightarrow> u16 list" where
  "area_words m area n = map (\<lambda>i. m (area + 2 * of_nat i)) [0..<n]"

text \<open>The patch: padding to a word boundary, the change to the ARM instruction set, the jump, and
  padding up to the next instruction.\<close>

definition thumb_patch :: "uintptr \<Rightarrow> nat \<Rightarrow> nat \<Rightarrow> u32 \<Rightarrow> code_state \<Rightarrow> code_state option" where
  "thumb_patch area align blank replace s =
     (let thumb = area + 2 * of_nat align; arm = thumb + 4; trail = arm + 8
      in do {
        s \<leftarrow> (if align \<noteq> 0 then write16 area (ucast T_nop) s else Some s);
        s \<leftarrow> write16 thumb (ucast (T_bx A_pc)) s;
        s \<leftarrow> write16 (thumb + 2) (ucast T_nop) s;
        s \<leftarrow> write32 arm A_jump s;
        s \<leftarrow> write32 (arm + 4) replace s;
        write_all trail (replicate blank (ucast T_nop)) s
      })"

definition thumb_hooked :: "(uintptr \<Rightarrow> u16) \<Rightarrow> uintptr \<Rightarrow> nat \<Rightarrow> bool" where
  "thumb_hooked m area align \<longleftrightarrow>
     (let thumb = area + 2 * of_nat align
      in (align = 0 \<or> m area = ucast T_nop) \<and> m thumb = ucast (T_bx A_pc) \<and> m (thumb + 2) = ucast T_nop
         \<and> read32 m (thumb + 4) = A_jump)"

text \<open>As in the ARM case, the second component is what is stored for the caller. When the
  protection of the buffer fails, nothing is stored and the mapping stays.\<close>

definition SubstrateHookFunctionThumb ::
  "code_env \<Rightarrow> uintptr \<Rightarrow> uintptr \<Rightarrow> bool \<Rightarrow> code_state \<Rightarrow> (nat \<times> uintptr option \<times> code_state) option" where
  "SubstrateHookFunctionThumb e symbol replace want_result s =
     (if symbol = 0 then Some (0, None, s)
      else let area = symbol; align = (if area AND 2 = 0 then 0 else 1);
               arm = area + 2 * of_nat align + 4
           in if thumb_hooked (hmem s) area align then
                map_option (\<lambda>s'. (4, if want_result then Some (read32 (hmem s) (arm + 4)) else None, s'))
                  (with_hook_memory e (arm + 4) 4 (write32 (arm + 4) replace) s)
              else
                (let required = 2 * align + 12; used0 = thumb_used (hmem s) area required 0;
                     used = (used0 + 1) div 2 * 2; blank = (used - required) div 2;
                     backup = area_words (hmem s) area (used div 2);
                     patch = (\<lambda>r s. map_option (\<lambda>s. (used, r, s))
                                (with_hook_memory e area (of_nat used) (thumb_patch area align blank replace) s))
                 in if \<not> want_result then patch None s
                    else case thumb_extra backup of
                      None \<Rightarrow> None
                    | Some extra \<Rightarrow>
                        (let pad = thumb_pad (used + extra); len = thumb_length (used + extra)
                         in case ce_mmap e (maps s) (of_nat len) of
                              None \<Rightarrow> Some (0, Some 0, s)
                            | Some buffer \<Rightarrow>
                                (let s1 = s\<lparr>maps := (buffer, of_nat len) # maps s\<rparr>
                                 in case thumb_buffer area backup (used + extra) of
                                      None \<Rightarrow> None
                                    | Some None \<Rightarrow> Some (0, Some 0, s1\<lparr>maps := removeAll (buffer, of_nat len) (maps s1)\<rparr>)
                                    | Some (Some hs) \<Rightarrow>
                                        (let s2 = s1\<lparr>hmem := store_code buffer hs (hmem s1)\<rparr>
                                         in if \<not> ce_mprotect_rx_ok e buffer (of_nat len) then Some (0, None, s2)
                                            else patch (Some (buffer + 2 * of_nat pad + 1)) s2)))))"

section \<open>The choice of the instruction set\<close>

definition SubstrateHookFunction ::
  "code_env \<Rightarrow> uintptr \<Rightarrow> uintptr \<Rightarrow> bool \<Rightarrow> code_state \<Rightarrow> (nat \<times> uintptr option \<times> code_state) option" where
  "SubstrateHookFunction e symbol replace want_result s =
     (if symbol AND 1 = 0 then SubstrateHookFunctionARM e symbol replace want_result s
      else SubstrateHookFunctionThumb e (symbol AND NOT 1) replace want_result s)"

definition MSHookFunction ::
  "code_env \<Rightarrow> uintptr \<Rightarrow> uintptr \<Rightarrow> bool \<Rightarrow> code_state \<Rightarrow> (uintptr option \<times> code_state) option" where
  "MSHookFunction e symbol replace want_result s =
     map_option snd (SubstrateHookFunction e symbol replace want_result s)"

section \<open>The buffer is filled exactly\<close>

definition kind_width :: "thumb_kind \<Rightarrow> nat" where
  "kind_width k = (if wide_kind k then 2 else 1)"

lemma emit_sizes:
  "emit pc k h h' st en = Some em \<Longrightarrow>
     length (em_code em) = em_start em \<and> 2 * length (em_words em) = em_end em
     \<and> em_start em + em_end em = kind_width k + kind_extra k div 2"
  by (cases k) (auto simp: emit_def emit_ldr_def emit_b_def emit_b2_def emit_bl_def emit_cbz_def emit_ldrw_def
      emit_add_def emit_plain_def Let_def kind_extra_def kind_width_def wide_kind_def split: if_splits)

lemma emit_fails_iff: "emit pc k h h' st en = None \<longleftrightarrow> k = K_add \<and> fld 7 1 h \<noteq> 0"
  by (cases k) (auto simp: emit_def emit_add_def Let_def)

text \<open>Where the parts of an emission lie in the buffer.\<close>

definition em_at :: "u16 list \<Rightarrow> emission \<Rightarrow> nat \<Rightarrow> nat \<Rightarrow> bool" where
  "em_at ws em st en \<longleftrightarrow>
     (\<forall>j<length (em_code em). ws ! (st + j) = ucast (em_code em ! j))
     \<and> (\<forall>j<length (em_words em). ws ! (en - 2 * (j + 1)) = lo16 (em_words em ! j)
          \<and> ws ! (en - 2 * (j + 1) + 1) = hi16 (em_words em ! j))"

lemma tput_all_ok:
  assumes "i + length vs \<le> length (tbuf s)"
  shows "\<exists>b. tput_all i vs s = Some (s\<lparr>tbuf := b\<rparr>) \<and> length b = length (tbuf s)
    \<and> (\<forall>j<length vs. b ! (i + j) = ucast (vs ! j)) \<and> (\<forall>x. x < i \<or> i + length vs \<le> x \<longrightarrow> b ! x = tbuf s ! x)"
  using assms
proof (induction vs arbitrary: i s)
  case Nil
  show ?case by (intro exI [of _ "tbuf s"]) simp
next
  case (Cons v vs)
  define s1 where "s1 = s\<lparr>tbuf := (tbuf s)[i := ucast v]\<rparr>"
  have f: "tbuf s1 = (tbuf s)[i := ucast v]" by (simp add: s1_def)
  have pre: "i + 1 + length vs \<le> length (tbuf s1)" using Cons.prems f by simp
  from Cons.IH [OF pre] obtain b where b0:
    "tput_all (i + 1) vs s1 = Some (s1\<lparr>tbuf := b\<rparr>)" "length b = length (tbuf s1)"
    "\<forall>j<length vs. b ! (i + 1 + j) = ucast (vs ! j)"
    "\<forall>x. x < i + 1 \<or> i + 1 + length vs \<le> x \<longrightarrow> b ! x = tbuf s1 ! x"
    by (elim exE conjE)
  note b = b0(3,4) [rule_format, unfolded f]
  have "b ! (i + j) = ucast ((v # vs) ! j)" if "j < Suc (length vs)" for j
    using that b(1) [of "j - 1"] b(2) [of i] Cons.prems by (cases j) auto
  moreover have "b ! x = tbuf s ! x" if "x < i \<or> i + Suc (length vs) \<le> x" for x
    using b(2) [of x] that by auto
  moreover have "tput_all i (v # vs) s = Some (s\<lparr>tbuf := b\<rparr>)"
    using b0(1) Cons.prems by (simp add: tput_def s1_def)
  ultimately show ?case using b0(2) f by (intro exI [of _ b]) simp
qed

lemma ttrail_all_ok:
  assumes "2 * length ws \<le> ttrailer s" "ttrailer s \<le> length (tbuf s)"
  shows "\<exists>b. ttrail_all ws s = Some (s\<lparr>tbuf := b, ttrailer := ttrailer s - 2 * length ws\<rparr>)
    \<and> length b = length (tbuf s)
    \<and> (\<forall>j<length ws. b ! (ttrailer s - 2 * (j + 1)) = lo16 (ws ! j) \<and> b ! (ttrailer s - 2 * (j + 1) + 1) = hi16 (ws ! j))
    \<and> (\<forall>x. x < ttrailer s - 2 * length ws \<or> ttrailer s \<le> x \<longrightarrow> b ! x = tbuf s ! x)"
  using assms
proof (induction ws arbitrary: s)
  case Nil
  show ?case by (intro exI [of _ "tbuf s"]) simp
next
  case (Cons w ws)
  let ?t = "ttrailer s"
  define s1 where "s1 = s\<lparr>tbuf := (tbuf s)[?t - 2 := lo16 w, ?t - 1 := hi16 w], ttrailer := ?t - 2\<rparr>"
  have f: "tbuf s1 = (tbuf s)[?t - 2 := lo16 w, ?t - 1 := hi16 w]" "ttrailer s1 = ?t - 2" by (simp_all add: s1_def)
  have pre: "2 * length ws \<le> ttrailer s1" "ttrailer s1 \<le> length (tbuf s1)" using Cons.prems f by simp_all
  from Cons.IH [OF pre] obtain b where b0:
    "ttrail_all ws s1 = Some (s1\<lparr>tbuf := b, ttrailer := ttrailer s1 - 2 * length ws\<rparr>)"
    "length b = length (tbuf s1)"
    "\<forall>j<length ws. b ! (ttrailer s1 - 2 * (j + 1)) = lo16 (ws ! j) \<and> b ! (ttrailer s1 - 2 * (j + 1) + 1) = hi16 (ws ! j)"
    "\<forall>x. x < ttrailer s1 - 2 * length ws \<or> ttrailer s1 \<le> x \<longrightarrow> b ! x = tbuf s1 ! x"
    by (elim exE conjE)
  note b = b0(3,4) [rule_format, unfolded f]
  have "b ! (?t - 2 * (j + 1)) = lo16 ((w # ws) ! j) \<and> b ! (?t - 2 * (j + 1) + 1) = hi16 ((w # ws) ! j)"
    if "j < length (w # ws)" for j
  proof (cases j)
    case 0
    have "?t - 2 + 1 = ?t - 1" using Cons.prems by simp
    then show ?thesis using b(2) [of "?t - 2"] b(2) [of "?t - 1"] Cons.prems 0
      by (simp add: nth_list_update)
  next
    case (Suc i)
    then show ?thesis using b(1) [of i] that by (simp add: diff_diff_eq)
  qed
  moreover have "b ! x = tbuf s ! x" if "x < ?t - 2 * length (w # ws) \<or> ?t \<le> x" for x
  proof -
    have "x < ?t - 2 - 2 * length ws \<or> ?t - 2 \<le> x" using that Cons.prems by auto
    then show ?thesis using b(2) [of x] that Cons.prems by auto
  qed
  moreover have "ttrail_all (w # ws) s = Some (s\<lparr>tbuf := b, ttrailer := ?t - 2 * length (w # ws)\<rparr>)"
    using b0(1) Cons.prems by (simp add: ttrail_def s1_def diff_diff_eq)
  ultimately show ?case using b0(2) f by (intro exI [of _ b]) simp
qed


text \<open>The buffer with exactly the room that is still needed.\<close>

definition thumb_room :: "nat \<Rightarrow> nat \<Rightarrow> thumb_buf \<Rightarrow> bool" where
  "thumb_room n k s \<longleftrightarrow> length (tbuf s) = n \<and> ttrailer s = tend s \<and> tend s \<le> n \<and> tstart s + k = tend s"

lemma apply_emission_ok:
  assumes room: "thumb_room n (em_start em + em_end em + k) s"
    and len: "length (em_code em) = em_start em" "2 * length (em_words em) = em_end em"
  shows "\<exists>s'. apply_emission em s = Some s' \<and> thumb_room n k s'
    \<and> tstart s' = tstart s + em_start em \<and> tend s' = tend s - em_end em
    \<and> em_at (tbuf s') em (tstart s) (tend s)
    \<and> (\<forall>x. x < tstart s \<or> tend s \<le> x \<longrightarrow> tbuf s' ! x = tbuf s ! x)"
proof -
  have r: "length (tbuf s) = n" "ttrailer s = tend s" "tend s \<le> n" "tstart s + em_start em + em_end em + k = tend s"
    using room by (auto simp: thumb_room_def)
  have "tstart s + length (em_code em) \<le> length (tbuf s)" using r len by simp
  from tput_all_ok [OF this] obtain b1 where b1:
    "tput_all (tstart s) (em_code em) s = Some (s\<lparr>tbuf := b1\<rparr>)" "length b1 = n"
    "\<And>j. j < em_start em \<Longrightarrow> b1 ! (tstart s + j) = ucast (em_code em ! j)"
    "\<And>x. x < tstart s \<or> tstart s + em_start em \<le> x \<Longrightarrow> b1 ! x = tbuf s ! x"
    using r(1) len(1) by auto
  define s1 where "s1 = s\<lparr>tbuf := b1\<rparr>"
  have f: "tbuf s1 = b1" "ttrailer s1 = tend s" "tstart s1 = tstart s" "tend s1 = tend s" using r by (simp_all add: s1_def)
  have "2 * length (em_words em) \<le> ttrailer s1" "ttrailer s1 \<le> length (tbuf s1)" using f r b1(2) len by simp_all
  from ttrail_all_ok [OF this, unfolded f] obtain b2 where b2:
    "ttrail_all (em_words em) s1 = Some (s1\<lparr>tbuf := b2, ttrailer := tend s - 2 * length (em_words em)\<rparr>)" "length b2 = n"
    "\<forall>j<length (em_words em). b2 ! (tend s - 2 * (j + 1)) = lo16 (em_words em ! j) \<and> b2 ! (tend s - 2 * (j + 1) + 1) = hi16 (em_words em ! j)"
    "\<And>x. x < tend s - em_end em \<or> tend s \<le> x \<Longrightarrow> b2 ! x = b1 ! x"
    using b1(2) len(2) by auto
  let ?s' = "s1\<lparr>tbuf := b2, ttrailer := tend s - em_end em, tstart := tstart s + em_start em, tend := tend s - em_end em\<rparr>"
  have "apply_emission em s = Some ?s'"
    using b1(1) b2(1) len(2) by (simp add: apply_emission_def s1_def)
  moreover have "thumb_room n k ?s'" using r b2(2) by (simp add: thumb_room_def) linarith
  moreover have "b2 ! (tstart s + j) = ucast (em_code em ! j)" if "j < em_start em" for j
    using b1(3) [OF that] b2(4) [of "tstart s + j"] that r by simp
  then have "em_at b2 em (tstart s) (tend s)" using b2(3) len by (simp add: em_at_def)
  moreover have "b2 ! x = tbuf s ! x" if "x < tstart s \<or> tend s \<le> x" for x
    using that b1(4) [of x] b2(4) [of x] r by auto
  ultimately show ?thesis by (intro exI [of _ ?s']) (simp add: f)
qed

text \<open>The walk over the instructions: the kind of the first one and what follows it.\<close>

definition first_kind :: "u16 list \<Rightarrow> thumb_kind" where
  "first_kind hs = thumb_kind (hd hs) (if tl hs = [] then 0 else hd (tl hs))"

definition second_half :: "u16 list \<Rightarrow> u16" where
  "second_half hs = (if tl hs = [] then 0 else hd (tl hs))"

definition after_first :: "u16 list \<Rightarrow> u16 list" where
  "after_first hs = drop (kind_width (first_kind hs)) hs"

definition complete_first :: "u16 list \<Rightarrow> bool" where
  "complete_first hs \<longleftrightarrow> kind_width (first_kind hs) \<le> length hs"

lemma after_first_shorter: "hs \<noteq> [] \<Longrightarrow> length (after_first hs) < length hs"
  by (cases hs) (simp_all add: after_first_def kind_width_def)

declare thumb_extra.simps [simp del] thumb_relocate.simps [simp del]

lemma thumb_extra_step:
  "hs \<noteq> [] \<Longrightarrow> thumb_extra hs =
     (if complete_first hs then map_option ((+) (kind_extra (first_kind hs))) (thumb_extra (after_first hs)) else None)"
proof (cases hs)
  case (Cons h t)
  note e = thumb_extra.simps(2) [of h t, folded Cons]
  show ?thesis unfolding e using Cons
    by (cases t) (auto simp: first_kind_def complete_first_def after_first_def kind_width_def Let_def numeral_2_eq_2)
qed simp

lemma thumb_relocate_step:
  "hs \<noteq> [] \<Longrightarrow> complete_first hs \<Longrightarrow> thumb_relocate area off hs s =
     (case emit (area + 2 * of_nat off) (first_kind hs) (hd hs) (second_half hs) (of_nat (tstart s)) (of_nat (tend s)) of
        None \<Rightarrow> Some None
      | Some em \<Rightarrow> Option.bind (apply_emission em s)
          (thumb_relocate area (off + kind_width (first_kind hs)) (after_first hs)))"
proof (cases hs)
  case (Cons h t)
  note e = thumb_relocate.simps(2) [of area off h t s, folded Cons]
  assume "complete_first hs"
  with Cons show ?thesis unfolding e
    by (cases t) (auto simp: first_kind_def complete_first_def after_first_def second_half_def kind_width_def Let_def numeral_2_eq_2
        split: option.splits)
qed simp

lemma thumb_simps_Nil [simp]: "thumb_extra [] = Some 0" "thumb_relocate area off [] s = Some (Some s)"
  by (simp_all add: thumb_extra.simps thumb_relocate.simps)

text \<open>The instructions that the relocation gives up on, and what it leaves for the others.\<close>

function thumb_bad :: "u16 list \<Rightarrow> bool" where
  "thumb_bad hs =
     (if hs = [] then False
      else first_kind hs = K_add \<and> fld 7 1 (hd hs) \<noteq> 0 \<or> thumb_bad (after_first hs))"
  by auto
termination by (relation "measure length") (auto simp: after_first_shorter)

declare thumb_bad.simps [simp del]

lemma thumb_bad_Nil [simp]: "\<not> thumb_bad []"
  by (subst thumb_bad.simps) simp

inductive thumb_code :: "u16 list \<Rightarrow> uintptr \<Rightarrow> nat \<Rightarrow> u16 list \<Rightarrow> nat \<Rightarrow> nat \<Rightarrow> nat \<Rightarrow> bool" for ws area where
  code_Nil: "thumb_code ws area off [] st en st"
| code_step: "hs \<noteq> []
    \<Longrightarrow> emit (area + 2 * of_nat off) (first_kind hs) (hd hs) (second_half hs) (of_nat st) (of_nat en) = Some em
    \<Longrightarrow> em_at ws em st en
    \<Longrightarrow> thumb_code ws area (off + kind_width (first_kind hs)) (after_first hs) (st + em_start em) (en - em_end em) st'
    \<Longrightarrow> thumb_code ws area off hs st en st'"

lemma em_at_cong:
  assumes "em_at ws em st en" "length (em_code em) = em_start em" "2 * length (em_words em) = em_end em" "em_end em \<le> en"
    and "\<And>x. st \<le> x \<and> x < st + em_start em \<or> en - em_end em \<le> x \<and> x < en \<Longrightarrow> ws' ! x = ws ! x"
  shows "em_at ws' em st en"
  unfolding em_at_def
proof (intro conjI allI impI)
  fix j assume j: "j < length (em_code em)"
  then show "ws' ! (st + j) = ucast (em_code em ! j)"
    using assms(1,2) assms(5) [of "st + j"] by (simp add: em_at_def)
next
  fix j assume j: "j < length (em_words em)"
  have "en - em_end em \<le> en - 2 * (j + 1)" "en - 2 * (j + 1) + 1 < en" using j assms(3,4) by auto
  then show "ws' ! (en - 2 * (j + 1)) = lo16 (em_words em ! j)" "ws' ! (en - 2 * (j + 1) + 1) = hi16 (em_words em ! j)"
    using assms(1) assms(5) [of "en - 2 * (j + 1)"] assms(5) [of "en - 2 * (j + 1) + 1"] j
    by (auto simp: em_at_def)
qed

lemma thumb_relocate_ok:
  assumes "thumb_extra hs = Some x" "thumb_room n (length hs + x div 2 + k) s"
  shows "if thumb_bad hs then thumb_relocate area off hs s = Some None
    else \<exists>s'. thumb_relocate area off hs s = Some (Some s') \<and> thumb_room n k s'
      \<and> tstart s \<le> tstart s' \<and> tend s' \<le> tend s
      \<and> (\<forall>ws. (\<forall>i. i < tstart s' \<or> tend s' \<le> i \<longrightarrow> ws ! i = tbuf s' ! i)
           \<longrightarrow> thumb_code ws area off hs (tstart s) (tend s) (tstart s'))
      \<and> (\<forall>i. i < tstart s \<or> tend s \<le> i \<longrightarrow> tbuf s' ! i = tbuf s ! i)"
  using assms
proof (induction hs arbitrary: x s off rule: measure_induct_rule [of length])
  case (less hs)
  show ?case
  proof (cases "hs = []")
    case True
    then show ?thesis using less.prems by (auto intro: code_Nil)
  next
    case False
    let ?k = "first_kind hs" and ?rest = "after_first hs"
    let ?e = "emit (area + 2 * of_nat off) ?k (hd hs) (second_half hs) (of_nat (tstart s)) (of_nat (tend s))"
    have cf: "complete_first hs" using less.prems(1) False by (auto simp: thumb_extra_step split: if_splits)
    obtain y where y: "thumb_extra ?rest = Some y" "x = kind_extra ?k + y"
      using less.prems(1) False cf by (auto simp: thumb_extra_step)
    have ev: "even (kind_extra ?k)" by (cases ?k) (simp_all add: kind_extra_def)
    have lr: "length hs = kind_width ?k + length ?rest" using cf by (simp add: complete_first_def after_first_def)
    note step = thumb_relocate_step [OF False cf, of area off s]
    show ?thesis
    proof (cases ?e)
      case None
      then have "thumb_bad hs" using False by (subst thumb_bad.simps) (simp add: emit_fails_iff)
      then show ?thesis using None step by simp
    next
      case (Some em)
      note sz = emit_sizes [OF Some]
      have nb: "thumb_bad hs \<longleftrightarrow> thumb_bad ?rest"
        using Some False emit_fails_iff [of "area + 2 * of_nat off" ?k "hd hs" "second_half hs"]
        by (subst thumb_bad.simps) auto
      have "length hs + x div 2 + k = em_start em + em_end em + (length ?rest + y div 2 + k)"
        using lr y(2) sz ev by (auto elim!: evenE)
      then have room: "thumb_room n (em_start em + em_end em + (length ?rest + y div 2 + k)) s"
        using less.prems(2) by (simp only:)
      from apply_emission_ok [OF room] sz obtain s1 where s1: "apply_emission em s = Some s1"
        "thumb_room n (length ?rest + y div 2 + k) s1" "tstart s1 = tstart s + em_start em" "tend s1 = tend s - em_end em"
        "em_at (tbuf s1) em (tstart s) (tend s)" "\<forall>i. i < tstart s \<or> tend s \<le> i \<longrightarrow> tbuf s1 ! i = tbuf s ! i"
        by blast
      note ih = less.IH [OF after_first_shorter [OF False] y(1) s1(2), of "off + kind_width ?k"]
      show ?thesis
      proof (cases "thumb_bad hs")
        case True
        then show ?thesis using ih nb step Some s1(1) by simp
      next
        case False
        then have "\<not> thumb_bad ?rest" using nb by simp
        with ih obtain s' where s': "thumb_relocate area (off + kind_width ?k) ?rest s1 = Some (Some s')"
          "thumb_room n k s'" "tstart s1 \<le> tstart s'" "tend s' \<le> tend s1"
          "\<forall>ws. (\<forall>i. i < tstart s' \<or> tend s' \<le> i \<longrightarrow> ws ! i = tbuf s' ! i)
             \<longrightarrow> thumb_code ws area (off + kind_width ?k) ?rest (tstart s1) (tend s1) (tstart s')"
          "\<forall>i. i < tstart s1 \<or> tend s1 \<le> i \<longrightarrow> tbuf s' ! i = tbuf s1 ! i"
          by (simp only: if_False) (elim exE conjE)
        have le: "em_end em \<le> tend s" using room by (auto simp: thumb_room_def)
        have "thumb_code ws area off hs (tstart s) (tend s) (tstart s')"
          if ws: "\<forall>i. i < tstart s' \<or> tend s' \<le> i \<longrightarrow> ws ! i = tbuf s' ! i" for ws
        proof (rule code_step [OF \<open>hs \<noteq> []\<close> Some])
          show "em_at ws em (tstart s) (tend s)"
          proof (rule em_at_cong [OF s1(5)])
            fix i assume "tstart s \<le> i \<and> i < tstart s + em_start em \<or> tend s - em_end em \<le> i \<and> i < tend s"
            then have "(i < tstart s' \<or> tend s' \<le> i) \<and> (i < tstart s1 \<or> tend s1 \<le> i)"
              using s'(3,4) s1(3,4) by auto
            then show "ws ! i = tbuf s1 ! i" using ws s'(6) by metis
          qed (use sz le in auto)
          show "thumb_code ws area (off + kind_width ?k) ?rest (tstart s + em_start em) (tend s - em_end em) (tstart s')"
            using s'(5) ws s1(3,4) by simp
        qed
        moreover have "tbuf s' ! i = tbuf s ! i" if "i < tstart s \<or> tend s \<le> i" for i
        proof -
          have "i < tstart s1 \<or> tend s1 \<le> i" using that s1(3,4) by auto
          then show ?thesis using s'(6) s1(6) that by metis
        qed
        moreover have "thumb_relocate area off hs s = Some (Some s')" using step Some s1(1) s'(1) by simp
        ultimately show ?thesis using False s'(2,3,4) s1(3,4) by (simp only: if_False) (intro exI [of _ s'], auto)
      qed
    qed
  qed
qed

section \<open>The patched instructions\<close>

lemma sub_mask: "h AND M = c \<Longrightarrow> M AND m = m \<Longrightarrow> h AND m = c AND m" for h :: u16
  by (metis and.assoc)

lemma wide_kind_32bit: "wide_kind (thumb_kind h h') \<longleftrightarrow> T_32bit_i h"
proof -
  have "\<not> T_32bit_i h" if "T_pcrel_ldr h"
    using sub_mask [of h "0xf800" "0x4800" "0xe000"] that by (simp add: T_pcrel_ldr_def T_32bit_i_def)
  moreover have "\<not> T_32bit_i h" if "T_pcrel_b h"
    using sub_mask [of h "0xf000" "0xd000" "0xe000"] that by (simp add: T_pcrel_b_def T_32bit_i_def)
  moreover have "T_32bit_i h" if "T2_pcrel_b h h' \<or> T_pcrel_bl h h'"
  proof -
    have "h AND 0xf800 = 0xf000" using that by (auto simp: T2_pcrel_b_def T_pcrel_bl_def)
    then show ?thesis using sub_mask [of h "0xf800" "0xf000" "0xe000"] sub_mask [of h "0xf800" "0xf000" "0x1800"]
      by (simp add: T_32bit_i_def)
  qed
  moreover have "\<not> T_32bit_i h" if "T_pcrel_cbz h"
    using sub_mask [of h "0xf500" "0xb100" "0xe000 AND 0xf500"] sub_mask [of h "0xe000" "0xe000" "0x4000"]
      sub_mask [of h "0xf500" "0xb100" "0x4000"] that
    by (auto simp: T_pcrel_cbz_def T_32bit_i_def)
  moreover have "T_32bit_i h" if "T_pcrel_ldrw h"
    using sub_mask [of h "0xff7f" "0xf85f" "0xe000"] sub_mask [of h "0xff7f" "0xf85f" "0x1800"] that
    by (simp add: T_pcrel_ldrw_def T_32bit_i_def)
  moreover have "\<not> T_32bit_i h" if "T_pcrel_add h"
    using sub_mask [of h "0xff78" "0x4478" "0xe000"] that by (simp add: T_pcrel_add_def T_32bit_i_def)
  ultimately show ?thesis by (auto simp: thumb_kind_def wide_kind_def)
qed

lemma width_kind: "MSGetInstructionWidthThumb h = 2 * kind_width (thumb_kind h h')"
  by (simp add: MSGetInstructionWidthThumb_def kind_width_def wide_kind_32bit)

definition area_segment :: "(uintptr \<Rightarrow> u16) \<Rightarrow> uintptr \<Rightarrow> nat \<Rightarrow> nat \<Rightarrow> u16 list" where
  "area_segment m area i n = map (\<lambda>i. m (area + 2 * of_nat i)) [i..<n]"

lemma thumb_used_ok:
  assumes "even used" "even required"
  shows "let u = thumb_used m area required used
     in even u \<and> required \<le> u \<and> used \<le> u \<and> (used < required \<longrightarrow> u \<le> required + 2)
        \<and> thumb_extra (area_segment m area (used div 2) (u div 2)) \<noteq> None"
  using assms
proof (induction m area required used rule: thumb_used.induct)
  case (1 m area required used)
  show ?case
  proof (cases "used < required")
    case False
    then show ?thesis using 1(2) by (simp add: thumb_used.simps [of m area required used] area_segment_def)
  next
    case True
    define w where "w = MSGetInstructionWidthThumb (m (area + of_nat used))"
    define u where "u = thumb_used m area required (used + w)"
    have e: "thumb_used m area required used = u"
      using True by (simp add: thumb_used.simps [of m area required used] u_def w_def)
    have w: "w = 2 \<or> w = 4" by (simp add: w_def MSGetInstructionWidthThumb_def)
    then have ew: "even (used + w)" using 1(2) by auto
    have ih: "even u" "required \<le> u" "used + w \<le> u" "used + w < required \<longrightarrow> u \<le> required + 2"
      "thumb_extra (area_segment m area ((used + w) div 2) (u div 2)) \<noteq> None"
      using 1(1) [OF True, folded w_def, OF ew 1(3)] by (simp_all add: u_def Let_def)
    let ?seg = "area_segment m area (used div 2) (u div 2)"
    have lt: "used div 2 < u div 2" using ih(1,3) w 1(2) by (auto elim!: evenE)
    then have ne: "?seg \<noteq> []" by (simp add: area_segment_def)
    have "2 * of_nat (used div 2) = (of_nat used :: u32)"
      using 1(2) by (metis dvd_mult_div_cancel of_nat_mult of_nat_numeral)
    then have hd: "hd ?seg = m (area + of_nat used)" using lt by (simp add: area_segment_def hd_map)
    have kw: "2 * kind_width (first_kind ?seg) = w"
      unfolding first_kind_def hd w_def by (rule width_kind [symmetric])
    have "(used + w) div 2 = used div 2 + kind_width (first_kind ?seg)"
      unfolding kw [symmetric] by simp
    then have "after_first ?seg = area_segment m area ((used + w) div 2) (u div 2)"
      unfolding after_first_def area_segment_def drop_map drop_upt by simp
    moreover have "complete_first ?seg"
      using ih(1,3) kw 1(2) by (auto simp: complete_first_def area_segment_def elim!: evenE)
    ultimately have "thumb_extra ?seg \<noteq> None" using ih(5) ne by (simp add: thumb_extra_step)
    moreover have "u \<le> required + 2"
    proof (cases "used + w < required")
      case False
      have "u = used + w" using False by (simp add: u_def thumb_used.simps [of m area required "used + w"])
      then show ?thesis using True w 1(2,3) by (auto elim!: evenE)
    qed (use ih(4) in simp)
    ultimately show ?thesis using ih e by (simp add: Let_def)
  qed
qed

lemma thumb_extra_even: "thumb_extra hs = Some x \<Longrightarrow> even x"
proof (induction hs arbitrary: x rule: measure_induct_rule [of length])
  case (less hs)
  show ?case
  proof (cases "hs = []")
    case False
    then obtain y where "thumb_extra (after_first hs) = Some y" "x = kind_extra (first_kind hs) + y"
      using less.prems by (auto simp: thumb_extra_step split: if_splits)
    moreover have "even (kind_extra (first_kind hs))" by (cases "first_kind hs") (simp_all add: kind_extra_def)
    ultimately show ?thesis using less.IH [OF after_first_shorter [OF False]] by simp
  qed (use less.prems in simp)
qed

lemma thumb_buffer_ok:
  assumes x: "thumb_extra backup = Some x"
  defines "len \<equiv> 2 * length backup + x"
  shows "if thumb_bad backup then thumb_buffer area backup len = Some None
    else \<exists>ws st. thumb_buffer area backup len = Some (Some ws) \<and> 2 * length ws = thumb_length len
      \<and> thumb_code ws area 0 backup (thumb_pad len) (length ws) st \<and> st + 6 \<le> length ws
      \<and> (\<forall>j<6. ws ! (st + j) = ucast (thumb_exit area (2 * length backup) ! j))"
proof -
  define n where "n = thumb_length len div 2"
  let ?s = "\<lparr>tbuf = replicate n 0, tstart = thumb_pad len, tend = n, ttrailer = n\<rparr>"
  have n: "thumb_length len = 2 * n" "n = thumb_pad len + (length backup + x div 2 + 6)"
    using thumb_extra_even [OF x] by (auto simp: n_def thumb_length_def len_def elim!: evenE)
  have room: "thumb_room n (length backup + x div 2 + 6) ?s" by (simp add: thumb_room_def n(2))
  note r = thumb_relocate_ok [OF x room, of area 0]
  show ?thesis
  proof (cases "thumb_bad backup")
    case True
    then show ?thesis using r by (simp add: thumb_buffer_def n_def [symmetric])
  next
    case False
    with r obtain s' where s': "thumb_relocate area 0 backup ?s = Some (Some s')" "thumb_room n 6 s'"
      and code: "\<forall>ws. (\<forall>i. i < tstart s' \<or> tend s' \<le> i \<longrightarrow> ws ! i = tbuf s' ! i)
           \<longrightarrow> thumb_code ws area 0 backup (tstart ?s) (tend ?s) (tstart s')"
      by (simp only: if_False) (elim exE conjE)
    let ?vs = "thumb_exit area (2 * length backup)"
    have l6: "length ?vs = 6" by (simp add: thumb_exit_def Let_def)
    have room': "length (tbuf s') = n" "tend s' \<le> n" "tstart s' + 6 = tend s'"
      using s'(2) by (auto simp: thumb_room_def)
    then have "tstart s' + length ?vs \<le> length (tbuf s')" using l6 by simp
    from tput_all_ok [OF this] obtain ws where ws: "tput_all (tstart s') ?vs s' = Some (s'\<lparr>tbuf := ws\<rparr>)"
      "length ws = n" "\<forall>j<length ?vs. ws ! (tstart s' + j) = ucast (?vs ! j)"
      "\<forall>i. i < tstart s' \<or> tstart s' + length ?vs \<le> i \<longrightarrow> ws ! i = tbuf s' ! i"
      unfolding room'(1) by (elim exE conjE)
    have "thumb_buffer area backup len = Some (Some ws)"
      using s'(1) ws(1) by (simp add: thumb_buffer_def thumb_finish_def n_def [symmetric] Let_def)
    moreover have "thumb_code ws area 0 backup (thumb_pad len) (length ws) (tstart s')"
    proof -
      have "\<forall>i. i < tstart s' \<or> tend s' \<le> i \<longrightarrow> ws ! i = tbuf s' ! i"
        using ws(4) room'(3) l6 by (simp only:)
      then show ?thesis using code ws(2) by simp
    qed
    moreover have "\<forall>j<6. ws ! (tstart s' + j) = ucast (?vs ! j)" using ws(3) unfolding l6 .
    ultimately show ?thesis using False ws(2) n(1) room' by auto
  qed
qed

section \<open>Hooking\<close>

definition thumb_patch_words :: "nat \<Rightarrow> nat \<Rightarrow> u32 \<Rightarrow> u16 list" where
  "thumb_patch_words align blank replace =
     replicate align (ucast T_nop) @ [ucast (T_bx A_pc), ucast T_nop, lo16 A_jump, hi16 A_jump, lo16 replace, hi16 replace]
       @ replicate blank (ucast T_nop)"

lemma write_all_ok:
  assumes "\<And>i. i < length vs \<Longrightarrow> rwx s (a + 2 * of_nat i)"
  shows "write_all a vs s = Some (s\<lparr>hmem := store_code a vs (hmem s)\<rparr>)"
  using assms
proof (induction vs arbitrary: a s)
  case (Cons v vs)
  let ?s = "s\<lparr>hmem := (hmem s)(a := v)\<rparr>"
  have "rwx ?s (a + 2 + 2 * of_nat i)" if "i < length vs" for i
    using Cons.prems [of "Suc i"] that by (simp add: algebra_simps)
  then show ?case using Cons.IH [of ?s "a + 2"] Cons.prems [of 0] by (simp add: write16_def fun_upd_def)
qed simp

lemma thumb_patch_write_all:
  assumes "align \<le> 1"
  shows "thumb_patch area align blank replace s = write_all area (thumb_patch_words align blank replace) s"
proof -
  have "align = 0 \<or> align = 1" using assms by auto
  then show ?thesis
    by (auto simp: thumb_patch_def thumb_patch_words_def write32_def Let_def add.assoc Option.bind_assoc
        intro!: Option.bind_cong)
qed

lemma thumb_extra_le: "thumb_extra hs = Some x \<Longrightarrow> x \<le> 32 * length hs"
proof (induction hs arbitrary: x rule: measure_induct_rule [of length])
  case (less hs)
  show ?case
  proof (cases "hs = []")
    case False
    then obtain y where y: "thumb_extra (after_first hs) = Some y" "x = kind_extra (first_kind hs) + y"
      using less.prems by (auto simp: thumb_extra_step split: if_splits)
    have "y \<le> 32 * length (after_first hs)" by (rule less.IH [OF after_first_shorter [OF False] y(1)])
    moreover have "kind_extra (first_kind hs) \<le> 32" by (cases "first_kind hs") (simp_all add: kind_extra_def)
    ultimately show ?thesis using y(2) after_first_shorter [OF False] by simp
  qed (use less.prems in simp)
qed

text \<open>The situation in which a function can be hooked, and the names of the parts.\<close>

definition thumb_hook_ok :: "code_env \<Rightarrow> uintptr \<Rightarrow> uintptr \<Rightarrow> code_state \<Rightarrow> bool" where
  "thumb_hook_ok e area buffer s \<longleftrightarrow>
     ce_page e = 4096 \<and> (\<forall>a n. ce_mprotect_ok e a n) \<and> (\<forall>a n. ce_mprotect_rx_ok e a n)
     \<and> area \<noteq> 0 \<and> unat area + 16 \<le> 2 ^ 32 \<and> (\<forall>n. ce_mmap e (maps s) n = Some buffer)
     \<and> apart buffer 300 area 16"

definition thumb_align :: "uintptr \<Rightarrow> nat" where
  "thumb_align area = (if area AND 2 = 0 then 0 else 1)"

definition thumb_used_of :: "(uintptr \<Rightarrow> u16) \<Rightarrow> uintptr \<Rightarrow> nat" where
  "thumb_used_of m area = thumb_used m area (2 * thumb_align area + 12) 0"

definition thumb_backup :: "(uintptr \<Rightarrow> u16) \<Rightarrow> uintptr \<Rightarrow> u16 list" where
  "thumb_backup m area = area_words m area (thumb_used_of m area div 2)"

lemma thumb_used_of_bounds:
  "even (thumb_used_of m area)" "2 * thumb_align area + 12 \<le> thumb_used_of m area"
  "thumb_used_of m area \<le> 2 * thumb_align area + 14" "thumb_used_of m area \<le> 16"
  "thumb_extra (thumb_backup m area) \<noteq> None" "2 * length (thumb_backup m area) = thumb_used_of m area"
proof -
  have "even (2 * thumb_align area + 12)" by simp
  from thumb_used_ok [OF even_zero this, of m area]
  have u: "even (thumb_used_of m area)" "2 * thumb_align area + 12 \<le> thumb_used_of m area"
    "thumb_used_of m area \<le> 2 * thumb_align area + 14" "thumb_extra (thumb_backup m area) \<noteq> None"
    unfolding thumb_backup_def area_words_def thumb_used_of_def area_segment_def
    by (simp_all add: Let_def)
  show "even (thumb_used_of m area)" "2 * thumb_align area + 12 \<le> thumb_used_of m area"
    "thumb_used_of m area \<le> 2 * thumb_align area + 14" "thumb_extra (thumb_backup m area) \<noteq> None" by (fact u)+
  show "thumb_used_of m area \<le> 16" using u(3) by (simp add: thumb_align_def split: if_splits)
  show "2 * length (thumb_backup m area) = thumb_used_of m area"
    using u(1) by (simp add: thumb_backup_def area_words_def)
qed

definition thumb_hooked_mem :: "(uintptr \<Rightarrow> u16) \<Rightarrow> uintptr \<Rightarrow> uintptr \<Rightarrow> u32 \<Rightarrow> u16 list \<Rightarrow> uintptr \<Rightarrow> u16" where
  "thumb_hooked_mem m area buffer replace ws =
     (let align = thumb_align area
      in store_code area (thumb_patch_words align ((thumb_used_of m area - (2 * align + 12)) div 2) replace)
           (store_code buffer ws m))"

lemma length_thumb_patch_words:
  "length (thumb_patch_words (thumb_align area) ((thumb_used_of m area - (2 * thumb_align area + 12)) div 2) replace)
     = thumb_used_of m area div 2"
  using thumb_used_of_bounds(1,2) [where m = m and area = area]
  by (auto simp: thumb_patch_words_def elim!: evenE)

lemma hook_thumb_spec:
  assumes ok: "thumb_hook_ok e area buffer s" and nh: "\<not> thumb_hooked (hmem s) area (thumb_align area)"
  defines "hs \<equiv> thumb_backup (hmem s) area" and "u \<equiv> thumb_used_of (hmem s) area"
  obtains x where "thumb_extra hs = Some x"
    and "thumb_bad hs \<Longrightarrow> \<exists>s'. SubstrateHookFunctionThumb e area replace True s = Some (0, Some 0, s') \<and> hmem s' = hmem s"
    and "\<not> thumb_bad hs \<Longrightarrow> \<exists>s' ws st.
      SubstrateHookFunctionThumb e area replace True s = Some (u, Some (buffer + 2 * of_nat (thumb_pad (u + x)) + 1), s')
      \<and> hmem s' = thumb_hooked_mem (hmem s) area buffer replace ws
      \<and> 2 * length ws = thumb_length (u + x) \<and> length ws \<le> 150
      \<and> thumb_code ws area 0 hs (thumb_pad (u + x)) (length ws) st \<and> st + 6 \<le> length ws
      \<and> (\<forall>j<6. ws ! (st + j) = ucast (thumb_exit area u ! j))"
proof -
  note b = thumb_used_of_bounds [where m = "hmem s" and area = area, folded hs_def u_def]
  obtain x where x: "thumb_extra hs = Some x" using b(5) by auto
  let ?al = "thumb_align area" and ?req = "2 * thumb_align area + 12"
  let ?blank = "(u - ?req) div 2" and ?len = "of_nat (thumb_length (u + x)) :: u32"
  let ?s1 = "s\<lparr>maps := (buffer, ?len) # maps s\<rparr>"
  have u2: "(thumb_used (hmem s) area ?req 0 + 1) div 2 * 2 = u"
    using b(1) unfolding u_def thumb_used_of_def by (auto elim!: evenE)
  have aw: "area_words (hmem s) area (u div 2) = hs" by (simp add: hs_def thumb_backup_def u_def)
  have al: "(if area AND 2 = 0 then 0 else 1) = ?al" by (simp add: thumb_align_def)
  have ok': "area \<noteq> 0" "\<And>n. ce_mmap e (maps s) n = Some buffer" "\<And>a n. ce_mprotect_rx_ok e a n"
    using ok by (auto simp: thumb_hook_ok_def)
  note tb = thumb_buffer_ok [OF x, of area, unfolded b(6)]
  define patch where "patch r s = map_option (\<lambda>s. (u, r, s))
      (with_hook_memory e area (of_nat u) (thumb_patch area ?al ?blank replace) s)" for r :: "uintptr option" and s
  have F: "SubstrateHookFunctionThumb e area replace True s =
      (case thumb_buffer area hs (u + x) of
         None \<Rightarrow> None
       | Some None \<Rightarrow> Some (0, Some 0, ?s1\<lparr>maps := removeAll (buffer, ?len) (maps ?s1)\<rparr>)
       | Some (Some ws) \<Rightarrow> patch (Some (buffer + 2 * of_nat (thumb_pad (u + x)) + 1))
           (?s1\<lparr>hmem := store_code buffer ws (hmem ?s1)\<rparr>))"
    unfolding SubstrateHookFunctionThumb_def al Let_def u2 aw x patch_def using ok' nh
    by (simp split: option.splits)
  have "\<exists>s'. SubstrateHookFunctionThumb e area replace True s = Some (0, Some 0, s') \<and> hmem s' = hmem s"
    if "thumb_bad hs" using F tb that by simp
  moreover have "\<exists>s' ws st.
      SubstrateHookFunctionThumb e area replace True s = Some (u, Some (buffer + 2 * of_nat (thumb_pad (u + x)) + 1), s')
      \<and> hmem s' = thumb_hooked_mem (hmem s) area buffer replace ws
      \<and> 2 * length ws = thumb_length (u + x) \<and> length ws \<le> 150
      \<and> thumb_code ws area 0 hs (thumb_pad (u + x)) (length ws) st \<and> st + 6 \<le> length ws
      \<and> (\<forall>j<6. ws ! (st + j) = ucast (thumb_exit area u ! j))"
    if nb: "\<not> thumb_bad hs"
  proof -
    from tb nb obtain ws st where ws: "thumb_buffer area hs (u + x) = Some (Some ws)"
      "2 * length ws = thumb_length (u + x)" "thumb_code ws area 0 hs (thumb_pad (u + x)) (length ws) st"
      "st + 6 \<le> length ws" "\<forall>j<6. ws ! (st + j) = ucast (thumb_exit area u ! j)"
      by (simp only: if_False) (elim exE conjE)
    have "thumb_length (u + x) \<le> 300"
      using thumb_extra_le [OF x] b(4,6) by (simp add: thumb_length_def thumb_pad_def)
    then have len: "length ws \<le> 150" using ws(2) by simp
    let ?s2 = "?s1\<lparr>hmem := store_code buffer ws (hmem ?s1)\<rparr>"
    let ?vs = "thumb_patch_words ?al ?blank replace"
    have lv: "length ?vs = u div 2" unfolding u_def by (rule length_thumb_patch_words)
    have "\<exists>s'. with_hook_memory e area (of_nat u) (thumb_patch area ?al ?blank replace) ?s2 = Some s'
        \<and> hmem s' = store_code area ?vs (hmem ?s2) \<and> maps s' = maps ?s2"
    proof (rule with_hook_memory_ok)
      fix s1 :: code_state assume s1: "hmem s1 = hmem ?s2" "\<And>i. i < u \<Longrightarrow> rwx s1 (area + of_nat i)"
      have "rwx s1 (area + 2 * of_nat i)" if "i < length ?vs" for i
        using s1(2) [of "2 * i"] that lv b(1) by (auto elim!: evenE)
      then show "thumb_patch area ?al ?blank replace s1 = Some (s1\<lparr>hmem := store_code area ?vs (hmem s1)\<rparr>)"
        by (subst thumb_patch_write_all) (auto simp: thumb_align_def intro: write_all_ok)
    qed (use ok b(2,4) in \<open>auto simp: thumb_hook_ok_def\<close>)
    then obtain s' where s': "with_hook_memory e area (of_nat u) (thumb_patch area ?al ?blank replace) ?s2 = Some s'"
      "hmem s' = store_code area ?vs (store_code buffer ws (hmem s))" by auto
    have "hmem s' = thumb_hooked_mem (hmem s) area buffer replace ws"
      using s'(2) by (simp add: thumb_hooked_mem_def u_def Let_def)
    moreover have "SubstrateHookFunctionThumb e area replace True s
        = Some (u, Some (buffer + 2 * of_nat (thumb_pad (u + x)) + 1), s')"
      using F ws(1) s'(1) by (simp add: patch_def)
    ultimately show ?thesis using ws len by blast
  qed
  ultimately show thesis using that x by blast
qed

end
