(* ===== verification/ThumbTargets.thy ===== *)
theory ThumbTargets
  imports SubstrateThumb
begin

text \<open>
  What the instructions written to the buffer for a hooked Thumb function do: where the copied
  branches and literal loads lead, compared with the instructions they were made from.
\<close>

section \<open>Branch targets\<close>

lemma bit_sign_extend:
  "n < 32 \<Longrightarrow> bit (sign_extend n w) i \<longleftrightarrow> i < 32 \<and> bit w (if i + n < 32 then i else 31 - n)"
proof -
  assume n: "n < 32"
  have l: "LENGTH(32) = 32" "(32::nat) - 1 = 31" by simp_all
  have p: "bit (push_bit n w) k \<longleftrightarrow> n \<le> k \<and> k < 32 \<and> bit w (k - n)" for k
    by (auto simp: bit_push_bit_iff dest: bit_imp_le_length)
  show ?thesis
  proof (cases "i + n < 32")
    case True
    then have "\<not> (32 - n \<le> i \<and> i < 32)" by auto
    with True show ?thesis unfolding sign_extend_def bit_signed_drop_bit_iff p l by simp
  next
    case False
    then show ?thesis using n
      unfolding sign_extend_def bit_signed_drop_bit_iff p l by (cases "i < 32") auto
  qed
qed

lemma sign_extend_sum:
  assumes "n < 32" "w = w AND mask (32 - n)"
  shows "sign_extend n w = w + (if bit w (31 - n) then - (2 ^ (32 - n)) else 0)"
proof -
  have hi: "\<not> bit w i" if "32 - n \<le> i" for i
    using that by (subst assms(2)) (simp add: bit_simps)
  have neg: "(- (2 ^ (32 - n)) :: u32) = NOT (mask (32 - n))" by (simp add: minus_exp_eq_not_mask)
  let ?e = "if bit w (31 - n) then NOT (mask (32 - n)) else (0::u32)"
  have "sign_extend n w = w OR ?e"
  proof (rule bit_word_eqI)
    fix i assume "i < LENGTH(32)"
    then show "bit (sign_extend n w) i \<longleftrightarrow> bit (w OR ?e) i"
      using assms(1) hi [of i] by (cases "i = 31 - n") (auto simp: bit_sign_extend bit_simps)
  qed
  also have "\<dots> = w + ?e"
    by (rule disjunctive_add_eq_or [symmetric], rule bit_word_eqI) (use hi in \<open>auto simp: bit_simps\<close>, meson not_le_imp_less)
  finally show ?thesis by (simp add: neg)
qed

lemma bit_fld: "bit (fld k n h) i \<longleftrightarrow> i < n \<and> bit h (i + k)"
  by (auto simp: fld_def bit_simps add.commute dest: bit_imp_le_length)

lemma or_add: "a AND b = 0 \<Longrightarrow> a OR b = a + b" for a b :: u32
  by (rule disjunctive_add_eq_or [symmetric])

text \<open>The offsets of the processor manual: sums of the fields with their weights, the sign with a
  negative one.\<close>

definition sgn_bit :: "u16 \<Rightarrow> u32" where "sgn_bit h = of_bool (bit h 10)"
definition i_bit :: "u16 \<Rightarrow> u16 \<Rightarrow> nat \<Rightarrow> u32" where "i_bit h h' k = of_bool (bit h' k = bit h 10)"

definition offset_b :: "u16 \<Rightarrow> u32" where
  "offset_b h = 2 * fld 0 8 h - 2 ^ 9 * of_bool (bit h 7)"

definition offset_bcond :: "u16 \<Rightarrow> u16 \<Rightarrow> u32" where
  "offset_bcond h h' = 2 * fld 0 11 h' + 2 ^ 12 * fld 0 6 h + 2 ^ 18 * of_bool (bit h' 13)
     + 2 ^ 19 * of_bool (bit h' 11) - 2 ^ 20 * sgn_bit h"

definition offset_bl :: "u16 \<Rightarrow> u16 \<Rightarrow> u32" where
  "offset_bl h h' = 2 * fld 0 11 h' + 2 ^ 12 * fld 0 10 h + 2 ^ 22 * i_bit h h' 11 + 2 ^ 23 * i_bit h h' 13
     - 2 ^ 24 * sgn_bit h"

lemma fld_bit: "fld k 1 h = of_bool (bit h k)"
  by (rule bit_word_eqI) (auto simp: bit_fld bit_simps)

lemma i_word: "NOT (fld 10 1 h XOR fld k 1 h') AND 1 = i_bit h h' k"
  by (rule bit_word_eqI) (auto simp: bit_fld bit_simps i_bit_def fld_bit)

lemma push_mult: "push_bit n w = 2 ^ n * w" for w :: u32
  by (simp add: push_bit_eq_mult mult.commute)

text \<open>Words whose bits lie below a position, so that alternatives are sums.\<close>

definition below :: "nat \<Rightarrow> u32 \<Rightarrow> bool" where
  "below n w \<longleftrightarrow> (\<forall>i. bit w i \<longrightarrow> i < n)"

lemma below_simps:
  "n \<le> m \<Longrightarrow> below m (fld k n h)" "0 < m \<Longrightarrow> below m 1" "0 < m \<Longrightarrow> below m (of_bool b)"
  "below m a \<Longrightarrow> below m b' \<Longrightarrow> below m (a OR b')"
  "below n w \<Longrightarrow> n + k \<le> m \<Longrightarrow> below m (push_bit k w)"
  by (auto simp: below_def bit_fld bit_1_iff bit_or_iff bit_push_bit_iff split: if_splits)

lemma below_mono: "below n w \<Longrightarrow> n \<le> m \<Longrightarrow> below m w"
  by (auto simp: below_def)

lemma or_push: "below n a \<Longrightarrow> a OR push_bit n w = a + 2 ^ n * w"
proof -
  assume b: "below n a"
  have "a AND push_bit n w = 0"
    using b by (intro bit_word_eqI) (auto simp: below_def bit_and_iff bit_push_bit_iff)
  then show ?thesis by (simp add: or_add push_mult)
qed

lemma below_mask: "below n w \<Longrightarrow> w = w AND mask n"
  by (rule bit_word_eqI) (auto simp: below_def bit_simps)

lemma sign_extend_below:
  "below (32 - n) w \<Longrightarrow> n < 32 \<Longrightarrow> sign_extend n w = w + (if bit w (31 - n) then - (2 ^ (32 - n)) else 0)"
  by (rule sign_extend_sum) (auto intro: below_mask)

lemma b_jump_offset: "b_jump h = offset_b h + 1"
proof -
  let ?w = "push_bit 1 (fld 0 8 h) OR 1"
  have "below 9 ?w" by (rule below_simps(4) [OF below_simps(5) [OF below_simps(1) [OF order_refl]] below_simps(2)]) simp_all
  then have "b_jump h = ?w + (if bit ?w 8 then - (2 ^ 9) else 0)"
    unfolding b_jump_def using sign_extend_below [of 23 ?w] by simp
  moreover have "bit ?w 8 \<longleftrightarrow> bit h 7" by (simp only: bit_or_iff bit_push_bit_iff bit_1_iff) (simp add: bit_fld)
  moreover have "?w = 1 + 2 * fld 0 8 h"
    using or_push [OF below_simps(2), of 1 "fld 0 8 h"] by (simp add: or.commute)
  ultimately show ?thesis by (simp add: offset_b_def)
qed


lemma fld_join: "fld 0 6 h OR push_bit 6 (fld 6 4 h) = fld 0 10 h"
  by (rule bit_word_eqI) (auto simp: bit_fld bit_or_iff bit_push_bit_iff)

lemma below_fields:
  "n + k \<le> m \<Longrightarrow> below m (push_bit k (fld j n h))" "k < m \<Longrightarrow> below m (push_bit k (of_bool b))"
  "k < m \<Longrightarrow> below m (push_bit k (i_bit h h' j))" "k < m \<Longrightarrow> below m (push_bit k (sgn_bit h))"
proof -
  show "n + k \<le> m \<Longrightarrow> below m (push_bit k (fld j n h))"
    by (rule below_simps(5) [OF below_simps(1) [OF order_refl]])
  show 1: "k < m \<Longrightarrow> below m (push_bit k (of_bool b))" for b
    by (rule below_simps(5) [OF below_simps(3) [of 1]]) auto
  show "k < m \<Longrightarrow> below m (push_bit k (i_bit h h' j))" "k < m \<Longrightarrow> below m (push_bit k (sgn_bit h))"
    unfolding i_bit_def sgn_bit_def by (rule 1, assumption)+
qed

lemma i_word_sgn: "NOT (sgn_bit h XOR fld k 1 h') AND 1 = i_bit h h' k"
  using i_word [of h k h'] unfolding fld_bit [of 10] sgn_bit_def .

text \<open>The fields of a long branch, from the lowest on.\<close>

lemma long_sum:
  fixes a b c d x :: u32
  assumes "below p1 x" "below p2 (push_bit p1 a)" "below p3 (push_bit p2 b)" "below p4 (push_bit p3 c)" "below p5 (push_bit p4 d)"
    and "p1 \<le> p2" "p2 \<le> p3" "p3 \<le> p4" "p4 \<le> p5"
  shows "(x OR push_bit p1 a OR push_bit p2 b OR push_bit p3 c OR push_bit p4 d OR push_bit p5 e)
     = x + 2 ^ p1 * a + 2 ^ p2 * b + 2 ^ p3 * c + 2 ^ p4 * d + 2 ^ p5 * e"
proof -
  let ?y1 = "x OR push_bit p1 a" let ?y2 = "?y1 OR push_bit p2 b" let ?y3 = "?y2 OR push_bit p3 c" let ?y4 = "?y3 OR push_bit p4 d"
  have y1: "below p2 ?y1" by (rule below_simps(4) [OF below_mono [OF assms(1,6)] assms(2)])
  have y2: "below p3 ?y2" by (rule below_simps(4) [OF below_mono [OF y1 assms(7)] assms(3)])
  have y3: "below p4 ?y3" by (rule below_simps(4) [OF below_mono [OF y2 assms(8)] assms(4)])
  have y4: "below p5 ?y4" by (rule below_simps(4) [OF below_mono [OF y3 assms(9)] assms(5)])
  show ?thesis
    using or_push [OF assms(1), of a] or_push [OF y1, of b] or_push [OF y2, of c] or_push [OF y3, of d] or_push [OF y4, of e]
    by (simp only: or.assoc [symmetric])
qed

lemma bl_jump_offset: "bl_jump h h' = offset_bl h h' + fld 12 1 h'"
proof -
  let ?x = "fld 12 1 h'" and ?i1 = "i_bit h h' 13" and ?i2 = "i_bit h h' 11"
  let ?w = "?x OR push_bit 1 (fld 0 11 h') OR push_bit 12 (fld 0 10 h) OR push_bit 22 ?i2 OR push_bit 23 ?i1 OR push_bit 24 (sgn_bit h)"
  have s: "fld 10 1 h = sgn_bit h" unfolding fld_bit sgn_bit_def ..
  have "bl_jump h h' = sign_extend 7 ?w"
    unfolding bl_jump_def Let_def s i_word_sgn by (simp only: or.assoc or.commute or.left_commute)
  moreover have "below 25 ?w" by (intro below_simps(4) below_fields below_simps(1)) simp_all
  moreover have "bit ?w 24 \<longleftrightarrow> bit h 10"
    by (simp only: bit_or_iff bit_push_bit_iff) (simp add: bit_fld i_bit_def sgn_bit_def)
  moreover have "?w = ?x + 2 ^ 1 * fld 0 11 h' + 2 ^ 12 * fld 0 10 h + 2 ^ 22 * ?i2 + 2 ^ 23 * ?i1 + 2 ^ 24 * sgn_bit h"
    by (rule long_sum; (intro below_fields below_simps(1))?) simp_all
  ultimately show ?thesis
    using sign_extend_below [of 7 ?w] by (simp add: offset_bl_def sgn_bit_def)
qed


lemma b2_jump_offset: "b2_jump h h' = (if fld 12 1 h' \<noteq> 0 then offset_bl h h' else offset_bcond h h') + 1"
proof -
  have s: "fld 10 1 h = sgn_bit h" unfolding fld_bit sgn_bit_def ..
  show ?thesis
  proof (cases "fld 12 1 h' = 0")
    case False
    let ?i1 = "i_bit h h' 13" and ?i2 = "i_bit h h' 11"
    let ?w = "1 OR push_bit 1 (fld 0 11 h') OR push_bit 12 (fld 0 10 h) OR push_bit 22 ?i2 OR push_bit 23 ?i1 OR push_bit 24 (sgn_bit h)"
    have "push_bit 12 (fld 0 10 h) = push_bit 12 (fld 0 6 h) OR push_bit 18 (fld 6 4 h)"
      unfolding fld_join [symmetric] push_bit_or by simp
    then have "b2_jump h h' = sign_extend 7 ?w"
      using False unfolding b2_jump_def Let_def s i_word_sgn
      by (simp only: if_True not_False_eq_True) (simp only: or.assoc or.commute or.left_commute)
    moreover have "below 25 ?w" by (intro below_simps(4) below_fields below_simps(1,2)) simp_all
    moreover have "bit ?w 24 \<longleftrightarrow> bit h 10"
      by (simp only: bit_or_iff bit_push_bit_iff) (simp add: bit_fld i_bit_def sgn_bit_def bit_1_iff)
    moreover have "?w = 1 + 2 ^ 1 * fld 0 11 h' + 2 ^ 12 * fld 0 10 h + 2 ^ 22 * ?i2 + 2 ^ 23 * ?i1 + 2 ^ 24 * sgn_bit h"
      by (rule long_sum; (intro below_fields below_simps(1,2))?) simp_all
    ultimately show ?thesis
      using False sign_extend_below [of 7 ?w] by (simp add: offset_bl_def sgn_bit_def)
  next
    case True
    let ?w = "1 OR push_bit 1 (fld 0 11 h') OR push_bit 12 (fld 0 6 h) OR push_bit 18 (fld 13 1 h') OR push_bit 19 (fld 11 1 h')
      OR push_bit 20 (sgn_bit h)"
    have "b2_jump h h' = sign_extend 11 ?w"
      using True unfolding b2_jump_def Let_def s i_word_sgn
      by (simp only: if_False simp_thms) (simp only: or.assoc or.commute or.left_commute)
    moreover have "below 21 ?w" by (intro below_simps(4) below_fields below_simps(1,2)) simp_all
    moreover have "bit ?w 20 \<longleftrightarrow> bit h 10"
      by (simp only: bit_or_iff bit_push_bit_iff) (simp add: bit_fld sgn_bit_def bit_1_iff)
    moreover have "?w = 1 + 2 ^ 1 * fld 0 11 h' + 2 ^ 12 * fld 0 6 h + 2 ^ 18 * fld 13 1 h' + 2 ^ 19 * fld 11 1 h' + 2 ^ 20 * sgn_bit h"
      by (rule long_sum; (intro below_fields below_simps(1,2))?) simp_all
    ultimately show ?thesis
      using True sign_extend_below [of 11 ?w] by (simp add: offset_bcond_def sgn_bit_def fld_bit [simplified])
  qed
qed

section \<open>Literals\<close>

text \<open>The addresses that the literal loads of the processor manual read.\<close>

definition lit_addr :: "uintptr \<Rightarrow> u32 \<Rightarrow> uintptr" where
  "lit_addr a h = ((a + 4) AND NOT 3) + 4 * (h AND 0xff)"

definition litw_addr :: "uintptr \<Rightarrow> u32 \<Rightarrow> uintptr" where
  "litw_addr a h' = ((a + 4) AND NOT 3) + (h' AND 0xfff)"

lemma align_simps:
  fixes x :: u32
  assumes "x AND 3 = 0"
  shows "x AND NOT 3 = x" "(x + 2) AND NOT 3 = x" "(x + 4 * y) AND 3 = 0"
proof -
  have m: "(3::u32) = mask 2" by (simp add: mask_eq_exp_minus_1)
  have lo: "\<not> bit x i" if "i < 2" for i
  proof
    assume "bit x i"
    then have "bit (x AND mask 2) i" using that by (simp add: bit_simps)
    then show False using assms unfolding m by simp
  qed
  show "x AND NOT 3 = x" unfolding m
  proof (rule bit_word_eqI)
    fix i
    show "bit (x AND NOT (mask 2)) i \<longleftrightarrow> bit x i" using lo [of i] by (auto simp: bit_simps not_less dest: bit_imp_le_length)
  qed
  have "x AND 2 = (x AND 3) AND 2" by (simp add: and.assoc)
  then have "x AND 2 = 0" using assms by simp
  then have "x + 2 = x OR 2" by (rule or_add [symmetric])
  then have "(x + 2) AND NOT 3 = (x AND NOT 3) OR (2 AND NOT 3)" by (simp only: bit.conj_disj_distrib2)
  then show "(x + 2) AND NOT 3 = x" using \<open>x AND NOT 3 = x\<close> by simp
  have "4 dvd x" using assms unfolding m by (simp add: take_bit_eq_mask [symmetric] take_bit_eq_0_iff)
  then have "4 dvd x + 4 * y" by simp
  then show "(x + 4 * y) AND 3 = 0" unfolding m by (simp add: take_bit_eq_mask [symmetric] take_bit_eq_0_iff)
qed


text \<open>The distance that \<open>T_Label\<close> computes, as a natural number, and where it leads.\<close>

definition label_dist :: "nat \<Rightarrow> nat \<Rightarrow> nat" where
  "label_dist l r = 2 * (r - l) - (if even l then 4 else 2)"

lemma T_Label_dist:
  assumes "l + 2 \<le> r" "r \<le> 150"
  shows "T_Label (of_nat l) (of_nat r) = of_nat (label_dist l r)"
proof -
  have "(of_nat l :: u32) mod 2 = 0 \<longleftrightarrow> even l"
  proof -
    have "(of_nat l :: u32) mod 2 = of_nat (l mod 2)"
      using assms by (simp add: word_unat_eq_iff unat_mod unat_of_nat)
    then show ?thesis by (cases "even l") (simp_all add: odd_iff_mod_2_eq_one)
  qed
  then show ?thesis using assms by (simp add: T_Label_def label_dist_def of_nat_diff algebra_simps)
qed

lemma label_dist_4:
  assumes "l + 2 \<le> r" "even r" "r \<le> 150"
  shows "label_dist l r = 4 * (label_dist l r div 4)" "label_dist l r div 4 < 256" "label_dist l r < 4096"
proof -
  show "label_dist l r = 4 * (label_dist l r div 4)"
  proof (cases "even l")
    case True
    then obtain k m where "l = 2 * k" "r = 2 * m" using assms(2) by (auto elim!: evenE)
    then have "label_dist l r = 4 * (m - k - 1)" using assms(1) True by (simp add: label_dist_def)
    then show ?thesis by simp
  next
    case False
    then obtain k m where "l = 2 * k + 1" "r = 2 * m" using assms(2) by (auto elim!: evenE oddE)
    then have "label_dist l r = 4 * (m - k - 1)" using assms(1) False by (simp add: label_dist_def)
    then show ?thesis by simp
  qed
qed (use assms in \<open>auto simp: label_dist_def\<close>)

lemma label_addr:
  fixes buf :: u32
  assumes "buf AND 3 = 0" "l + 2 \<le> r" "even r"
  shows "((buf + 2 * of_nat l + 4) AND NOT 3) + of_nat (label_dist l r) = buf + 2 * of_nat r"
proof (cases "even l")
  case True
  then obtain k where k: "l = 2 * k" by (auto elim!: evenE)
  have "buf + 2 * of_nat l + 4 = buf + 4 * of_nat (k + 1)" by (simp add: k)
  also have "\<dots> AND NOT 3 = \<dots>" by (rule align_simps(1) [OF align_simps(3) [OF assms(1)]])
  finally show ?thesis using assms(2) True by (simp add: label_dist_def k of_nat_diff algebra_simps)
next
  case False
  then obtain k where k: "l = 2 * k + 1" by (auto elim!: oddE)
  have "buf + 2 * of_nat l + 4 = (buf + 4 * of_nat (k + 1)) + 2" by (simp add: k)
  also have "\<dots> AND NOT 3 = buf + 4 * of_nat (k + 1)" by (rule align_simps(2) [OF align_simps(3) [OF assms(1)]])
  finally show ?thesis using assms(2) False by (simp add: label_dist_def k of_nat_diff algebra_simps)
qed

lemma ldr_pc_imm: "T_ldr_rd_pc_im_4 rd im AND 0xff = im AND 0xff"
proof -
  have m: "(0xff::u32) = mask 8" by (simp add: mask_eq_exp_minus_1)
  have "push_bit 8 rd AND (0xff::u32) = 0" unfolding m by (rule bit_word_eqI) (auto simp: bit_simps)
  then show ?thesis by (simp add: T_ldr_rd_pc_im_4_def bit.conj_disj_distrib2 and.assoc)
qed

lemma small_mask: "n < 256 \<Longrightarrow> of_nat n AND (0xff::u32) = of_nat n" "n < 4096 \<Longrightarrow> of_nat n AND (0xfff::u32) = of_nat n"
proof -
  have 1: "of_nat n AND mask k = (of_nat n :: u32)" if "n < 2 ^ k" "k \<le> 31" for k
  proof -
    have "n < 2 ^ 32" using that power_increasing [of k 32 "2::nat"] by simp
    then show ?thesis using that by (simp add: word_unat_eq_iff unat_and_mask unat_of_nat)
  qed
  show "n < 256 \<Longrightarrow> of_nat n AND (0xff::u32) = of_nat n" "n < 4096 \<Longrightarrow> of_nat n AND (0xfff::u32) = of_nat n"
    using 1 [of 8] 1 [of 12] by (simp_all add: mask_eq_exp_minus_1)
qed

lemma literal_hits:
  assumes "buf AND 3 = 0" "l + 2 \<le> r" "even r" "r \<le> 150"
  shows "lit_addr (buf + 2 * of_nat l) (T_ldr_rd_pc_im_4 rd (T_Label (of_nat l) (of_nat r) div 4)) = buf + 2 * of_nat r"
proof -
  let ?d = "label_dist l r"
  note d = label_dist_4 [OF assms(2,3,4)]
  have "(of_nat ?d :: u32) div 4 = of_nat (?d div 4)"
    using d by (simp add: word_unat_eq_iff unat_div unat_of_nat)
  then have "4 * (T_ldr_rd_pc_im_4 rd (T_Label (of_nat l) (of_nat r) div 4) AND 0xff) = (of_nat (4 * (?d div 4)) :: u32)"
    unfolding ldr_pc_imm T_Label_dist [OF assms(2,4)] using small_mask(1) [OF d(2)] by simp
  also have "4 * (?d div 4) = ?d" using d(1) by simp
  finally show ?thesis unfolding lit_addr_def using label_addr [OF assms(1,2,3)] by simp
qed

lemma bl_label:
  assumes "l + 2 \<le> r" "even r" "r \<le> 150"
  shows "((of_nat r - of_nat l) * 2 - 4 + 2) div 4 = T_Label (of_nat l) (of_nat r) div (4::u32)"
proof -
  have "(of_nat r - of_nat l) * 2 - 4 + 2 = (of_nat (2 * (r - l) - 2) :: u32)"
    using assms(1) by (simp add: of_nat_diff algebra_simps)
  moreover have "(2 * (r - l) - 2) div 4 = label_dist l r div 4"
  proof (cases "even l")
    case True
    then obtain k m where km: "l = 2 * k" "r = 2 * m" using assms(2) by (auto elim!: evenE)
    then have "2 * (r - l) - 2 = 4 * (m - k - 1) + 2" "label_dist l r = 4 * (m - k - 1)"
      using assms(1) by (auto simp: label_dist_def)
    then show ?thesis by simp
  qed (simp add: label_dist_def)
  moreover have "(of_nat n :: u32) div 4 = of_nat (n div 4)" if "n < 4096" for n
    using that by (simp add: word_unat_eq_iff unat_div unat_of_nat)
  moreover have "2 * (r - l) - 2 < 4096" "label_dist l r < 4096" using assms label_dist_4 [OF assms] by simp_all
  ultimately show ?thesis
    unfolding T_Label_dist [OF assms(1,3)] by (simp only:)
qed

lemma litw_hits:
  assumes "buf AND 3 = 0" "l + 2 \<le> r" "even r" "r \<le> 150"
  shows "litw_addr (buf + 2 * of_nat l) (T2_ldr_rt_rn_im rt rn (T_Label (of_nat l) (of_nat r))) = buf + 2 * of_nat r"
proof -
  note d = label_dist_4 [OF assms(2,3,4)]
  have "uint (of_nat (label_dist l r) :: u32) = int (label_dist l r)"
    using d(3) by (simp add: uint_nat unat_of_nat)
  then have w: "T2_ldr_rt_rn_im rt rn (T_Label (of_nat l) (of_nat r)) = push_bit 12 rt OR of_nat (label_dist l r)"
    unfolding T2_ldr_rt_rn_im_def T_Label_dist [OF assms(2,4)] using d(3) by (simp add: labs_small)
  have m: "(0xfff::u32) = mask 12" by (simp add: mask_eq_exp_minus_1)
  have "push_bit 12 rt AND (0xfff::u32) = 0" unfolding m by (rule bit_word_eqI) (auto simp: bit_simps)
  then have "T2_ldr_rt_rn_im rt rn (T_Label (of_nat l) (of_nat r)) AND 0xfff = of_nat (label_dist l r)"
    unfolding w using small_mask(2) [OF d(3)] by (simp add: bit.conj_disj_distrib2)
  then show ?thesis unfolding litw_addr_def using label_addr [OF assms(1,2,3)] by simp
qed

lemma even_not_2:
  fixes x :: u32
  assumes "even x"
  shows "x AND NOT 2 = x AND NOT 3"
proof -
  have n: "\<not> bit x 0" using assms by (simp add: bit_0)
  have s: "bit (2::u32) i \<longleftrightarrow> i = 1" "bit (3::u32) i \<longleftrightarrow> i = 0 \<or> i = 1" for i
  proof -
    have "(2::u32) = push_bit 1 1" "(3::u32) = mask 2" by (simp_all add: mask_eq_exp_minus_1)
    then show "bit (2::u32) i \<longleftrightarrow> i = 1" "bit (3::u32) i \<longleftrightarrow> i = 0 \<or> i = 1"
      by (auto simp only: bit_push_bit_iff bit_1_iff bit_mask_iff) auto
  qed
  show ?thesis
    by (rule bit_word_eqI) (auto simp only: bit_and_iff bit_not_iff s n)
qed

lemma fld_low: "fld 0 n h = ucast h AND mask n"
  by (simp add: fld_def)

section \<open>Branches inside the buffer\<close>

text \<open>The offsets of the narrow branches that are written to the buffer.\<close>

definition offset_b2 :: "u16 \<Rightarrow> u32" where
  "offset_b2 h = 2 * fld 0 11 h - 2 ^ 12 * of_bool (bit h 10)"

definition offset_cbz :: "u16 \<Rightarrow> u32" where
  "offset_cbz h = 2 * fld 3 5 h + 2 ^ 6 * fld 9 1 h"

lemma fld_ucast: "k + n \<le> 16 \<Longrightarrow> fld k n (ucast w) = drop_bit k w AND mask n" for w :: u32
  by (rule bit_word_eqI) (auto simp: fld_def bit_simps)

lemma drop_double: "d < 4096 \<Longrightarrow> drop_bit 1 (of_nat (2 * d) :: u32) = of_nat d"
proof -
  assume d: "d < 4096"
  have "unat (of_nat (2 * d) :: u32) = 2 * d" "unat (of_nat d :: u32) = d"
    using d by (simp_all only: unat_of_nat) simp_all
  then show ?thesis by (simp only: word_unat_eq_iff unat_drop_bit_eq) (simp add: drop_bit_eq_div)
qed

lemma fld_b_im:
  assumes "d < 128" "cond < 16"
  shows "fld 0 8 (ucast (T_b_im cond (of_nat (2 * d)))) = of_nat d \<or> cond = A_al"
    "\<not> bit (ucast (T_b_im cond (of_nat (2 * d))) :: u16) 7 \<or> cond = A_al"
    "fld 8 4 (ucast (T_b_im cond (of_nat (2 * d)))) = cond \<or> cond = A_al"
proof -
  note dd = drop_double [of d]
  have m: "(0xff::u32) = mask 8" by (simp add: mask_eq_exp_minus_1)
  have dm: "of_nat d AND (0xff::u32) = of_nat d" using assms(1) by (intro small_mask(1)) simp
  have db: "\<not> bit (of_nat d :: u32) i" if "7 \<le> i" for i
  proof -
    have "d < 2 ^ i" using assms(1) that power_increasing [of 7 i "2::nat"] by simp
    then have "\<not> bit d i" by (simp add: bit_iff_odd)
    then show ?thesis by (simp add: bit_of_nat_iff)
  qed
  have c: "cond = cond AND mask 4"
    using assms(2) by (simp add: word_unat_eq_iff unat_and_mask word_less_nat_alt)
  have cb: "bit cond i \<longleftrightarrow> i < 4 \<and> bit cond i" for i by (subst c) (auto simp: bit_simps)
  have e: "T_b_im cond (of_nat (2 * d)) = 0xd000 OR push_bit 8 cond OR of_nat d" if "cond \<noteq> A_al"
    unfolding T_b_im_def using dd dm that assms(1) by simp
  have "(0xd000::u32) = push_bit 12 0xd" by (simp add: push_bit_eq_mult)
  then have hb: "\<not> bit (0xd000::u32) i" if "i < 12" for i using that by (simp only: bit_push_bit_iff) simp
  let ?w = "T_b_im cond (of_nat (2 * d))"
  have w: "bit ?w i \<longleftrightarrow> (if i < 8 then bit (of_nat d :: u32) i else bit cond (i - 8))"
    if "cond \<noteq> A_al" "i < 12" for i
    unfolding e [OF that(1)] bit_or_iff bit_push_bit_iff using that(2) hb [of i] db [of i] by auto
  show "fld 0 8 (ucast ?w) = of_nat d \<or> cond = A_al"
  proof (rule disjCI, rule bit_word_eqI)
    fix i assume "cond \<noteq> A_al" "i < LENGTH(32)"
    then show "bit (fld 0 8 (ucast ?w)) i \<longleftrightarrow> bit (of_nat d :: u32) i"
      using w [of i] db [of i] by (cases "i < 8") (simp_all add: bit_fld bit_ucast_iff)
  qed
  show "\<not> bit (ucast ?w :: u16) 7 \<or> cond = A_al" using w [of 7] db [of 7] by (auto simp: bit_ucast_iff)
  show "fld 8 4 (ucast ?w) = cond \<or> cond = A_al"
  proof (rule disjCI, rule bit_word_eqI)
    fix i assume "cond \<noteq> A_al" "i < LENGTH(32)"
    then show "bit (fld 8 4 (ucast ?w)) i \<longleftrightarrow> bit cond i"
      using w [of "i + 8"] cb [of i] by (auto simp: bit_fld bit_ucast_iff)
  qed
qed

lemma fld_b_al:
  assumes "d < 1024"
  shows "fld 0 11 (ucast (T_b_im A_al (of_nat (2 * d)))) = of_nat d"
    "\<not> bit (ucast (T_b_im A_al (of_nat (2 * d))) :: u16) 10"
proof -
  note dd = drop_double [of d]
  have m: "(0x7ff::u32) = mask 11" by (simp add: mask_eq_exp_minus_1)
  have db: "\<not> bit (of_nat d :: u32) i" if "10 \<le> i" for i
  proof -
    have "d < 2 ^ i" using assms(1) that power_increasing [of 10 i "2::nat"] by simp
    then have "\<not> bit d i" by (simp add: bit_iff_odd)
    then show ?thesis by (simp add: bit_of_nat_iff)
  qed
  have "(0xe000::u32) = push_bit 13 7" by (simp add: push_bit_eq_mult)
  then have hb: "\<not> bit (0xe000::u32) i" if "i < 13" for i using that by (simp only: bit_push_bit_iff) simp
  let ?w = "T_b_im A_al (of_nat (2 * d))"
  have e: "?w = 0xe000 OR (of_nat d AND mask 11)" using dd assms by (simp add: T_b_im_def m)
  have w: "bit ?w i \<longleftrightarrow> bit (of_nat d :: u32) i" if "i < 11" for i
    unfolding e bit_or_iff bit_and_iff bit_mask_iff using that hb [of i] db [of i] by auto
  show "fld 0 11 (ucast ?w) = of_nat d"
  proof (rule bit_word_eqI)
    fix i assume "i < LENGTH(32)"
    then show "bit (fld 0 11 (ucast ?w)) i \<longleftrightarrow> bit (of_nat d :: u32) i"
      using w [of i] db [of i] by (cases "i < 11") (simp_all add: bit_fld bit_ucast_iff)
  qed
  show "\<not> bit (ucast ?w :: u16) 10" using w [of 10] db [of 10] by (auto simp: bit_ucast_iff)
qed

lemma cbz_fields:
  assumes "d < 64" "rn < 8"
  shows "fld 3 5 (ucast (T_cbz_rn_im cop rn (of_nat (2 * d)))) + 2 ^ 5 * fld 9 1 (ucast (T_cbz_rn_im cop rn (of_nat (2 * d)))) = of_nat d"
proof -
  let ?im = "of_nat (2 * d) :: u32" and ?w = "T_cbz_rn_im cop rn (of_nat (2 * d))"
  have lt: "\<not> bit v i" if "v < 2 ^ n" "n \<le> i" for v n i :: nat
  proof -
    have "v < 2 ^ i" using that(1) power_increasing [OF that(2), of "2::nat"] by linarith
    then show ?thesis by (simp add: bit_iff_odd)
  qed
  have db: "\<not> bit (of_nat d :: u32) i" if "6 \<le> i" for i
    using lt [of d 6 i] assms(1) that by (simp add: bit_of_nat_iff)
  have rb: "\<not> bit rn i" if "3 \<le> i" for i
  proof -
    have "\<not> bit (of_nat (unat rn) :: u32) i"
      using lt [of "unat rn" 3 i] assms(2) that by (simp only: bit_of_nat_iff) (simp add: word_less_nat_alt)
    then show ?thesis by simp
  qed
  have im: "bit ?im i \<longleftrightarrow> 1 \<le> i \<and> bit (of_nat d :: u32) (i - 1)" if "i < 32" for i
  proof -
    have "?im = push_bit 1 (of_nat d)" by (simp add: push_bit_eq_mult)
    then show ?thesis using that by (simp only: bit_push_bit_iff) auto
  qed
  have "(0xb100::u32) = push_bit 8 1 OR push_bit 12 0xb" "(0x40::u32) = push_bit 6 1" "(0x3e::u32) = push_bit 1 (mask 5)"
    by (simp_all add: push_bit_eq_mult mask_eq_exp_minus_1)
  then have cb: "bit (0xb100::u32) i \<longleftrightarrow> i = 8" "bit (0x40::u32) i \<longleftrightarrow> i = 6" "bit (0x3e::u32) i \<longleftrightarrow> 1 \<le> i \<and> i < 6"
    if "i < 12" for i using that by (simp_all only: bit_or_iff bit_push_bit_iff bit_1_iff bit_mask_iff) auto
  have w: "bit ?w i \<longleftrightarrow> (if i = 9 then bit (of_nat d :: u32) 5 else bit (of_nat d :: u32) (i - 3))"
    if "i = 9 \<or> 3 \<le> i \<and> i < 8" for i
  proof (cases "i = 9")
    case True
    have "\<not> bit rn 9" "\<not> bit (0xb100::u32) 9" "bit (0x40::u32) 6" "bit ?im 6 \<longleftrightarrow> bit (of_nat d :: u32) 5" "\<not> bit (0x3e::u32) 7"
      using rb [of 9] cb(1) [of 9] cb(2) [of 6] cb(3) [of 7] im [of 6] by simp_all
    then show ?thesis unfolding True T_cbz_rn_im_def bit_or_iff bit_push_bit_iff bit_drop_bit_eq o_def bit_and_iff by simp
  next
    case False
    define j where "j = i - 2"
    have j: "1 \<le> j" "j < 6" "i = j + 2" using that False by (auto simp: j_def)
    have "\<not> bit rn i" "\<not> bit (0xb100::u32) i" "bit (0x3e::u32) j" "bit ?im j \<longleftrightarrow> bit (of_nat d :: u32) (j - 1)"
      using j rb [of i] cb(1) [of i] cb(3) [of j] im [of j] by simp_all
    moreover have "1 + (i - 3) = j" "i - 3 = j - 1" using j by auto
    ultimately show ?thesis using j
      unfolding T_cbz_rn_im_def bit_or_iff bit_push_bit_iff bit_drop_bit_eq o_def bit_and_iff by simp
  qed
  have "fld 3 5 (ucast ?w) OR push_bit 5 (fld 9 1 (ucast ?w)) = of_nat d"
  proof (rule bit_word_eqI)
    fix i assume "i < LENGTH(32)"
    then show "bit (fld 3 5 (ucast ?w) OR push_bit 5 (fld 9 1 (ucast ?w))) i \<longleftrightarrow> bit (of_nat d :: u32) i"
      using w [of "i + 3"] w [of 9] db [of i]
      by (cases "i < 5"; cases "i = 5") (auto simp: bit_fld bit_ucast_iff bit_or_iff bit_push_bit_iff)
  qed
  then show ?thesis using or_push [of 5 "fld 3 5 (ucast ?w)" "fld 9 1 (ucast ?w)"] below_simps(1) [of 5 5 3 "ucast ?w"]
    by simp
qed

text \<open>What a relocated instruction has to do, for each kind: literal loads of the copy read the word
  that holds the address the original used, branches of the copy reach the jump in the trailer, and
  the jump leads where the original branch led (the lowest bit selects the instruction set). A
  compare-and-branch reaches its part of the trailer only when that is near enough.\<close>

definition emission_right :: "uintptr \<Rightarrow> u32 \<Rightarrow> u16 \<Rightarrow> u16 \<Rightarrow> nat \<Rightarrow> nat \<Rightarrow> emission \<Rightarrow> bool" where
  "emission_right buf pc h h' st en em \<longleftrightarrow>
     (let at = (\<lambda>i. buf + 2 * of_nat i); code = (\<lambda>i. ucast (em_code em ! i) :: u16)
      in case thumb_kind h h' of
        K_ldr \<Rightarrow> lit_addr (at st) (em_code em ! 0) = at (en - 2) \<and> em_words em = [lit_addr pc (ucast h)]
      | K_b \<Rightarrow> em_words em = jump_words (pc + 4 + offset_b h + 1)
          \<and> at st + 4 + offset_b (code 0) = at (en - 6) \<and> fld 8 4 (code 0) = fld 8 4 h
      | K_b2 \<Rightarrow> em_words em = jump_words (pc + 4 + (if bit h' 12 then offset_bl h h' else offset_bcond h h') + 1)
          \<and> (if bit h' 12 then at st + 4 + offset_b2 (code 0) = at (en - 6)
             else at st + 4 + offset_b (code 0) = at (en - 6) \<and> fld 8 4 (code 0) = fld 6 4 h)
      | K_bl \<Rightarrow> lit_addr (at (st + 1)) (em_code em ! 1) = at (en - 2)
          \<and> em_words em = [pc + 4 + offset_bl h h' + of_bool (bit h' 12)]
      | K_cbz \<Rightarrow> take 3 (em_words em) = jump_words (pc + 4 + offset_cbz h + 1)
          \<and> (en \<le> st + 78 \<longrightarrow> at (st + 3) + 4 + offset_cbz (code 3) = at (en - 10))
      | K_ldrw \<Rightarrow> litw_addr (at st) (em_code em ! 1) = at (en - 2)
          \<and> em_words em = [if bit h 7 then litw_addr pc (ucast h') else ((pc + 4) AND NOT 3) - (ucast h' AND 0xfff)]
      | K_add \<Rightarrow> lit_addr (at (st + 2)) (em_code em ! 2) = at (en - 2) \<and> em_words em = [pc + 4]
      | _ \<Rightarrow> em_words em = [])"

lemma and_three:
  fixes h :: u16
  assumes "bit h k" "bit h (k + 1)" "bit h (k + 2)" "k < 13"
  shows "h AND push_bit k (mask 3) = push_bit k (mask 3)"
proof (rule bit_word_eqI)
  fix n assume "n < LENGTH(16)"
  have "n = k \<or> n = k + 1 \<or> n = k + 2" if "k \<le> n" "n - k < 3" using that by auto
  then show "bit (h AND push_bit k (mask 3)) n \<longleftrightarrow> bit (push_bit k (mask 3) :: u16) n"
    using assms by (auto simp only: bit_and_iff bit_push_bit_iff bit_mask_iff)
qed

lemma cond_not_al:
  "thumb_kind h h' = K_b \<Longrightarrow> fld 8 4 h \<noteq> A_al"
  "thumb_kind h h' = K_b2 \<Longrightarrow> \<not> bit h' 12 \<Longrightarrow> fld 6 4 h \<noteq> A_al"
proof -
  have "(14::u32) = push_bit 1 (mask 3)" by (simp add: push_bit_eq_mult mask_eq_exp_minus_1)
  then have b14: "bit (14::u32) 1" "bit (14::u32) 2" "bit (14::u32) 3"
    by (simp_all only: bit_push_bit_iff bit_mask_iff) simp_all
  have m: "(0x0e00::u16) = push_bit 9 (mask 3)" "(0x0380::u16) = push_bit 7 (mask 3)"
    by (simp_all add: push_bit_eq_mult mask_eq_exp_minus_1)
  show "thumb_kind h h' = K_b \<Longrightarrow> fld 8 4 h \<noteq> A_al"
  proof
    assume "thumb_kind h h' = K_b" and al: "fld 8 4 h = A_al"
    then have "h AND 0x0e00 \<noteq> 0x0e00" by (auto simp: thumb_kind_def T_pcrel_b_def split: if_splits)
    moreover have "bit h 9" "bit h 10" "bit h 11" using b14 unfolding al [symmetric] bit_fld by simp_all
    ultimately show False using and_three [of h 9] unfolding m by simp
  qed
  show "thumb_kind h h' = K_b2 \<Longrightarrow> \<not> bit h' 12 \<Longrightarrow> fld 6 4 h \<noteq> A_al"
  proof
    assume k: "thumb_kind h h' = K_b2" and n: "\<not> bit h' 12" and al: "fld 6 4 h = A_al"
    have "h' AND 0xd000 \<noteq> 0x9000"
    proof
      assume "h' AND 0xd000 = 0x9000"
      then have "h' AND 0x1000 = 0x1000" using sub_mask [of h' "0xd000" "0x9000" "0x1000"] by simp
      moreover have "(0x1000::u16) = push_bit 12 1" by (simp add: push_bit_eq_mult)
      ultimately have "h' AND push_bit 12 1 = push_bit 12 1" by (simp only:)
      then have "bit (h' AND push_bit 12 1) 12 = bit (push_bit 12 1 :: u16) 12" by (rule arg_cong)
      then show False using n unfolding bit_and_iff bit_push_bit_iff by simp
    qed
    then have "h AND 0x0380 \<noteq> 0x0380" using k by (auto simp: thumb_kind_def T2_pcrel_b_def split: if_splits)
    moreover have "bit h 7" "bit h 8" "bit h 9" using b14 unfolding al [symmetric] bit_fld by simp_all
    ultimately show False using and_three [of h 7] unfolding m by simp
  qed
qed

lemma fld_less: "fld k 4 h < 16" "fld k 3 h < 8"
proof -
  have l: "unat (fld k n h) < 2 ^ n" for n
  proof -
    have "fld k n h = take_bit n (fld k n h)" by (rule bit_word_eqI) (auto simp: bit_take_bit_iff bit_fld)
    then have "unat (fld k n h) = take_bit n (unat (fld k n h))" by (metis unsigned_take_bit_eq)
    then show ?thesis by (metis take_bit_nat_less_exp)
  qed
  show "fld k 4 h < 16" "fld k 3 h < 8" using l [of 4] l [of 3] by (simp_all add: word_less_nat_alt)
qed

text \<open>Positions in the buffer as words.\<close>

lemma branch_dist:
  assumes "st + 8 \<le> en"
  shows "(of_nat en - 6 - of_nat st) * 2 - 4 = (of_nat (2 * (en - 8 - st)) :: u32)"
    "(buf::u32) + 2 * of_nat st + 4 + 2 * of_nat (en - 8 - st) = buf + 2 * of_nat (en - 6)"
  using assms by (simp_all add: of_nat_diff algebra_simps)

lemma cbz_dist:
  assumes "st + 15 \<le> en"
  shows "(of_nat en - 10 - (of_nat st + 3)) * 2 - 4 = (of_nat (2 * (en - 15 - st)) :: u32)"
    "(buf::u32) + 2 * of_nat (st + 3) + 4 + 2 * of_nat (en - 15 - st) = buf + 2 * of_nat (en - 10)"
  using assms by (simp_all add: of_nat_diff algebra_simps)

lemma cbz_jump: "1 OR push_bit 6 (fld 9 1 h) OR push_bit 1 (fld 3 5 h) = offset_cbz h + 1"
proof -
  have b: "below 6 (1 OR push_bit 1 (fld 3 5 h))" "below 1 (1::u32)"
    by (intro below_simps(4) below_fields below_simps(2); simp)+
  have "(1 OR push_bit 1 (fld 3 5 h)) OR push_bit 6 (fld 9 1 h) = 1 + 2 ^ 1 * fld 3 5 h + 2 ^ 6 * fld 9 1 h"
    unfolding or_push [OF b(1)] unfolding or_push [OF b(2)] ..
  moreover have "1 OR push_bit 6 (fld 9 1 h) OR push_bit 1 (fld 3 5 h) = (1 OR push_bit 1 (fld 3 5 h)) OR push_bit 6 (fld 9 1 h)"
    by (simp only: or.assoc or.commute or.left_commute)
  ultimately show ?thesis by (simp add: offset_cbz_def)
qed

lemma thumb_emission_spec:
  assumes a: "buf AND 3 = 0" "even pc" "even en" "st + kind_width (thumb_kind h h') + kind_extra (thumb_kind h h') div 2 + 6 \<le> en" "en \<le> 130"
    and em: "emit pc (thumb_kind h h') h h' (of_nat st) (of_nat en) = Some em"
  shows "emission_right buf pc h h' st en em"
proof -
  define k where "k = thumb_kind h h'"
  note em = em [folded k_def] and a4 = a(4) [folded k_def, unfolded kind_extra_def kind_width_def wide_kind_def]
  have pc: "(pc + 4) AND NOT 2 = (pc + 4) AND NOT 3" using a(2) by (intro even_not_2) simp
  have ff: "mask 8 = (0xff::u32)" "mask 12 = (0xfff::u32)" by (simp_all add: mask_eq_exp_minus_1)
  have s1: "(of_nat st + 1 :: u32) = of_nat (st + 1)" "(of_nat st + 2 :: u32) = of_nat (st + 2)" by simp_all
  have e: "(of_nat en - 2 :: u32) = of_nat (en - 2)" if "2 \<le> en" using that by (simp add: of_nat_diff)
  have r: "even (en - 2)" "en - 2 \<le> 150" using a(3,5) by auto
  note R = emission_right_def Let_def k_def [symmetric]
  show ?thesis
  proof (cases k)
    case K_ldr
    then have "em = emit_ldr pc h (of_nat st) (of_nat en)" and st: "st + 2 \<le> en - 2" "2 \<le> en"
      using em a4 by (simp_all add: emit_def)
    then show ?thesis
      using literal_hits [OF a(1) st(1) r]
      unfolding R K_ldr emit_ldr_def e [OF st(2)] pc fld_low ff lit_addr_def [of pc] by (simp add: mult.commute)
  next
    case K_b
    then have em_b: "em = emit_b pc h (of_nat st) (of_nat en)" and st: "st + 8 \<le> en" using em a4 by (simp_all add: emit_def)
    have d: "en - 8 - st < 128" "fld 8 4 h \<noteq> A_al" using a(5) cond_not_al(1) K_b k_def by auto
    then show ?thesis
      using fld_b_im [OF d(1) fld_less(1), of 8 h] branch_dist(2) [OF st, of buf] 
      unfolding R K_b em_b emit_b_def branch_dist(1) [OF st] b_jump_offset by (simp add: offset_b_def add.assoc)
  next
    case K_b2
    then have em2: "em = emit_b2 pc h h' (of_nat st) (of_nat en)" and st: "st + 8 \<le> en" using em a4 by (simp_all add: emit_def)
    have d: "en - 8 - st < 128" "en - 8 - st < 1024" using a(5) by auto
    show ?thesis
    proof (cases "bit h' 12")
      case True
      then show ?thesis
        using fld_b_al [OF d(2)] branch_dist(2) [OF st, of buf] 
        unfolding R K_b2 em2 emit_b2_def branch_dist(1) [OF st] b2_jump_offset
        by (simp add: fld_bit [simplified] offset_b2_def add.assoc)
    next
      case False
      then have "fld 6 4 h \<noteq> A_al" using cond_not_al(2) K_b2 k_def by auto
      then show ?thesis
        using False fld_b_im [OF d(1) fld_less(1), of 6 h] branch_dist(2) [OF st, of buf] 
        unfolding R K_b2 em2 emit_b2_def branch_dist(1) [OF st] b2_jump_offset
        by (simp add: fld_bit [simplified] offset_b_def add.assoc)
    qed
  next
    case K_bl
    then have eb: "em = emit_bl pc h h' (of_nat st) (of_nat en)" and st: "st + 1 + 2 \<le> en - 2" "2 \<le> en"
      using em a4 by (simp_all add: emit_def)
    show ?thesis
      using literal_hits [OF a(1) st(1) r] bl_label [OF st(1) r]
      unfolding R K_bl eb emit_bl_def e [OF st(2)] s1 by (simp add: bl_jump_offset fld_bit [simplified] add.assoc)
  next
    case K_cbz
    then have ec: "em = emit_cbz pc h (of_nat st) (of_nat en)" and st: "st + 15 \<le> en" using em a4 by (simp_all add: emit_def)
    have n: "offset_cbz (ucast (T_cbz_rn_im cop (fld 0 3 h) (of_nat (2 * (en - 15 - st))))) = 2 * of_nat (en - 15 - st)"
      if "en \<le> st + 78" for cop
    proof -
      have "en - 15 - st < 64" using that by simp
      from arg_cong [OF cbz_fields [OF this fld_less(2), of cop 0 h], of "(*) 2"]
      show ?thesis by (simp add: offset_cbz_def distrib_left)
    qed
    show ?thesis
      using n cbz_dist(2) [OF st, of buf]
      unfolding R K_cbz ec emit_cbz_def cbz_dist(1) [OF st] cbz_jump by (simp add: add.assoc)
  next
    case K_ldrw
    then have el: "em = emit_ldrw pc h h' (of_nat st) (of_nat en)" and st: "st + 2 \<le> en - 2" "2 \<le> en"
      using em a4 by (simp_all add: emit_def)
    show ?thesis
      using litw_hits [OF a(1) st(1) r]
      unfolding R K_ldrw el emit_ldrw_def e [OF st(2)] pc fld_low ff litw_addr_def [of pc] by (simp add: fld_bit [simplified])
  next
    case K_add
    then have ea: "emit_add pc h (of_nat st) (of_nat en) = Some em" and st: "st + 2 + 2 \<le> en - 2" "2 \<le> en"
      using em a4 by (simp_all add: emit_def)
    then have "em_words em = [pc + 4]"
      "em_code em ! 2 = T_ldr_rd_pc_im_4 (fld 0 3 h) (T_Label (of_nat (st + 2)) (of_nat (en - 2)) div 4)"
      unfolding emit_add_def Let_def e [OF st(2)] s1 by (auto split: if_splits)
    then show ?thesis using literal_hits [OF a(1) st(1) r] unfolding R K_add by simp
  qed (use em in \<open>auto simp: R emit_def emit_plain_def\<close>)
qed

section \<open>The whole copy\<close>

lemma thumb_extra_bound:
  assumes "even used" "even required" "used < required"
    "thumb_extra (area_segment m area (used div 2) (thumb_used m area required used div 2)) = Some x"
  shows "x \<le> 16 * (required - used)"
  using assms
proof (induction m area required used arbitrary: x rule: thumb_used.induct)
  case (1 m area required used)
  define w where "w = MSGetInstructionWidthThumb (m (area + of_nat used))"
  define u where "u = thumb_used m area required (used + w)"
  have e: "thumb_used m area required used = u"
    using 1(4) by (simp add: thumb_used.simps [of m area required used] u_def w_def)
  let ?seg = "area_segment m area (used div 2) (u div 2)"
  have w: "w = 2 \<or> w = 4" by (simp add: w_def MSGetInstructionWidthThumb_def)
  then have ew: "even (used + w)" using 1(2) by auto
  have le: "used + w \<le> u"
    using thumb_used_ok [OF ew 1(3), of m area] by (simp add: u_def Let_def)
  then have lt: "used div 2 < u div 2" using w 1(2) by (auto elim!: evenE)
  then have ne: "?seg \<noteq> []" by (simp add: area_segment_def)
  have "2 * of_nat (used div 2) = (of_nat used :: u32)"
    using 1(2) by (metis dvd_mult_div_cancel of_nat_mult of_nat_numeral)
  then have hd: "hd ?seg = m (area + of_nat used)" using lt by (simp add: area_segment_def hd_map)
  have kw: "2 * kind_width (first_kind ?seg) = w"
    unfolding first_kind_def hd w_def by (rule width_kind [symmetric])
  have "(used + w) div 2 = used div 2 + kind_width (first_kind ?seg)" unfolding kw [symmetric] by simp
  then have af: "after_first ?seg = area_segment m area ((used + w) div 2) (u div 2)"
    unfolding after_first_def area_segment_def drop_map drop_upt by simp
  obtain y where y: "thumb_extra (after_first ?seg) = Some y" "x = kind_extra (first_kind ?seg) + y"
    using 1(5) ne unfolding e by (auto simp: thumb_extra_step split: if_splits)
  have k: "kind_extra (first_kind ?seg) \<le> 32" "kind_extra (first_kind ?seg) \<le> 16 * w"
    using kw by (cases "first_kind ?seg"; simp add: kind_extra_def kind_width_def wide_kind_def)+
  show ?case
  proof (cases "used + w < required")
    case True
    have "y \<le> 16 * (required - (used + w))"
      using 1(1) [OF 1(4), folded w_def, OF ew 1(3) True, folded u_def] y(1) unfolding af by blast
    then show ?thesis using y(2) k(2) True by simp
  next
    case False
    then have "u = used + w" by (simp add: u_def thumb_used.simps [of m area required "used + w"])
    then have "y = 0" using y(1) unfolding af by (simp add: area_segment_def)
    moreover have "2 \<le> required - used" using 1(2,3,4) by (auto elim!: evenE)
    ultimately show ?thesis using y(2) k(1) by simp
  qed
qed

lemma thumb_backup_extra:
  assumes "thumb_extra (thumb_backup m area) = Some x"
  shows "thumb_length (thumb_used_of m area + x) \<le> 254"
proof -
  have "thumb_backup m area = area_segment m area (0 div 2) (thumb_used m area (2 * thumb_align area + 12) 0 div 2)"
    by (simp add: thumb_backup_def area_words_def thumb_used_of_def area_segment_def)
  then have "x \<le> 16 * (2 * thumb_align area + 12)"
    using thumb_extra_bound [of 0 "2 * thumb_align area + 12" m area x] assms by simp
  then show ?thesis
    using thumb_used_of_bounds(3) [of m area] by (simp add: thumb_align_def thumb_length_def thumb_pad_def split: if_splits)
qed

text \<open>The copy with what every instruction of it has to do.\<close>

inductive copy_right :: "u16 list \<Rightarrow> uintptr \<Rightarrow> uintptr \<Rightarrow> nat \<Rightarrow> u16 list \<Rightarrow> nat \<Rightarrow> nat \<Rightarrow> nat \<Rightarrow> bool" for ws buf area where
  right_Nil: "copy_right ws buf area off [] st en st"
| right_step: "hs \<noteq> []
    \<Longrightarrow> emit (area + 2 * of_nat off) (first_kind hs) (hd hs) (second_half hs) (of_nat st) (of_nat en) = Some em
    \<Longrightarrow> em_at ws em st en
    \<Longrightarrow> emission_right buf (area + 2 * of_nat off) (hd hs) (second_half hs) st en em
    \<Longrightarrow> copy_right ws buf area (off + kind_width (first_kind hs)) (after_first hs) (st + em_start em) (en - em_end em) st'
    \<Longrightarrow> copy_right ws buf area off hs st en st'"

lemma copy_right_spec:
  assumes "thumb_code ws area off hs st en st'"
    and "buf AND 3 = 0" "even area" "even en" "en \<le> 130" "thumb_extra hs = Some x" "st + length hs + x div 2 + 6 \<le> en"
  shows "copy_right ws buf area off hs st en st'"
  using assms
proof (induction arbitrary: x rule: thumb_code.induct)
  case (code_Nil off st en)
  show ?case by (rule right_Nil)
next
  case (code_step hs off st en em st')
  have fk: "first_kind hs = thumb_kind (hd hs) (second_half hs)" by (simp add: first_kind_def second_half_def)
  have cf: "complete_first hs" using code_step.prems(5) code_step.hyps(1) by (auto simp: thumb_extra_step split: if_splits)
  obtain y where y: "thumb_extra (after_first hs) = Some y" "x = kind_extra (first_kind hs) + y"
    using code_step.prems(5) code_step.hyps(1) cf by (auto simp: thumb_extra_step)
  have ev: "even (kind_extra (first_kind hs))" "even y"
    using thumb_extra_even [OF y(1)] by (cases "first_kind hs"; simp add: kind_extra_def)+
  have lr: "length hs = kind_width (first_kind hs) + length (after_first hs)" using cf by (simp add: complete_first_def after_first_def)
  have xx: "x div 2 = kind_extra (first_kind hs) div 2 + y div 2" using ev y(2) by (auto elim!: evenE)
  note sz = emit_sizes [OF code_step.hyps(2)]
  show ?case
  proof (rule right_step [OF code_step.hyps(1-3)])
    show "emission_right buf (area + 2 * of_nat off) (hd hs) (second_half hs) st en em"
      using code_step.hyps(2) code_step.prems lr xx unfolding fk
      by (intro thumb_emission_spec) simp_all
    have "even (em_end em)" using sz by (metis dvd_triv_left)
    then have "even (en - em_end em)" using code_step.prems(3) by (simp add: even_diff_nat)
    then show "copy_right ws buf area (off + kind_width (first_kind hs)) (after_first hs) (st + em_start em) (en - em_end em) st'"
      using code_step.prems lr xx sz by (intro code_step.IH [OF _ _ _ _ y(1)]) (assumption | linarith)+
  qed
qed

section \<open>Properties\<close>

lemma align_clear: "even (x AND NOT 1)" "(x AND NOT 1) AND 1 = 0" for x :: u32
proof -
  have "(x AND NOT 1) AND 1 = x AND (NOT 1 AND 1)" by (simp only: and.assoc)
  also have "\<dots> = 0" by simp
  finally show "(x AND NOT 1) AND 1 = 0" .
qed (simp add: even_and_iff)

lemma hooked_mem_buffer:
  assumes "thumb_hook_ok e area buffer s" "length ws \<le> 150" "i < length ws"
  shows "thumb_hooked_mem (hmem s) area buffer replace ws (buffer + 2 * of_nat i) = ws ! i"
proof -
  let ?n = "thumb_used_of (hmem s) area"
  have "16 \<le> unat (buffer + 2 * of_nat i - area)"
  proof (rule apart_outside)
    show "apart buffer 300 area 16" using assms(1) by (simp add: thumb_hook_ok_def)
    have "unat (of_nat (2 * i) :: u32) = 2 * i" using assms(2,3) by (simp only: unat_of_nat) simp
    then show "unat (buffer + 2 * of_nat i - buffer) < 300" using assms(2,3) by simp
  qed simp_all
  moreover have "2 * (?n div 2) \<le> 16" using thumb_used_of_bounds(4) [of "hmem s" area] by simp
  ultimately show ?thesis
    unfolding thumb_hooked_mem_def Let_def
    using assms(2,3) by (subst store_code_outside) (simp_all add: length_thumb_patch_words store_code_nth)
qed

lemma hooked_mem_area:
  "j < thumb_used_of m area div 2 \<Longrightarrow> thumb_hooked_mem m area buffer replace ws (area + 2 * of_nat j)
     = thumb_patch_words (thumb_align area) ((thumb_used_of m area - (2 * thumb_align area + 12)) div 2) replace ! j"
  using thumb_used_of_bounds(4) [of m area]
  unfolding thumb_hooked_mem_def Let_def
  by (subst store_code_nth) (simp_all add: length_thumb_patch_words)

lemma hooked_mem_outside:
  assumes "thumb_used_of m area \<le> unat (x - area)" "2 * length ws \<le> unat (x - buffer)" "length ws \<le> 150"
  shows "thumb_hooked_mem m area buffer replace ws x = m x"
  using assms thumb_used_of_bounds(4) [of m area]
  unfolding thumb_hooked_mem_def Let_def
  by (subst store_code_outside) (simp_all add: length_thumb_patch_words store_code_outside)

lemma nth_replicate_append: "(replicate n x @ ys) ! (n + i) = ys ! i"
  using nth_append_length_plus [of "replicate n x" ys i] by simp

lemma hooked_mem_patched:
  fixes replace :: u32 and ws :: "u16 list" and buffer area :: uintptr and m :: "uintptr \<Rightarrow> u16"
  defines "m' \<equiv> thumb_hooked_mem m area buffer replace ws" and "arm \<equiv> area + 2 * of_nat (thumb_align area) + 4"
  shows "thumb_hooked m' area (thumb_align area)" "read32 m' (arm + 4) = replace"
proof -
  let ?a = "thumb_align area" and ?w = "thumb_patch_words (thumb_align area) ((thumb_used_of m area - (2 * thumb_align area + 12)) div 2) replace"
  have a: "?a = 0 \<or> ?a = 1" by (simp add: thumb_align_def)
  have n: "?a + 6 \<le> thumb_used_of m area div 2" using thumb_used_of_bounds(2) [of area m] by simp
  have at: "m' (area + 2 * of_nat j) = ?w ! j" if "j < ?a + 6" for j
    unfolding m'_def by (rule hooked_mem_area) (use that n in simp)
  have 1: "m' (area + 2 * of_nat ?a + 2 * of_nat i) = ?w ! (?a + i)" if "i < 6" for i
    using at [of "?a + i"] that by (simp add: algebra_simps)
  have w: "?w ! (?a + i) = [ucast (T_bx A_pc), ucast T_nop, lo16 A_jump, hi16 A_jump, lo16 replace, hi16 replace] ! i" if "i < 6" for i
    unfolding thumb_patch_words_def
    by (subst (1) nth_replicate_append) (use that in \<open>subst nth_append_left; simp\<close>)
  have "?a = 0 \<or> m' area = ucast T_nop" using a at [of 0] by (auto simp: thumb_patch_words_def)
  moreover have "m' (area + 2 * of_nat ?a) = ucast (T_bx A_pc)" using 1 [of 0] w [of 0] by simp
  moreover have "m' (area + 2 * of_nat ?a + 2) = ucast T_nop" using 1 [of 1] w [of 1] by simp
  moreover have "read32 m' (area + 2 * of_nat ?a + 4) = A_jump"
    using 1 [of 2] w [of 2] 1 [of 3] w [of 3] by (simp add: read32_def add.assoc cat32_halves)
  ultimately show "thumb_hooked m' area ?a" by (simp add: thumb_hooked_def Let_def)
  show "read32 m' (arm + 4) = replace"
    using 1 [of 4] w [of 4] 1 [of 5] w [of 5] by (simp add: arm_def read32_def add.assoc cat32_halves)
qed

lemma ms_hook_thumb:
  "symbol AND 1 \<noteq> 0 \<Longrightarrow> MSHookFunction e symbol replace want s
     = map_option snd (SubstrateHookFunctionThumb e (symbol AND NOT 1) replace want s)"
  by (simp add: MSHookFunction_def SubstrateHookFunction_def)

lemma thumb_length_even:
  assumes "even len"
  shows "even (thumb_length len div 2)"
proof -
  obtain k where k: "len = 2 * k" using assms by (auto elim!: evenE)
  have "(of_nat len :: u32) AND 2 = push_bit 1 (of_nat k AND 1)"
  proof -
    have "(of_nat len :: u32) = push_bit 1 (of_nat k)" "(2::u32) = push_bit 1 1" by (simp_all add: k push_bit_eq_mult)
    then show ?thesis by (simp only: push_bit_and)
  qed
  also have "of_nat k AND (1::u32) = of_bool (odd k)" by (simp add: and_one_eq mod_2_eq_odd)
  finally have "thumb_pad len = (if even k then 0 else 1)" by (simp add: thumb_pad_def push_bit_eq_mult)
  then show ?thesis by (simp add: thumb_length_def k)
qed


text \<open>C26. Hooking a fresh Thumb function through the entry point patches the function: behind the
  alignment come the change to the ARM instruction set, the jump and the address of the replacement,
  in at most 16 bytes that end with a whole instruction, and no other code outside the buffer
  changes.\<close>

theorem hook_thumb_installs:
  assumes "symbol AND 1 \<noteq> 0" "area = symbol AND NOT 1" "thumb_hook_ok e area buffer s"
    and "\<not> thumb_hooked (hmem s) area (thumb_align area)" "\<not> thumb_bad (thumb_backup (hmem s) area)"
  shows "\<exists>s' r. MSHookFunction e symbol replace True s = Some (Some r, s')
     \<and> thumb_hooked (hmem s') area (thumb_align area)
     \<and> read32 (hmem s') (area + 2 * of_nat (thumb_align area) + 8) = replace
     \<and> (\<forall>x. 16 \<le> unat (x - area) \<longrightarrow> 300 \<le> unat (x - buffer) \<longrightarrow> hmem s' x = hmem s x)"
proof -
  obtain s' ws r where s': "SubstrateHookFunctionThumb e area replace True s = Some (thumb_used_of (hmem s) area, Some r, s')"
    "hmem s' = thumb_hooked_mem (hmem s) area buffer replace ws" "length ws \<le> 150"
    using hook_thumb_spec [OF assms(3,4), of replace] assms(5) by metis
  have "hmem s' x = hmem s x" if "16 \<le> unat (x - area)" "300 \<le> unat (x - buffer)" for x
    unfolding s'(2) by (rule hooked_mem_outside) (use that s'(3) thumb_used_of_bounds(4) [of "hmem s" area] in simp_all)
  moreover have "MSHookFunction e symbol replace True s = Some (Some r, s')"
    using ms_hook_thumb [OF assms(1)] s'(1) assms(2) by simp
  ultimately show ?thesis
    using hooked_mem_patched [of "hmem s" area buffer replace ws] unfolding s'(2) [symmetric] by (auto simp: add.assoc)
qed



definition thumb_demo :: code_state where
  "thumb_demo = \<lparr>hmem = store_code 0x8000 [0xb510, 0x4804, 0xf000, 0xf812, 0xb108, 0xbd10, 0x4604] (\<lambda>_. 0), rwx = (\<lambda>_. False), maps = []\<rparr>"

lemma thumb_demo_ok:
  "(0x8001::u32) AND 1 \<noteq> 0" "0x8000 = (0x8001::u32) AND NOT 1" "thumb_hook_ok arm_demo_env 0x8000 0x40000000 thumb_demo"
  "\<not> thumb_hooked (hmem thumb_demo) 0x8000 (thumb_align 0x8000)"
  by (simp_all add: thumb_hook_ok_def arm_demo_env_def apart_def thumb_hooked_def thumb_align_def thumb_demo_def T_bx_def)

lemma thumb_demo_backup: "thumb_backup (hmem thumb_demo) 0x8000 = [0xb510, 0x4804, 0xf000, 0xf812, 0xb108, 0xbd10]"
  by code_simp

lemma thumb_demo_good: "\<not> thumb_bad (thumb_backup (hmem thumb_demo) 0x8000)"
  unfolding thumb_demo_backup by code_simp

theorem hook_thumb_installs_witness:
  "\<exists>s' r. MSHookFunction arm_demo_env 0x8001 0x9000 True thumb_demo = Some (Some r, s') \<and> read32 (hmem s') 0x8008 = 0x9000"
  using hook_thumb_installs [OF thumb_demo_ok thumb_demo_good, of "0x9000"] by (auto simp: thumb_align_def)


text \<open>Six compare-and-branch instructions need more of the buffer than the branches can reach: the
  first one is written with an offset that has lost its highest bit.\<close>

theorem thumb_cbz_out_of_range:
  "(case thumb_buffer 0x8000 (replicate 6 0xb108) 204 of
      Some (Some ws) \<Rightarrow> length ws = 108 \<and> offset_cbz (ws ! 3) = 58 \<and> 2 * 3 + 4 + (58::nat) = 2 * 34 \<and> 34 \<noteq> length ws - 10
    | _ \<Rightarrow> False)"
  by code_simp

lemma hook_thumb_again_spec:
  assumes ok: "thumb_hook_ok e area buffer s" and h: "thumb_hooked (hmem s) area (thumb_align area)"
  defines "slot \<equiv> area + 2 * of_nat (thumb_align area) + 8"
  shows "\<exists>s'. SubstrateHookFunctionThumb e area replace True s = Some (4, Some (read32 (hmem s) slot), s')
     \<and> hmem s' = store_code slot [lo16 replace, hi16 replace] (hmem s)"
proof -
  have al: "(if area AND 2 = 0 then 0 else 1) = thumb_align area" by (simp add: thumb_align_def)
  have sl: "area + 2 * of_nat (thumb_align area) + 4 + 4 = slot" by (simp add: slot_def)
  have "unat (area + of_nat k) \<le> unat area + k" for k
    by (metis unat_of_nat unat_word_ariths(1) mod_less_eq_dividend mod_add_right_eq)
  from this [of "2 * thumb_align area + 8"] have un: "unat slot + 4 \<le> 2 ^ 32"
    using ok by (simp add: slot_def thumb_hook_ok_def thumb_align_def add.assoc split: if_splits)
  have "\<exists>s'. with_hook_memory e slot (of_nat 4) (write32 slot replace) s = Some s'
      \<and> hmem s' = store_code slot [lo16 replace, hi16 replace] (hmem s) \<and> maps s' = maps s"
  proof (rule with_hook_memory_ok)
    fix s1 :: code_state assume s1: "hmem s1 = hmem s" "\<And>i. i < 4 \<Longrightarrow> rwx s1 (slot + of_nat i)"
    show "write32 slot replace s1 = Some (s1\<lparr>hmem := store_code slot [lo16 replace, hi16 replace] (hmem s1)\<rparr>)"
      using s1(2) [of 0] s1(2) [of 2] by (simp add: write32_def write16_def)
  qed (use ok un in \<open>auto simp: thumb_hook_ok_def\<close>)
  then show ?thesis
    using ok h by (auto simp: SubstrateHookFunctionThumb_def Let_def al sl thumb_hook_ok_def)
qed

text \<open>Hooking a hooked Thumb function again hands out the replacement that was there, and only
  the address behind the jump changes: the new replacement takes its place. (For an ARM function the
  old replacement stays.)\<close>

theorem hook_thumb_again:
  assumes "symbol AND 1 \<noteq> 0" "area = symbol AND NOT 1" "thumb_hook_ok e area buffer s"
    and "thumb_hooked (hmem s) area (thumb_align area)" "slot = area + 2 * of_nat (thumb_align area) + 8"
  shows "\<exists>s'. MSHookFunction e symbol replace True s = Some (Some (read32 (hmem s) slot), s')
     \<and> read32 (hmem s') slot = replace \<and> (\<forall>x. 4 \<le> unat (x - slot) \<longrightarrow> hmem s' x = hmem s x)"
proof -
  obtain s' where s': "SubstrateHookFunctionThumb e area replace True s = Some (4, Some (read32 (hmem s) slot), s')"
    "hmem s' = store_code slot [lo16 replace, hi16 replace] (hmem s)"
    using hook_thumb_again_spec [OF assms(3,4), of replace] unfolding assms(5) by metis
  have "MSHookFunction e symbol replace True s = Some (Some (read32 (hmem s) slot), s')"
    using ms_hook_thumb [OF assms(1)] s'(1) assms(2) by simp
  moreover have "read32 (hmem s') slot = replace" by (simp add: s'(2) read32_def cat32_halves)
  moreover have "hmem s' x = hmem s x" if "4 \<le> unat (x - slot)" for x
    unfolding s'(2) by (rule store_code_outside) (use that in simp_all)
  ultimately show ?thesis by blast
qed

definition thumb_demo_hooked :: code_state where
  "thumb_demo_hooked = thumb_demo\<lparr>hmem := store_code 0x8000 [0x4778, 0x46c0, lo16 A_jump, hi16 A_jump, 0x7001, 0] (\<lambda>_. 0)\<rparr>"

theorem hook_thumb_again_witness:
  "\<exists>s'. MSHookFunction arm_demo_env 0x8001 0x9000 True thumb_demo_hooked = Some (Some 0x7001, s') \<and> read32 (hmem s') 0x8008 = 0x9000"
proof -
  have "thumb_hooked (hmem thumb_demo_hooked) 0x8000 (thumb_align 0x8000)"
    by (simp add: thumb_hooked_def thumb_align_def thumb_demo_hooked_def T_bx_def read32_def cat32_halves)
  moreover have "thumb_hook_ok arm_demo_env 0x8000 0x40000000 thumb_demo_hooked"
    by (simp add: thumb_hook_ok_def arm_demo_env_def apart_def thumb_demo_hooked_def thumb_demo_def)
  moreover have "read32 (hmem thumb_demo_hooked) 0x8008 = 0x7001"
    by (simp add: thumb_demo_hooked_def read32_def cat32_def)
  ultimately show ?thesis
    using hook_thumb_again [OF thumb_demo_ok(1,2), of arm_demo_env "0x40000000" thumb_demo_hooked "0x8008" "0x9000"]
    by (auto simp: thumb_align_def)
qed

end
