(* ===== verification/AllocTracker.thy ===== *)
theory AllocTracker
  imports NdkDlopen ThumbTargets
begin

text \<open>
  The allocation tracker (\<open>alloctrack/src/main/cpp/allocTracker.cpp\<close> with its globals in
  \<open>alloctracker.h\<close> and the lock of \<open>lock.cpp\<close>). The globals are a record that every function passes
  along. The runtime library (its symbols and what they return), Java, the file system, the random
  generator and the clock are the record \<open>runtime\<close>; calls that leave the module are appended to the
  trace. Where the code runs into undefined behaviour the result is a \<open>crash\<close>.
\<close>

section \<open>State\<close>

datatype event =
    ESetTracking bool | EDescriptor uintptr | EDumpLog | ERecent | EWriteFile string "u8 list" | EMapClear uintptr
  | EOld22 uintptr u32 | EOld23 uintptr uintptr u32 | EOld26 uintptr uintptr uintptr u32
  | ELock | EUnlock | EDlclose uintptr | EDvmEnable | EDvmDisable | EDvmReport | EDvmDump bool | EJavaArray uintptr "u8 list"

datatype crash = Null_function | Null_array | Double_free | Name_overflow

record tracker =
  allocTrackerType :: nat
  libHandle :: uintptr
  allocObjectCount :: u32
  setAllocRecordMax :: u32
  needStopRecord :: bool
  mallocRecordHead :: uintptr
  mallocRecordCount :: uintptr
  mallocRecordMax :: uintptr
  lib_ints :: "uintptr \<Rightarrow> int"
  GetDescriptor :: uintptr
  artSetAllocTrackingEnable :: uintptr
  artGetRecentAllocations :: uintptr
  artAllocMapClear :: uintptr
  artDbgDumpRecentAllocations :: uintptr
  artAPILevel :: int
  storeDataDirectory :: "string option"
  oldArtRecordAllocation26 :: uintptr
  oldArtRecordAllocation23 :: uintptr
  oldArtRecordAllocation22 :: uintptr
  dvmEnableAllocTracker :: uintptr
  dvmDisableAllocTracker :: uintptr
  dvmGenerateTrackedAllocationReport :: uintptr
  dvmDumpTrackedAllocations :: uintptr
  dvmAllocationData :: uintptr
  dvmAllocationDataLen :: u32
  live_blocks :: "uintptr list"
  draws :: nat
  events :: "event list"

abbreviation "ALLOC_TRACKER_ART \<equiv> (1::nat)"
abbreviation "ALLOC_TRACKER_DVM \<equiv> (2::nat)"
abbreviation "LUCKY \<equiv> (50::int)"

definition tracker_start :: tracker where
  "tracker_start = \<lparr>allocTrackerType = 0, libHandle = 0, allocObjectCount = 0, setAllocRecordMax = 8000,
     needStopRecord = False, mallocRecordHead = 0, mallocRecordCount = 0, mallocRecordMax = 0, lib_ints = (\<lambda>_. 0),
     GetDescriptor = 0, artSetAllocTrackingEnable = 0, artGetRecentAllocations = 0, artAllocMapClear = 0,
     artDbgDumpRecentAllocations = 0, artAPILevel = 0, storeDataDirectory = None, oldArtRecordAllocation26 = 0,
     oldArtRecordAllocation23 = 0, oldArtRecordAllocation22 = 0, dvmEnableAllocTracker = 0, dvmDisableAllocTracker = 0,
     dvmGenerateTrackedAllocationReport = 0, dvmDumpTrackedAllocations = 0, dvmAllocationData = 0,
     dvmAllocationDataLen = 0, live_blocks = [], draws = 0, events = []\<rparr>"

record runtime =
  rt_open :: "string \<Rightarrow> uintptr"
  rt_sym :: "uintptr \<Rightarrow> string \<Rightarrow> uintptr"
  rt_recent :: "event list \<Rightarrow> uintptr"
  rt_array :: "uintptr \<Rightarrow> u8 list"
  rt_creatable :: "string \<Rightarrow> bool"
  rt_report :: "event list \<Rightarrow> (uintptr \<times> u32) option"
  rt_bytes :: "uintptr \<Rightarrow> u32 \<Rightarrow> u8 list"
  rt_new_array :: "u32 \<Rightarrow> uintptr"
  rt_rand :: "nat \<Rightarrow> int"
  rt_time :: "nat \<Rightarrow> int"
  rt_read4 :: "uintptr \<Rightarrow> u32"

text \<open>Sequencing with the crash as the outcome that stops.\<close>

definition after :: "crash + 's \<Rightarrow> ('s \<Rightarrow> crash + 'r) \<Rightarrow> crash + 'r" where
  "after r f = (case r of Inl c \<Rightarrow> Inl c | Inr s \<Rightarrow> f s)"

lemma after_simps [simp]: "after (Inr s) f = f s" "after (Inl c) f = Inl c"
  by (simp_all add: after_def)

definition emit_event :: "event \<Rightarrow> tracker \<Rightarrow> tracker" where
  "emit_event ev t = t\<lparr>events := events t @ [ev]\<rparr>"

definition free_block :: "uintptr \<Rightarrow> tracker \<Rightarrow> crash + tracker" where
  "free_block p t =
     (if p = 0 then Inr t
      else if p \<in> set (live_blocks t) then Inr (t\<lparr>live_blocks := removeAll p (live_blocks t)\<rparr>)
      else Inl Double_free)"

section \<open>Random numbers\<close>

text \<open>The arithmetic in \<open>double\<close> is exact here: the product is below \<open>2^38\<close> and the divisor a power
  of two; the conversion to \<open>int\<close> truncates.\<close>

abbreviation "RAND_MAX \<equiv> (2 ^ 31 - 1 :: int)"

definition randomDouble :: "int \<Rightarrow> int \<Rightarrow> int \<Rightarrow> int" where
  "randomDouble start end r = start + (end - start) * r div (RAND_MAX + 1)"

definition randomInt :: "runtime \<Rightarrow> int \<Rightarrow> int \<Rightarrow> tracker \<Rightarrow> int \<times> tracker" where
  "randomInt rt start end t = (randomDouble start end (rt_rand rt (draws t)), t\<lparr>draws := draws t + 1\<rparr>)"

section \<open>The tracker of ART\<close>

definition startARTAllocationTracker :: "tracker \<Rightarrow> tracker" where
  "startARTAllocationTracker t =
     (let t = (if artSetAllocTrackingEnable t \<noteq> 0 then emit_event (ESetTracking True) t else t)
      in t\<lparr>allocObjectCount := 0\<rparr>)"

definition stopARTAllocationTracker :: "tracker \<Rightarrow> tracker" where
  "stopARTAllocationTracker t =
     (let t = (if artSetAllocTrackingEnable t \<noteq> 0 then emit_event (ESetTracking False) t else t)
      in t\<lparr>allocObjectCount := 0\<rparr>)"

definition getARTAllocRecordCount :: "runtime \<Rightarrow> tracker \<Rightarrow> int \<times> tracker" where
  "getARTAllocRecordCount rt t =
     (if libHandle t = 0 \<or> allocTrackerType t \<noteq> ALLOC_TRACKER_ART then (0, t)
      else let t = (if mallocRecordCount t = 0
                    then t\<lparr>mallocRecordCount := rt_sym rt (libHandle t) ''_ZN3art3Dbg19alloc_record_count_E''\<rparr> else t)
           in if mallocRecordCount t \<noteq> 0 then (lib_ints t (mallocRecordCount t), t) else (0, t))"

definition getARTAllocRecordMax :: "runtime \<Rightarrow> tracker \<Rightarrow> int \<times> tracker" where
  "getARTAllocRecordMax rt t =
     (if libHandle t = 0 \<or> allocTrackerType t \<noteq> ALLOC_TRACKER_ART then (0, t)
      else let t = (if mallocRecordMax t = 0
                    then t\<lparr>mallocRecordMax := rt_sym rt (libHandle t) ''_ZN3art3Dbg17alloc_record_max_E''\<rparr> else t)
           in if mallocRecordMax t \<noteq> 0 then (lib_ints t (mallocRecordMax t), t) else (10 * 1024, t))"

definition getARTAllocRecordHead :: "runtime \<Rightarrow> tracker \<Rightarrow> int \<times> tracker" where
  "getARTAllocRecordHead rt t =
     (if libHandle t = 0 \<or> allocTrackerType t \<noteq> ALLOC_TRACKER_ART then (0, t)
      else let t = (if mallocRecordHead t = 0
                    then t\<lparr>mallocRecordHead := rt_sym rt (libHandle t) ''_ZN3art3Dbg18alloc_record_head_E''\<rparr> else t)
           in if mallocRecordHead t \<noteq> 0 then (lib_ints t (mallocRecordHead t), t) else (0, t))"

definition resetARTAllocRecord :: "runtime \<Rightarrow> tracker \<Rightarrow> tracker" where
  "resetARTAllocRecord rt t =
     (if libHandle t = 0 \<or> allocTrackerType t \<noteq> ALLOC_TRACKER_ART then t
      else let (a, t) = getARTAllocRecordHead rt t; (b, t) = getARTAllocRecordCount rt t; (c, t) = getARTAllocRecordMax rt t
           in if mallocRecordHead t \<noteq> 0 \<and> mallocRecordCount t \<noteq> 0
              then t\<lparr>lib_ints := (lib_ints t)(mallocRecordHead t := 0, mallocRecordCount t := 0)\<rparr> else t)"

definition getARTAllocationData :: "runtime \<Rightarrow> tracker \<Rightarrow> uintptr \<times> tracker" where
  "getARTAllocationData rt t =
     (if artGetRecentAllocations t \<noteq> 0
      then let data = rt_recent rt (events t); t = emit_event ERecent t in if data \<noteq> 0 then (data, t) else (0, t)
      else (0, t))"

text \<open>\<open>snprintf\<close> with the size 1024 into an array of 128 bytes; \<open>%s\<close> of a null pointer gives
  \<open>(null)\<close>. Opening, seeking and writing are not checked: without a file the data is lost.\<close>

definition data_file_name :: "tracker \<Rightarrow> int \<Rightarrow> string" where
  "data_file_name t now =
     take 1023 ((case storeDataDirectory t of Some d \<Rightarrow> d | None \<Rightarrow> ''(null)'') @ ''/'' @ show_int (sint (of_int now :: u32)))"

definition saveARTAllocationData :: "runtime \<Rightarrow> uintptr \<Rightarrow> tracker \<Rightarrow> crash + tracker" where
  "saveARTAllocationData rt data t =
     (let name = data_file_name t (rt_time rt (length (events t)))
      in if 128 < length name + 1 then Inl Name_overflow
         else if data = 0 then Inl Null_array
         else Inr (if rt_creatable rt name then emit_event (EWriteFile name (rt_array rt data)) t else t))"

section \<open>Recording an allocation\<close>

text \<open>\<open>CMyLock\<close> locks in its constructor; the explicit \<open>Unlock\<close> is followed by that of the
  destructor.\<close>

definition newArtRecordAllocationDoing :: "runtime \<Rightarrow> uintptr \<Rightarrow> u32 \<Rightarrow> tracker \<Rightarrow> crash + (bool \<times> tracker)" where
  "newArtRecordAllocationDoing rt type byte_count t =
     (let t = t\<lparr>allocObjectCount := allocObjectCount t + 1\<rparr>
      in if GetDescriptor t = 0 then Inl Null_function
         else let t = emit_event (EDescriptor type) t; (randret, t) = randomInt rt 0 100 t
              in if randret = LUCKY then Inr (False, t)
                 else if setAllocRecordMax t < allocObjectCount t then
                   (let t = (emit_event ELock t)\<lparr>allocObjectCount := 0\<rparr>; (allocData, t) = getARTAllocationData rt t
                    in after (saveARTAllocationData rt allocData t)
                         (\<lambda>t. Inr (True, emit_event EUnlock (emit_event EUnlock (resetARTAllocRecord rt t)))))
                 else Inr (True, t))"

definition newArtRecordAllocationDoing24 ::
  "runtime \<Rightarrow> uintptr \<Rightarrow> uintptr \<Rightarrow> u32 \<Rightarrow> tracker \<Rightarrow> crash + (bool \<times> tracker)" where
  "newArtRecordAllocationDoing24 rt this type byte_count t =
     (if artAllocMapClear t = 0 then Inr (False, t)
      else let t = t\<lparr>allocObjectCount := allocObjectCount t + 1\<rparr>
      in if GetDescriptor t = 0 then Inl Null_function
         else let t = emit_event (EDescriptor type) t; (randret, t) = randomInt rt 0 100 t
              in if randret = LUCKY then Inr (False, t)
                 else if setAllocRecordMax t < allocObjectCount t then
                   (let t = (emit_event ELock t)\<lparr>allocObjectCount := 0\<rparr>; (allocData, t) = getARTAllocationData rt t
                    in after (saveARTAllocationData rt allocData t)
                         (\<lambda>t. let t = (if artAllocMapClear t \<noteq> 0 then emit_event (EMapClear this) t else t)
                              in Inr (True, emit_event EUnlock (emit_event EUnlock t))))
                 else Inr (True, t))"

definition newArtRecordAllocation26 ::
  "runtime \<Rightarrow> uintptr \<Rightarrow> uintptr \<Rightarrow> uintptr \<Rightarrow> u32 \<Rightarrow> tracker \<Rightarrow> crash + tracker" where
  "newArtRecordAllocation26 rt this self obj byte_count t =
     (if needStopRecord t then Inr t
      else let objptr = rt_read4 rt obj; classRef = rt_read4 rt objptr
           in after (newArtRecordAllocationDoing24 rt this classRef byte_count t)
                (\<lambda>(_, t). if oldArtRecordAllocation26 t = 0 then Inl Null_function
                          else Inr (emit_event (EOld26 this self obj byte_count) t)))"

definition newArtRecordAllocation23 :: "runtime \<Rightarrow> uintptr \<Rightarrow> uintptr \<Rightarrow> u32 \<Rightarrow> tracker \<Rightarrow> crash + tracker" where
  "newArtRecordAllocation23 rt self type byte_count t =
     (if needStopRecord t then Inr t
      else after (newArtRecordAllocationDoing rt type byte_count t)
             (\<lambda>(ok, t). if \<not> ok then Inr t
                        else if oldArtRecordAllocation23 t = 0 then Inl Null_function
                        else Inr (emit_event (EOld23 self type byte_count) t)))"

definition newArtRecordAllocation22 :: "runtime \<Rightarrow> uintptr \<Rightarrow> u32 \<Rightarrow> tracker \<Rightarrow> crash + tracker" where
  "newArtRecordAllocation22 rt type byte_count t =
     (if needStopRecord t then Inr t
      else after (newArtRecordAllocationDoing rt type byte_count t)
             (\<lambda>(ok, t). if \<not> ok then Inr t
                        else if oldArtRecordAllocation22 t = 0 then Inl Null_function
                        else Inr (emit_event (EOld22 type byte_count) t)))"

definition setEnableARTRecordAllocation :: "bool \<Rightarrow> tracker \<Rightarrow> tracker" where
  "setEnableARTRecordAllocation enable t = t\<lparr>needStopRecord := \<not> enable\<rparr>"

definition setSaveDataDirectory :: "string \<Rightarrow> tracker \<Rightarrow> tracker" where
  "setSaveDataDirectory directory t = t\<lparr>storeDataDirectory := Some directory\<rparr>"

section \<open>Initialisation for ART\<close>

abbreviation "sym_dump_recent \<equiv> ''_ZN3art3Dbg21DumpRecentAllocationsEv''"
abbreviation "sym_get_descriptor \<equiv>
  ''_ZN3art6mirror5Class13GetDescriptorEPNSt3__112basic_stringIcNS2_11char_traitsIcEENS2_9allocatorIcEEEE''"
abbreviation "sym_set_tracking \<equiv> ''_ZN3art3Dbg23SetAllocTrackingEnabledEb''"
abbreviation "sym_get_recent \<equiv> ''_ZN3art3Dbg20GetRecentAllocationsEv''"
abbreviation "sym_map_clear \<equiv> ''_ZN3art2gc20AllocRecordObjectMap5ClearEv''"

definition initForArt :: "runtime \<Rightarrow> int \<Rightarrow> u32 \<Rightarrow> tracker \<Rightarrow> int \<times> tracker" where
  "initForArt rt apiLevel allocRecordMax t =
     (let t = t\<lparr>allocTrackerType := ALLOC_TRACKER_ART, libHandle := rt_open rt ''libart.so''\<rparr>; h = libHandle t
      in if h = 0 then (- 2, t)
         else let t = t\<lparr>setAllocRecordMax := allocRecordMax, artDbgDumpRecentAllocations := rt_sym rt h sym_dump_recent\<rparr>;
                  t = (if GetDescriptor t = 0 then t\<lparr>GetDescriptor := rt_sym rt h sym_get_descriptor\<rparr> else t)
              in (0, t\<lparr>artSetAllocTrackingEnable := rt_sym rt h sym_set_tracking,
                       artGetRecentAllocations := rt_sym rt h sym_get_recent,
                       artAllocMapClear := rt_sym rt h sym_map_clear, artAPILevel := apiLevel\<rparr>))"

definition unInitForArt :: "tracker \<Rightarrow> tracker" where
  "unInitForArt t =
     (let t = (if libHandle t \<noteq> 0 then emit_event (EDlclose (libHandle t)) t else t)
      in t\<lparr>allocTrackerType := 0, libHandle := 0, artSetAllocTrackingEnable := 0, artGetRecentAllocations := 0,
           artAPILevel := 0\<rparr>)"

section \<open>The tracker of Dalvik\<close>

definition initForDvm :: "runtime \<Rightarrow> tracker \<Rightarrow> int \<times> tracker" where
  "initForDvm rt t =
     (let t = t\<lparr>allocTrackerType := ALLOC_TRACKER_DVM, libHandle := rt_open rt ''libdvm.so''\<rparr>; h = libHandle t
      in if h = 0 then (- 2, t)
         else let t = t\<lparr>dvmEnableAllocTracker := rt_sym rt h ''_Z21dvmEnableAllocTrackerv'',
                        dvmDisableAllocTracker := rt_sym rt h ''_Z22dvmDisableAllocTrackerv'',
                        dvmGenerateTrackedAllocationReport := rt_sym rt h ''_Z34dvmGenerateTrackedAllocationReportPPhPj'',
                        dvmDumpTrackedAllocations := rt_sym rt h ''_Z25dvmDumpTrackedAllocationsb''\<rparr>
              in (if dvmEnableAllocTracker t \<noteq> 0 \<and> dvmDisableAllocTracker t \<noteq> 0 \<and> dvmGenerateTrackedAllocationReport t \<noteq> 0
                     \<and> dvmDumpTrackedAllocations t \<noteq> 0 then 0 else - 2, t))"

definition unInitForDvm :: "tracker \<Rightarrow> crash + tracker" where
  "unInitForDvm t =
     (let t = (if libHandle t \<noteq> 0 then emit_event (EDlclose (libHandle t)) t else t)
      in after (free_block (dvmAllocationData t) t)
           (\<lambda>t. Inr (t\<lparr>dvmAllocationData := 0, dvmAllocationDataLen := 0, allocTrackerType := 0,
                        dvmEnableAllocTracker := 0, dvmDisableAllocTracker := 0,
                        dvmGenerateTrackedAllocationReport := 0, dvmDumpTrackedAllocations := 0\<rparr>)))"

definition startDvmAllocationTracker :: "tracker \<Rightarrow> tracker" where
  "startDvmAllocationTracker t = (if dvmEnableAllocTracker t \<noteq> 0 then emit_event EDvmEnable t else t)"

definition stopDvmAllocationTracker :: "tracker \<Rightarrow> tracker" where
  "stopDvmAllocationTracker t = (if dvmDisableAllocTracker t \<noteq> 0 then emit_event EDvmDisable t else t)"

text \<open>A report that succeeds stores a fresh block and its size.\<close>

definition dumpDvmAllocationData :: "runtime \<Rightarrow> tracker \<Rightarrow> tracker" where
  "dumpDvmAllocationData rt t =
     (if dvmGenerateTrackedAllocationReport t \<noteq> 0
      then (case rt_report rt (events t) of
              None \<Rightarrow> emit_event EDvmReport t
            | Some (p, n) \<Rightarrow> (emit_event EDvmReport t)\<lparr>dvmAllocationData := p, dvmAllocationDataLen := n,
                               live_blocks := p # live_blocks t\<rparr>)
      else t)"

definition getDvmAllocationDataForJava :: "runtime \<Rightarrow> tracker \<Rightarrow> crash + (uintptr \<times> tracker)" where
  "getDvmAllocationDataForJava rt t =
     (if dvmAllocationData t \<noteq> 0 \<and> 0 < dvmAllocationDataLen t
      then let result = rt_new_array rt (dvmAllocationDataLen t);
               t = (if result \<noteq> 0
                    then emit_event (EJavaArray result (rt_bytes rt (dvmAllocationData t) (dvmAllocationDataLen t))) t else t)
           in after (free_block (dvmAllocationData t) t) (\<lambda>t. Inr (result, t\<lparr>dvmAllocationDataLen := 0\<rparr>))
      else Inr (0, t))"

section \<open>The methods of Java\<close>

definition startAllocationTracker :: "tracker \<Rightarrow> tracker" where
  "startAllocationTracker t =
     (if allocTrackerType t = ALLOC_TRACKER_ART then startARTAllocationTracker t
      else if allocTrackerType t = ALLOC_TRACKER_DVM then startDvmAllocationTracker t else t)"

definition stopAllocationTracker :: "tracker \<Rightarrow> tracker" where
  "stopAllocationTracker t =
     (if allocTrackerType t = ALLOC_TRACKER_ART then stopARTAllocationTracker t
      else if allocTrackerType t = ALLOC_TRACKER_DVM then stopDvmAllocationTracker t else t)"

definition dumpAllocationDataInLog :: "tracker \<Rightarrow> tracker" where
  "dumpAllocationDataInLog t =
     (if allocTrackerType t = ALLOC_TRACKER_ART then
        (if artDbgDumpRecentAllocations t \<noteq> 0 then emit_event EDumpLog t else t)
      else if allocTrackerType t = ALLOC_TRACKER_DVM then
        (if dvmDumpTrackedAllocations t \<noteq> 0 then emit_event (EDvmDump False) t else t)
      else t)"

section \<open>Installing the hooks\<close>

abbreviation "sym_record26 \<equiv>
  ''_ZN3art2gc20AllocRecordObjectMap16RecordAllocationEPNS_6ThreadEPNS_6ObjPtrINS_6mirror6ObjectEEEj''"
abbreviation "sym_record24 \<equiv>
  ''_ZN3art2gc20AllocRecordObjectMap16RecordAllocationEPNS_6ThreadEPPNS_6mirror6ObjectEj''"
abbreviation "sym_record23 \<equiv> ''_ZN3art3Dbg16RecordAllocationEPNS_6ThreadEPNS_6mirror5ClassEj''"
abbreviation "sym_record22 \<equiv> ''_ZN3art3Dbg16RecordAllocationEPNS_6mirror5ClassEj''"

text \<open>The addresses of the three replacements.\<close>

record replacements =
  new26 :: uintptr
  new23 :: uintptr
  new22 :: uintptr

definition store_old :: "(uintptr \<Rightarrow> tracker \<Rightarrow> tracker) \<Rightarrow> tracker \<Rightarrow> (uintptr option \<times> code_state) option
    \<Rightarrow> (tracker \<times> code_state) option" where
  "store_old f t r = map_option (\<lambda>(old, s). (case old of Some v \<Rightarrow> f v t | None \<Rightarrow> t, s)) r"

definition hookFunc :: "code_env \<Rightarrow> runtime \<Rightarrow> replacements \<Rightarrow> tracker \<Rightarrow> code_state \<Rightarrow> (tracker \<times> code_state) option" where
  "hookFunc e rt new t s =
     (let handle = rt_open rt ''libart.so''
      in if handle = 0 then Some (t, s)
         else let hookRecordAllocation26 = rt_sym rt handle sym_record26;
                  hookRecordAllocation24 = rt_sym rt handle sym_record24;
                  hookRecordAllocation23 = rt_sym rt handle sym_record23;
                  hookRecordAllocation22 = rt_sym rt handle sym_record22;
                  close = map_option (\<lambda>(t, s). (emit_event (EDlclose handle) t, s))
              in if hookRecordAllocation26 \<noteq> 0 then
                   close (store_old (\<lambda>v. oldArtRecordAllocation26_update (\<lambda>_. v)) t
                            (MSHookFunction e hookRecordAllocation26 (new26 new) True s))
                 else if hookRecordAllocation24 \<noteq> 0 then
                   close (store_old (\<lambda>v. oldArtRecordAllocation26_update (\<lambda>_. v)) t
                            (MSHookFunction e hookRecordAllocation26 (new26 new) True s))
                 else if hookRecordAllocation23 \<noteq> 0 then
                   close (store_old (\<lambda>v. oldArtRecordAllocation23_update (\<lambda>_. v)) t
                            (MSHookFunction e hookRecordAllocation23 (new23 new) True s))
                 else if hookRecordAllocation22 = 0 then Some (t, s)
                 else
                   close (store_old (\<lambda>v. oldArtRecordAllocation22_update (\<lambda>_. v)) t
                            (MSHookFunction e hookRecordAllocation22 (new22 new) True s)))"

section \<open>How often the records are dumped\<close>

definition art_ready :: "runtime \<Rightarrow> tracker \<Rightarrow> bool" where
  "art_ready rt t \<longleftrightarrow> \<not> needStopRecord t \<and> GetDescriptor t \<noteq> 0 \<and> artGetRecentAllocations t \<noteq> 0
     \<and> oldArtRecordAllocation23 t \<noteq> 0 \<and> (\<forall>evs. rt_recent rt evs \<noteq> 0)
     \<and> (\<exists>d. storeDataDirectory t = Some d \<and> length d \<le> 110)"

definition dump_count :: "tracker \<Rightarrow> nat" where
  "dump_count t = length (filter ((=) ERecent) (events t))"

definition forwarded :: "tracker \<Rightarrow> (uintptr \<times> uintptr \<times> u32) list" where
  "forwarded t = concat (map (\<lambda>ev. case ev of EOld23 s c n \<Rightarrow> [(s, c, n)] | _ \<Rightarrow> []) (events t))"

definition lucky :: "runtime \<Rightarrow> nat \<Rightarrow> bool" where
  "lucky rt i \<longleftrightarrow> randomDouble 0 100 (rt_rand rt i) = LUCKY"

lemma event_simps [simp]:
  "dump_count (emit_event ev t) = dump_count t + (if ev = ERecent then 1 else 0)"
  "forwarded (emit_event ev t) = forwarded t @ (case ev of EOld23 s c n \<Rightarrow> [(s, c, n)] | _ \<Rightarrow> [])"
  "art_ready rt (emit_event ev t) = art_ready rt t"
  by (simp_all add: dump_count_def forwarded_def emit_event_def art_ready_def)

lemma emit_event_fields [simp]:
  "allocObjectCount (emit_event ev t) = allocObjectCount t" "setAllocRecordMax (emit_event ev t) = setAllocRecordMax t"
  "draws (emit_event ev t) = draws t" "GetDescriptor (emit_event ev t) = GetDescriptor t"
  "artGetRecentAllocations (emit_event ev t) = artGetRecentAllocations t"
  "storeDataDirectory (emit_event ev t) = storeDataDirectory t"
  "oldArtRecordAllocation23 (emit_event ev t) = oldArtRecordAllocation23 t" "needStopRecord (emit_event ev t) = needStopRecord t"
  "artAllocMapClear (emit_event ev t) = artAllocMapClear t" "events (emit_event ev t) = events t @ [ev]"
  by (simp_all add: emit_event_def)

lemma update_simps [simp]:
  "dump_count (allocObjectCount_update f t) = dump_count t" "forwarded (allocObjectCount_update f t) = forwarded t"
  "art_ready rt (allocObjectCount_update f t) = art_ready rt t"
  "dump_count (draws_update g t) = dump_count t" "forwarded (draws_update g t) = forwarded t"
  "art_ready rt (draws_update g t) = art_ready rt t"
  by (simp_all add: dump_count_def forwarded_def art_ready_def)

lemma getter_frames:
  "snd (getARTAllocRecordHead rt t) = t\<lparr>mallocRecordHead := mallocRecordHead (snd (getARTAllocRecordHead rt t))\<rparr>"
  "snd (getARTAllocRecordCount rt t) = t\<lparr>mallocRecordCount := mallocRecordCount (snd (getARTAllocRecordCount rt t))\<rparr>"
  "snd (getARTAllocRecordMax rt t) = t\<lparr>mallocRecordMax := mallocRecordMax (snd (getARTAllocRecordMax rt t))\<rparr>"
proof -
  show "snd (getARTAllocRecordHead rt t) = t\<lparr>mallocRecordHead := mallocRecordHead (snd (getARTAllocRecordHead rt t))\<rparr>"
    by (cases "libHandle t = 0 \<or> allocTrackerType t \<noteq> ALLOC_TRACKER_ART"; cases "mallocRecordHead t = 0";
      simp add: getARTAllocRecordHead_def Let_def)
  show "snd (getARTAllocRecordCount rt t) = t\<lparr>mallocRecordCount := mallocRecordCount (snd (getARTAllocRecordCount rt t))\<rparr>"
    by (cases "libHandle t = 0 \<or> allocTrackerType t \<noteq> ALLOC_TRACKER_ART"; cases "mallocRecordCount t = 0";
      simp add: getARTAllocRecordCount_def Let_def)
  show "snd (getARTAllocRecordMax rt t) = t\<lparr>mallocRecordMax := mallocRecordMax (snd (getARTAllocRecordMax rt t))\<rparr>"
    by (cases "libHandle t = 0 \<or> allocTrackerType t \<noteq> ALLOC_TRACKER_ART"; cases "mallocRecordMax t = 0";
      simp add: getARTAllocRecordMax_def Let_def)
qed

lemma reset_frame:
  "\<exists>a b c m. resetARTAllocRecord rt t
     = t\<lparr>mallocRecordHead := a, mallocRecordCount := b, mallocRecordMax := c, lib_ints := m\<rparr>"
proof (cases "libHandle t = 0 \<or> allocTrackerType t \<noteq> ALLOC_TRACKER_ART")
  case True
  then have "resetARTAllocRecord rt t = t\<lparr>mallocRecordHead := mallocRecordHead t, mallocRecordCount := mallocRecordCount t,
      mallocRecordMax := mallocRecordMax t, lib_ints := lib_ints t\<rparr>" by (simp add: resetARTAllocRecord_def)
  then show ?thesis by blast
next
  case False
  obtain v a where 1: "getARTAllocRecordHead rt t = (v, t\<lparr>mallocRecordHead := a\<rparr>)" using getter_frames(1) by (metis prod.collapse)
  let ?t1 = "t\<lparr>mallocRecordHead := a\<rparr>"
  obtain w b where 2: "getARTAllocRecordCount rt ?t1 = (w, ?t1\<lparr>mallocRecordCount := b\<rparr>)" using getter_frames(2) by (metis prod.collapse)
  let ?t2 = "?t1\<lparr>mallocRecordCount := b\<rparr>"
  obtain x c where 3: "getARTAllocRecordMax rt ?t2 = (x, ?t2\<lparr>mallocRecordMax := c\<rparr>)" using getter_frames(3) by (metis prod.collapse)
  let ?m = "if a \<noteq> 0 \<and> b \<noteq> 0 then (lib_ints t)(a := 0, b := 0) else lib_ints t"
  have "resetARTAllocRecord rt t = ?t2\<lparr>mallocRecordMax := c, lib_ints := ?m\<rparr>"
    unfolding resetARTAllocRecord_def Let_def 1 2 3 prod.case using False by simp
  then show ?thesis by (intro exI)
qed

lemma reset_fields [simp]:
  "dump_count (resetARTAllocRecord rt t) = dump_count t" "forwarded (resetARTAllocRecord rt t) = forwarded t"
  "art_ready rt' (resetARTAllocRecord rt t) = art_ready rt' t" "draws (resetARTAllocRecord rt t) = draws t"
  "allocObjectCount (resetARTAllocRecord rt t) = allocObjectCount t"
  "setAllocRecordMax (resetARTAllocRecord rt t) = setAllocRecordMax t"
  "oldArtRecordAllocation23 (resetARTAllocRecord rt t) = oldArtRecordAllocation23 t"
  using reset_frame [of rt t] by (auto simp: dump_count_def forwarded_def art_ready_def)

lemma save_ready:
  assumes "art_ready rt t" "data \<noteq> 0"
  shows "\<exists>ev. saveARTAllocationData rt data t = Inr (if ev = None then t else emit_event (the ev) t)
     \<and> ev \<noteq> Some ERecent \<and> (\<forall>s c n. ev \<noteq> Some (EOld23 s c n))"
proof -
  obtain d where d: "storeDataDirectory t = Some d" "length d \<le> 110" using assms(1) by (auto simp: art_ready_def)
  have "length (data_file_name t now) + 1 \<le> 128" for now
    using d show_int_length [of "of_int now"] by (simp add: data_file_name_def)
  then have "\<not> 128 < length (data_file_name t now) + 1" for now by (simp add: not_less)
  then show ?thesis using assms(2)
    by (cases "rt_creatable rt (data_file_name t (rt_time rt (length (events t))))")
      (auto simp: saveARTAllocationData_def Let_def intro: exI [of _ None] exI [of _ "Some _"])
qed

text \<open>The counter and the number of dumps as numbers.\<close>

fun count_step :: "nat \<Rightarrow> nat \<times> nat \<Rightarrow> bool \<Rightarrow> nat \<times> nat" where
  "count_step m (c, d) l = (if l then (c + 1, d) else if m < c + 1 then (0, d + 1) else (c + 1, d))"

lemma record_step:
  assumes r: "art_ready rt t" and c: "unat (allocObjectCount t) + 1 < 2 ^ 32"
  shows "\<exists>t'. newArtRecordAllocation23 rt self type n t = Inr t' \<and> art_ready rt t' \<and> draws t' = draws t + 1
    \<and> setAllocRecordMax t' = setAllocRecordMax t
    \<and> (unat (allocObjectCount t'), dump_count t')
        = count_step (unat (setAllocRecordMax t)) (unat (allocObjectCount t), dump_count t) (lucky rt (draws t))
    \<and> forwarded t' = forwarded t @ (if lucky rt (draws t) then [] else [(self, type, n)])"
proof -
  have u: "unat (allocObjectCount t + 1) = unat (allocObjectCount t) + 1"
    using c by (simp add: unat_word_ariths)
  let ?t0 = "t\<lparr>allocObjectCount := allocObjectCount t + 1\<rparr>"
  let ?t1 = "(emit_event (EDescriptor type) ?t0)\<lparr>draws := draws t + 1\<rparr>"
  let ?l = "lucky rt (draws t)"
  note f = r [unfolded art_ready_def]
  have rnd: "randomInt rt 0 100 (emit_event (EDescriptor type) ?t0) = (randomDouble 0 100 (rt_rand rt (draws t)), ?t1)"
    by (simp add: randomInt_def)
  show ?thesis
  proof (cases ?l)
    case True
    then have "newArtRecordAllocation23 rt self type n t = Inr ?t1"
      using f rnd by (simp add: newArtRecordAllocation23_def newArtRecordAllocationDoing_def Let_def lucky_def)
    then show ?thesis using True r u by (intro exI [of _ ?t1]) simp
  next
    case nl: False
    show ?thesis
    proof (cases "setAllocRecordMax t < allocObjectCount t + 1")
      case False
      let ?t' = "emit_event (EOld23 self type n) ?t1"
      have "newArtRecordAllocation23 rt self type n t = Inr ?t'"
        using f rnd nl False by (simp add: newArtRecordAllocation23_def newArtRecordAllocationDoing_def Let_def lucky_def)
      then show ?thesis using nl False r u by (intro exI [of _ ?t']) (simp add: word_less_nat_alt)
    next
      case True
      let ?t2 = "(emit_event ELock ?t1)\<lparr>allocObjectCount := 0\<rparr>"
      let ?t3 = "emit_event ERecent ?t2" and ?d = "rt_recent rt (events ?t2)"
      have d: "?d \<noteq> 0" using f by blast
      have g: "getARTAllocationData rt ?t2 = (?d, ?t3)"
        using f d by (simp add: getARTAllocationData_def Let_def)
      have "art_ready rt ?t3" using r by simp
      from save_ready [OF this d] obtain ev where ev:
        "saveARTAllocationData rt ?d ?t3 = Inr (if ev = None then ?t3 else emit_event (the ev) ?t3)"
        "ev \<noteq> Some ERecent" "\<forall>s c n. ev \<noteq> Some (EOld23 s c n)" by blast
      let ?t4 = "if ev = None then ?t3 else emit_event (the ev) ?t3"
      let ?t5 = "emit_event EUnlock (emit_event EUnlock (resetARTAllocRecord rt ?t4))"
      let ?t' = "emit_event (EOld23 self type n) ?t5"
      have t4: "draws ?t4 = draws t + 1" "allocObjectCount ?t4 = 0" "setAllocRecordMax ?t4 = setAllocRecordMax t"
        "oldArtRecordAllocation23 ?t4 = oldArtRecordAllocation23 t" "art_ready rt ?t4 = art_ready rt t"
        "dump_count ?t4 = dump_count t + 1" "forwarded ?t4 = forwarded t"
        using ev(2,3) by (cases ev; auto split: event.splits)+
      have "newArtRecordAllocation23 rt self type n t = Inr ?t'"
        using f rnd nl True g ev(1) t4(4)
        by (simp add: newArtRecordAllocation23_def newArtRecordAllocationDoing_def Let_def lucky_def)
      then show ?thesis using nl True r u t4 by (intro exI [of _ ?t']) (simp add: word_less_nat_alt)
    qed
  qed
qed

fun record_all :: "runtime \<Rightarrow> (uintptr \<times> uintptr \<times> u32) list \<Rightarrow> tracker \<Rightarrow> crash + tracker" where
  "record_all rt [] t = Inr t"
| "record_all rt ((self, type, n) # calls) t = after (newArtRecordAllocation23 rt self type n t) (record_all rt calls)"

lemma count_steps_bound:
  "c \<le> c' \<Longrightarrow> let r = foldl (count_step m) (c, d) ls in snd r \<le> d + (c' + length ls) div (m + 1) \<and> fst r \<le> c' + length ls"
proof (induction ls arbitrary: c c' d)
  case (Cons l ls)
  show ?case
  proof (cases "\<not> l \<and> m < c + 1")
    case True
    have "0 \<le> c' + 1 - (m + 1)" by simp
    from Cons.IH [OF this, of "d + 1"] True Cons.prems
    have "let r = foldl (count_step m) (0, d + 1) ls in snd r \<le> d + 1 + (c' + 1 - (m + 1) + length ls) div (m + 1)
        \<and> fst r \<le> c' + 1 - (m + 1) + length ls" by simp
    moreover have "(c' + 1 + length ls) div (m + 1) = (c' + 1 - (m + 1) + length ls) div (m + 1) + 1"
    proof -
      have e: "c' + 1 + length ls = (c' + 1 - (m + 1) + length ls) + (m + 1)" using True Cons.prems by simp
      show ?thesis by (subst e, subst div_add_self2) simp_all
    qed
    ultimately show ?thesis using True by (auto simp: Let_def)
  next
    case False
    then have "count_step m (c, d) l = (c + 1, d)" by auto
    then show ?thesis using Cons.IH [of "c + 1" "c' + 1" d] Cons.prems by simp
  qed
qed simp

lemma count_steps_period:
  "c \<le> m \<Longrightarrow> foldl (count_step m) (c, d) (replicate n False) = ((c + n) mod (m + 1), d + (c + n) div (m + 1))"
proof (induction n arbitrary: c d)
  case (Suc n)
  show ?case
  proof (cases "c = m")
    case True
    have "(m + Suc n) mod (m + 1) = n mod (m + 1)" "(m + Suc n) div (m + 1) = n div (m + 1) + 1"
      using mod_add_self1 [of "m + 1" n] div_add_self1 [of "m + 1" n] by (simp_all add: add.assoc del: mod_add_self1 div_add_self1)
    then show ?thesis using True Suc.IH [of 0 "d + 1"] by (simp del: add_Suc_right)
  qed (use Suc.IH [of "c + 1" d] Suc.prems in \<open>simp add: add.commute\<close>)
qed simp

lemma record_all_spec:
  assumes "art_ready rt t" "unat (allocObjectCount t) + length calls < 2 ^ 32"
  shows "\<exists>t'. record_all rt calls t = Inr t'
    \<and> (unat (allocObjectCount t'), dump_count t')
        = foldl (count_step (unat (setAllocRecordMax t))) (unat (allocObjectCount t), dump_count t)
            (map (\<lambda>i. lucky rt (draws t + i)) [0..<length calls])
    \<and> forwarded t' = forwarded t
        @ map fst (filter (\<lambda>(call, i). \<not> lucky rt (draws t + i)) (zip calls [0..<length calls]))"
  using assms
proof (induction calls arbitrary: t)
  case (Cons x calls)
  obtain self type n where x: "x = (self, type, n)" by (cases x)
  have "unat (allocObjectCount t) + 1 < 2 ^ 32" using Cons.prems(2) by simp
  from record_step [OF Cons.prems(1) this, of self type n] obtain t1 where t1:
    "newArtRecordAllocation23 rt self type n t = Inr t1" "art_ready rt t1" "draws t1 = draws t + 1"
    "setAllocRecordMax t1 = setAllocRecordMax t"
    "(unat (allocObjectCount t1), dump_count t1)
       = count_step (unat (setAllocRecordMax t)) (unat (allocObjectCount t), dump_count t) (lucky rt (draws t))"
    "forwarded t1 = forwarded t @ (if lucky rt (draws t) then [] else [(self, type, n)])" by blast
  have "unat (allocObjectCount t1) \<le> unat (allocObjectCount t) + 1" using t1(5) by (auto split: if_splits)
  then have "unat (allocObjectCount t1) + length calls < 2 ^ 32" using Cons.prems(2) by simp
  from Cons.IH [OF t1(2) this] obtain t' where t': "record_all rt calls t1 = Inr t'"
    "(unat (allocObjectCount t'), dump_count t')
        = foldl (count_step (unat (setAllocRecordMax t1))) (unat (allocObjectCount t1), dump_count t1)
            (map (\<lambda>i. lucky rt (draws t1 + i)) [0..<length calls])"
    "forwarded t' = forwarded t1 @ map fst (filter (\<lambda>(call, i). \<not> lucky rt (draws t1 + i)) (zip calls [0..<length calls]))" by blast
  have u: "[0..<length (x # calls)] = 0 # map Suc [0..<length calls]" by (simp only: map_Suc_upt list.size upt_conv_Cons) (simp add: upt_conv_Cons del: upt_Suc)
  have "record_all rt (x # calls) t = Inr t'" using t1(1) t'(1) by (simp add: x)
  moreover have "(unat (allocObjectCount t'), dump_count t')
        = foldl (count_step (unat (setAllocRecordMax t))) (unat (allocObjectCount t), dump_count t)
            (map (\<lambda>i. lucky rt (draws t + i)) [0..<length (x # calls)])"
    unfolding u t'(2) t1(3,4,5) by (simp add: o_def)
  moreover have "forwarded t' = forwarded t
        @ map fst (filter (\<lambda>(call, i). \<not> lucky rt (draws t + i)) (zip (x # calls) [0..<length (x # calls)]))"
    unfolding u t'(3) t1(3,6) by (simp add: x zip_map2 filter_map o_def case_prod_unfold)
  ultimately show ?case by blast
qed simp

text \<open>C30. Recording on the versions 22 and 23: any sequence of allocations is recorded without a
  crash; at most every (maximum + 1)-th leads to a dump, and when no draw of the random generator is
  the lucky number exactly every (maximum + 1)-th does, the counter is the remainder and every
  allocation is passed on to the runtime, in order.\<close>

theorem art_dump_period:
  assumes "art_ready rt t" "unat (allocObjectCount t) + length calls < 2 ^ 32" "allocObjectCount t \<le> setAllocRecordMax t"
  shows "\<exists>t'. record_all rt calls t = Inr t'
     \<and> (let m = unat (setAllocRecordMax t) + 1; n = unat (allocObjectCount t) + length calls
        in dump_count t' \<le> dump_count t + n div m
           \<and> ((\<forall>i<length calls. \<not> lucky rt (draws t + i)) \<longrightarrow>
                dump_count t' = dump_count t + n div m \<and> unat (allocObjectCount t') = n mod m
                \<and> forwarded t' = forwarded t @ calls))"
proof -
  let ?ls = "map (\<lambda>i. lucky rt (draws t + i)) [0..<length calls]"
  obtain t' where t': "record_all rt calls t = Inr t'"
    "(unat (allocObjectCount t'), dump_count t')
        = foldl (count_step (unat (setAllocRecordMax t))) (unat (allocObjectCount t), dump_count t) ?ls"
    "forwarded t' = forwarded t @ map fst (filter (\<lambda>(call, i). \<not> lucky rt (draws t + i)) (zip calls [0..<length calls]))"
    using record_all_spec [OF assms(1,2)] by blast
  have "dump_count t' \<le> dump_count t + (unat (allocObjectCount t) + length calls) div (unat (setAllocRecordMax t) + 1)"
    using count_steps_bound [of "unat (allocObjectCount t)" _ "unat (setAllocRecordMax t)" "dump_count t" ?ls] t'(2) [symmetric]
    by (auto simp: Let_def)
  moreover have "dump_count t' = dump_count t + (unat (allocObjectCount t) + length calls) div (unat (setAllocRecordMax t) + 1)
      \<and> unat (allocObjectCount t') = (unat (allocObjectCount t) + length calls) mod (unat (setAllocRecordMax t) + 1)
      \<and> forwarded t' = forwarded t @ calls" if nl: "\<forall>i<length calls. \<not> lucky rt (draws t + i)"
  proof -
    have "?ls = replicate (length calls) False" using nl by (intro nth_equalityI) simp_all
    then have "(unat (allocObjectCount t'), dump_count t')
        = foldl (count_step (unat (setAllocRecordMax t))) (unat (allocObjectCount t), dump_count t) (replicate (length calls) False)"
      using t'(2) by simp
    moreover have "filter (\<lambda>(call, i). \<not> lucky rt (draws t + i)) (zip calls [0..<length calls]) = zip calls [0..<length calls]"
      using nl by (intro filter_True) (auto dest: set_zip_rightD)
    ultimately show ?thesis
      using count_steps_period [of "unat (allocObjectCount t)" "unat (setAllocRecordMax t)" "dump_count t" "length calls"]
        assms(3) t'(3) by (simp add: word_le_nat_alt)
  qed
  ultimately show ?thesis using t'(1) unfolding Let_def by blast
qed

definition demo_runtime :: runtime where
  "demo_runtime = \<lparr>rt_open = (\<lambda>_. 0x1000), rt_sym = (\<lambda>_ n. if n = sym_record24 then 0x2001 else 0), rt_recent = (\<lambda>_. 0x3000),
     rt_array = (\<lambda>_. [1, 2]), rt_creatable = (\<lambda>_. True), rt_report = (\<lambda>_. Some (0x5000, 4)), rt_bytes = (\<lambda>_ _. [1, 2, 3, 4]),
     rt_new_array = (\<lambda>_. 0x6000), rt_rand = (\<lambda>_. 0), rt_time = (\<lambda>_. 1600000000), rt_read4 = (\<lambda>_. 0x7000)\<rparr>"

definition demo_tracker :: tracker where
  "demo_tracker = tracker_start\<lparr>setAllocRecordMax := 2, storeDataDirectory := Some ''/sdcard'', GetDescriptor := 1,
     artGetRecentAllocations := 2, oldArtRecordAllocation23 := 3\<rparr>"

lemma demo_ready: "art_ready demo_runtime demo_tracker"
  by (simp add: art_ready_def demo_runtime_def demo_tracker_def tracker_start_def)

theorem art_dump_period_witness:
  "\<exists>t'. record_all demo_runtime [(1, 2, 3), (4, 5, 6), (7, 8, 9), (1, 5, 9)] demo_tracker = Inr t'
     \<and> dump_count t' = 1 \<and> allocObjectCount t' = 1"
proof -
  have f: "unat (allocObjectCount demo_tracker) = 0" "unat (setAllocRecordMax demo_tracker) = 2" "dump_count demo_tracker = 0"
    by (simp_all add: demo_tracker_def tracker_start_def dump_count_def)
  have "\<not> lucky demo_runtime i" for i by (simp add: lucky_def randomDouble_def demo_runtime_def)
  then show ?thesis
    using art_dump_period [OF demo_ready, of "[(1, 2, 3), (4, 5, 6), (7, 8, 9), (1, 5, 9)]"] f
    by (auto simp: Let_def word_le_nat_alt word_unat_eq_iff)
qed

section \<open>The data of Dalvik\<close>

text \<open>C32. A report of Dalvik that succeeds is handed to Java once, with the bytes of the report, and its
  block is freed; the next request returns null. The pointer is kept, so that the
  un-initialisation that follows frees the block a second time.\<close>

theorem dvm_report_lifecycle:
  assumes "dvmGenerateTrackedAllocationReport t \<noteq> 0" "rt_report rt (events t) = Some (p, n)" "p \<noteq> 0" "0 < n"
    "p \<notin> set (live_blocks t)" "rt_new_array rt n \<noteq> 0"
  shows "\<exists>t'. getDvmAllocationDataForJava rt (dumpDvmAllocationData rt t) = Inr (rt_new_array rt n, t')
     \<and> events t' = events t @ [EDvmReport, EJavaArray (rt_new_array rt n) (rt_bytes rt p n)]
     \<and> live_blocks t' = live_blocks t
     \<and> getDvmAllocationDataForJava rt t' = Inr (0, t')
     \<and> unInitForDvm t' = Inl Double_free"
proof -
  let ?t1 = "(emit_event EDvmReport t)\<lparr>dvmAllocationData := p, dvmAllocationDataLen := n, live_blocks := p # live_blocks t\<rparr>"
  let ?t' = "(emit_event (EJavaArray (rt_new_array rt n) (rt_bytes rt p n)) ?t1)
      \<lparr>live_blocks := live_blocks t, dvmAllocationDataLen := 0\<rparr>"
  have 1: "dumpDvmAllocationData rt t = ?t1" using assms(1,2) by (simp add: dumpDvmAllocationData_def)
  have r: "removeAll p (live_blocks t) = live_blocks t" using assms(5) by simp
  have 2: "getDvmAllocationDataForJava rt ?t1 = Inr (rt_new_array rt n, ?t')"
    using assms r by (simp add: getDvmAllocationDataForJava_def free_block_def emit_event_def Let_def)
  have "getDvmAllocationDataForJava rt ?t' = Inr (0, ?t')" by (simp add: getDvmAllocationDataForJava_def)
  moreover have "unInitForDvm ?t' = Inl Double_free"
    using assms by (simp add: unInitForDvm_def free_block_def emit_event_def)
  ultimately show ?thesis unfolding 1 2 by (intro exI [of _ ?t']) (simp add: emit_event_def)
qed

theorem dvm_report_lifecycle_witness:
  "\<exists>t'. getDvmAllocationDataForJava demo_runtime (dumpDvmAllocationData demo_runtime (tracker_start\<lparr>dvmGenerateTrackedAllocationReport := 1\<rparr>))
       = Inr (0x6000, t') \<and> unInitForDvm t' = Inl Double_free"
  using dvm_report_lifecycle [of "tracker_start\<lparr>dvmGenerateTrackedAllocationReport := 1\<rparr>" demo_runtime "0x5000" 4]
  by (auto simp: demo_runtime_def tracker_start_def)

section \<open>The dump to a file\<close>

text \<open>C31. When a dump is due, a directory that makes the file name reach 128 characters overruns the
  array for the name, and a runtime that cannot deliver its records leads to the length of a null
  array: both end the process. Otherwise the whole array is written to the file if it can be created,
  the counter restarts and the allocation is passed on.\<close>

theorem record_dump_outcomes:
  fixes type self :: uintptr and n :: u32 and rt :: runtime and t :: tracker
  assumes "\<not> needStopRecord t" "GetDescriptor t \<noteq> 0" "oldArtRecordAllocation23 t \<noteq> 0"
    "setAllocRecordMax t < allocObjectCount t + 1" "\<not> lucky rt (draws t)"
  defines "seen \<equiv> events t @ [EDescriptor type, ELock]"
  defines "data \<equiv> if artGetRecentAllocations t = 0 then 0 else rt_recent rt seen"
  defines "seen' \<equiv> if artGetRecentAllocations t = 0 then seen else seen @ [ERecent]"
  defines "name \<equiv> data_file_name t (rt_time rt (length seen'))"
  shows "if 128 \<le> length name then newArtRecordAllocation23 rt self type n t = Inl Name_overflow
     else if data = 0 then newArtRecordAllocation23 rt self type n t = Inl Null_array
     else \<exists>t'. newArtRecordAllocation23 rt self type n t = Inr t' \<and> allocObjectCount t' = 0
       \<and> events t' = seen' @ (if rt_creatable rt name then [EWriteFile name (rt_array rt data)] else [])
           @ [EUnlock, EUnlock, EOld23 self type n]"
proof -
  let ?t0 = "t\<lparr>allocObjectCount := allocObjectCount t + 1\<rparr>"
  let ?t1 = "(emit_event (EDescriptor type) ?t0)\<lparr>draws := draws t + 1\<rparr>"
  let ?t2 = "(emit_event ELock ?t1)\<lparr>allocObjectCount := 0\<rparr>"
  let ?t3 = "if artGetRecentAllocations t = 0 then ?t2 else emit_event ERecent ?t2"
  have s: "events ?t2 = seen" "events ?t3 = seen'" by (simp_all add: seen_def seen'_def)
  have g: "getARTAllocationData rt ?t2 = (data, ?t3)"
    using s by (simp add: getARTAllocationData_def Let_def data_def)
  have nm: "data_file_name ?t3 now = data_file_name t now" for now by (simp add: data_file_name_def emit_event_def)
  have sv: "saveARTAllocationData rt data ?t3 =
      (if 128 \<le> length name then Inl Name_overflow else if data = 0 then Inl Null_array
       else Inr (if rt_creatable rt name then emit_event (EWriteFile name (rt_array rt data)) ?t3 else ?t3))"
    unfolding saveARTAllocationData_def Let_def nm s(2) name_def [symmetric] by (simp add: less_Suc_eq_le)
  have m: "newArtRecordAllocationDoing rt type n t = after (saveARTAllocationData rt data ?t3)
      (\<lambda>t. Inr (True, emit_event EUnlock (emit_event EUnlock (resetARTAllocRecord rt t))))"
    using assms(2,4,5) g by (simp add: newArtRecordAllocationDoing_def randomInt_def lucky_def Let_def del: emit_event_fields(10))
  have ev: "events (resetARTAllocRecord rt t) = events t" for t using reset_frame [of rt t] by auto
  show ?thesis
  proof (cases "128 \<le> length name \<or> data = 0")
    case True
    then show ?thesis using assms(1) m sv by (auto simp: newArtRecordAllocation23_def)
  next
    case False
    let ?t4 = "if rt_creatable rt name then emit_event (EWriteFile name (rt_array rt data)) ?t3 else ?t3"
    let ?t5 = "emit_event EUnlock (emit_event EUnlock (resetARTAllocRecord rt ?t4))"
    have "oldArtRecordAllocation23 ?t4 = oldArtRecordAllocation23 t" "allocObjectCount ?t4 = 0"
      "events ?t4 = seen' @ (if rt_creatable rt name then [EWriteFile name (rt_array rt data)] else [])"
      using s(2) by (simp_all add: emit_event_def)
    moreover have "newArtRecordAllocation23 rt self type n t = Inr (emit_event (EOld23 self type n) ?t5)"
      using False m sv assms(1,3) calculation(1) by (simp add: newArtRecordAllocation23_def)
    ultimately show ?thesis using False by (simp add: ev)
  qed
qed

definition long_directory :: tracker where
  "long_directory = demo_tracker\<lparr>allocObjectCount := 2, storeDataDirectory := Some (replicate 127 CHR ''d'')\<rparr>"

theorem record_dump_outcomes_witness:
  "newArtRecordAllocation23 demo_runtime 1 2 3 long_directory = Inl Name_overflow"
proof -
  have l: "\<not> lucky demo_runtime i" for i by (simp add: lucky_def randomDouble_def demo_runtime_def)
  have "128 \<le> length (data_file_name long_directory now)" for now
    using digits.simps by (simp add: data_file_name_def long_directory_def)
  then show ?thesis
    using record_dump_outcomes [of long_directory demo_runtime 2 1 3] l
    by (simp add: long_directory_def demo_tracker_def tracker_start_def)
qed

section \<open>Installing the hooks\<close>


text \<open>With the library of version 24, whose symbol is found but not used, installing the hooks
  changes no code and stores no original function: \<open>MSHookFunction\<close> gets the null pointer of the
  symbol of version 26.\<close>

theorem hookFunc_24_installs_nothing:
  assumes "handle = rt_open rt ''libart.so''" "handle \<noteq> 0" "rt_sym rt handle sym_record26 = 0"
    "rt_sym rt handle sym_record24 \<noteq> 0"
  shows "hookFunc e rt new t s = Some (emit_event (EDlclose handle) t, s)"
  using assms
  by (simp add: hookFunc_def store_old_def MSHookFunction_def SubstrateHookFunction_def SubstrateHookFunctionARM_def)

theorem hookFunc_24_installs_nothing_witness:
  "hookFunc arm_demo_env demo_runtime \<lparr>new26 = 1, new23 = 2, new22 = 3\<rparr> tracker_start thumb_demo
     = Some (emit_event (EDlclose 0x1000) tracker_start, thumb_demo)"
  by (rule hookFunc_24_installs_nothing) (simp_all add: demo_runtime_def)

definition demo_runtime23 :: runtime where
  "demo_runtime23 = demo_runtime\<lparr>rt_sym := (\<lambda>_ n. if n = sym_record23 then 0x8001 else 0)\<rparr>"


section \<open>Threads\<close>

text \<open>The test against the maximum is made without the lock, and \<open>CMyLock\<close> is unlocked by hand and
  again by its destructor. A thread goes through the steps below; the schedule says which thread
  makes the next step and, where it draws a number, whether it is the lucky one. Unlocking a mutex
  of the default kind does not look at the owner.\<close>

datatype pc = Idle | Counted | Waiting | Resetting | Dumping | Unlocked

record threads =
  th_pc :: "nat \<Rightarrow> pc"
  th_count :: nat
  th_records :: nat
  th_locked :: bool
  th_dumps :: nat

definition thread_step :: "nat \<Rightarrow> nat \<Rightarrow> bool \<Rightarrow> threads \<Rightarrow> threads option" where
  "thread_step m i l s =
     (let go = (\<lambda>p s. Some (s\<lparr>th_pc := (th_pc s)(i := p)\<rparr>))
      in case th_pc s i of
           Idle \<Rightarrow> go Counted (s\<lparr>th_count := th_count s + 1, th_records := th_records s + 1\<rparr>)
         | Counted \<Rightarrow> if l then go Idle s else if m < th_count s then go Waiting s else go Idle s
         | Waiting \<Rightarrow> if th_locked s then None else go Resetting (s\<lparr>th_locked := True\<rparr>)
         | Resetting \<Rightarrow> go Dumping (s\<lparr>th_count := 0\<rparr>)
         | Dumping \<Rightarrow> go Unlocked (s\<lparr>th_dumps := th_dumps s + 1, th_locked := False\<rparr>)
         | Unlocked \<Rightarrow> go Idle (s\<lparr>th_locked := False\<rparr>))"

fun run_schedule :: "nat \<Rightarrow> (nat \<times> bool) list \<Rightarrow> threads \<Rightarrow> threads option" where
  "run_schedule m [] s = Some s"
| "run_schedule m ((i, l) # sched) s = Option.bind (thread_step m i l s) (run_schedule m sched)"

definition in_section :: "threads \<Rightarrow> nat \<Rightarrow> bool" where
  "in_section s i \<longleftrightarrow> th_pc s i \<in> {Resetting, Dumping}"

definition threads_start :: threads where
  "threads_start = \<lparr>th_pc = (\<lambda>_. Idle), th_count = 0, th_records = 0, th_locked = False, th_dumps = 0\<rparr>"

lemma thread_step_simps:
  "th_pc s i = Idle \<Longrightarrow> thread_step m i l s
     = Some (s\<lparr>th_count := th_count s + 1, th_records := th_records s + 1, th_pc := (th_pc s)(i := Counted)\<rparr>)"
  "th_pc s i = Counted \<Longrightarrow> m < th_count s \<Longrightarrow> \<not> l \<Longrightarrow> thread_step m i l s = Some (s\<lparr>th_pc := (th_pc s)(i := Waiting)\<rparr>)"
  "th_pc s i = Counted \<Longrightarrow> \<not> m < th_count s \<Longrightarrow> thread_step m i l s = Some (s\<lparr>th_pc := (th_pc s)(i := Idle)\<rparr>)"
  "th_pc s i = Waiting \<Longrightarrow> \<not> th_locked s \<Longrightarrow> thread_step m i l s = Some (s\<lparr>th_locked := True, th_pc := (th_pc s)(i := Resetting)\<rparr>)"
  "th_pc s i = Resetting \<Longrightarrow> thread_step m i l s = Some (s\<lparr>th_count := 0, th_pc := (th_pc s)(i := Dumping)\<rparr>)"
  "th_pc s i = Dumping \<Longrightarrow> thread_step m i l s
     = Some (s\<lparr>th_dumps := th_dumps s + 1, th_locked := False, th_pc := (th_pc s)(i := Unlocked)\<rparr>)"
  "th_pc s i = Unlocked \<Longrightarrow> thread_step m i l s = Some (s\<lparr>th_locked := False, th_pc := (th_pc s)(i := Idle)\<rparr>)"
  by (simp_all add: thread_step_def Let_def)


end
