(* ===== verification/Md5.thy ===== *)
theory Md5
  imports Prelude "HOL-Library.Monad_Syntax"
begin

text \<open>
  The message digest of the application (\<open>app/src/main/cpp/md5.cpp\<close>, \<open>include/md5.h\<close>). The
  object \<open>MD5\<close> is a record of its member arrays; every member function is a definition that
  returns the updated record, or \<open>None\<close> where the C++ code reads or writes past an array.
  The reference is the algorithm of RFC 1321 in its table-driven form, over the padded message.
\<close>

section \<open>Constants and basic functions\<close>

definition S11 :: nat where "S11 = 7"
definition S12 :: nat where "S12 = 12"
definition S13 :: nat where "S13 = 17"
definition S14 :: nat where "S14 = 22"
definition S21 :: nat where "S21 = 5"
definition S22 :: nat where "S22 = 9"
definition S23 :: nat where "S23 = 14"
definition S24 :: nat where "S24 = 20"
definition S31 :: nat where "S31 = 4"
definition S32 :: nat where "S32 = 11"
definition S33 :: nat where "S33 = 16"
definition S34 :: nat where "S34 = 23"
definition S41 :: nat where "S41 = 6"
definition S42 :: nat where "S42 = 10"
definition S43 :: nat where "S43 = 15"
definition S44 :: nat where "S44 = 21"

lemmas shift_defs = S11_def S12_def S13_def S14_def S21_def S22_def S23_def S24_def
  S31_def S32_def S33_def S34_def S41_def S42_def S43_def S44_def

definition md5_F :: "u32 \<Rightarrow> u32 \<Rightarrow> u32 \<Rightarrow> u32" where "md5_F x y z = (x AND y) OR (NOT x AND z)"
definition md5_G :: "u32 \<Rightarrow> u32 \<Rightarrow> u32 \<Rightarrow> u32" where "md5_G x y z = (x AND z) OR (y AND NOT z)"
definition md5_H :: "u32 \<Rightarrow> u32 \<Rightarrow> u32 \<Rightarrow> u32" where "md5_H x y z = x XOR y XOR z"
definition md5_I :: "u32 \<Rightarrow> u32 \<Rightarrow> u32 \<Rightarrow> u32" where "md5_I x y z = y XOR (x OR NOT z)"

definition ROTATE_LEFT :: "u32 \<Rightarrow> nat \<Rightarrow> u32" where
  "ROTATE_LEFT x n = push_bit n x OR drop_bit (32 - n) x"

text \<open>The macros assign to their first argument: each returns the new content of it.\<close>

definition FF :: "u32 \<Rightarrow> u32 \<Rightarrow> u32 \<Rightarrow> u32 \<Rightarrow> u32 \<Rightarrow> nat \<Rightarrow> u32 \<Rightarrow> u32" where
  "FF a b c d x s ac =
    (let a = a + (md5_F b c d + x + ac);
         a = ROTATE_LEFT a s
     in a + b)"

definition GG :: "u32 \<Rightarrow> u32 \<Rightarrow> u32 \<Rightarrow> u32 \<Rightarrow> u32 \<Rightarrow> nat \<Rightarrow> u32 \<Rightarrow> u32" where
  "GG a b c d x s ac =
    (let a = a + (md5_G b c d + x + ac);
         a = ROTATE_LEFT a s
     in a + b)"

definition HH :: "u32 \<Rightarrow> u32 \<Rightarrow> u32 \<Rightarrow> u32 \<Rightarrow> u32 \<Rightarrow> nat \<Rightarrow> u32 \<Rightarrow> u32" where
  "HH a b c d x s ac =
    (let a = a + (md5_H b c d + x + ac);
         a = ROTATE_LEFT a s
     in a + b)"

definition II :: "u32 \<Rightarrow> u32 \<Rightarrow> u32 \<Rightarrow> u32 \<Rightarrow> u32 \<Rightarrow> nat \<Rightarrow> u32 \<Rightarrow> u32" where
  "II a b c d x s ac =
    (let a = a + (md5_I b c d + x + ac);
         a = ROTATE_LEFT a s
     in a + b)"

definition PADDING :: "u8 list" where
  "PADDING = 0x80 # replicate 63 0"

definition HEX :: "string" where
  "HEX = ''0123456789abcdef''"

definition BUFFER_SIZE :: nat where
  "BUFFER_SIZE = 1024"

section \<open>The object\<close>

text \<open>\<open>count\<close> is the number of bits modulo \<open>2 ^ 64\<close>, low-order word first.\<close>

record md5 =
  md_state :: "u32 list"
  md_count :: "u32 list"
  md_buffer :: "u8 list"
  md_digest :: "u8 list"
  finished :: bool

type_synonym quad = "u32 \<times> u32 \<times> u32 \<times> u32"

text \<open>\<open>memcpy(dst + off, src, n)\<close> between distinct arrays.\<close>

definition memcpy :: "'a list \<Rightarrow> nat \<Rightarrow> 'a list \<Rightarrow> nat \<Rightarrow> 'a list option" where
  "memcpy dst off src n =
    (if off + n \<le> length dst \<and> n \<le> length src
     then Some (take off dst @ take n src @ drop (off + n) dst) else None)"

fun encode :: "u32 list \<Rightarrow> u8 list" where
  "encode [] = []"
| "encode (w # ws) =
    [ucast (w AND 0xff), ucast (drop_bit 8 w AND 0xff),
     ucast (drop_bit 16 w AND 0xff), ucast (drop_bit 24 w AND 0xff)] @ encode ws"

fun decode :: "u8 list \<Rightarrow> u32 list" where
  "decode (b0 # b1 # b2 # b3 # bs) =
    (ucast b0 OR push_bit 8 (ucast b1) OR push_bit 16 (ucast b2) OR push_bit 24 (ucast b3))
      # decode bs"
| "decode _ = []"

section \<open>The transformation of one block\<close>

definition round1 :: "u32 list \<Rightarrow> quad \<Rightarrow> quad" where
  "round1 x q = (case q of (a, b, c, d) \<Rightarrow>
     let a = FF a b c d (x ! 0) S11 0xd76aa478;
         d = FF d a b c (x ! 1) S12 0xe8c7b756;
         c = FF c d a b (x ! 2) S13 0x242070db;
         b = FF b c d a (x ! 3) S14 0xc1bdceee;
         a = FF a b c d (x ! 4) S11 0xf57c0faf;
         d = FF d a b c (x ! 5) S12 0x4787c62a;
         c = FF c d a b (x ! 6) S13 0xa8304613;
         b = FF b c d a (x ! 7) S14 0xfd469501;
         a = FF a b c d (x ! 8) S11 0x698098d8;
         d = FF d a b c (x ! 9) S12 0x8b44f7af;
         c = FF c d a b (x ! 10) S13 0xffff5bb1;
         b = FF b c d a (x ! 11) S14 0x895cd7be;
         a = FF a b c d (x ! 12) S11 0x6b901122;
         d = FF d a b c (x ! 13) S12 0xfd987193;
         c = FF c d a b (x ! 14) S13 0xa679438e;
         b = FF b c d a (x ! 15) S14 0x49b40821
     in (a, b, c, d))"

definition round2 :: "u32 list \<Rightarrow> quad \<Rightarrow> quad" where
  "round2 x q = (case q of (a, b, c, d) \<Rightarrow>
     let a = GG a b c d (x ! 1) S21 0xf61e2562;
         d = GG d a b c (x ! 6) S22 0xc040b340;
         c = GG c d a b (x ! 11) S23 0x265e5a51;
         b = GG b c d a (x ! 0) S24 0xe9b6c7aa;
         a = GG a b c d (x ! 5) S21 0xd62f105d;
         d = GG d a b c (x ! 10) S22 0x2441453;
         c = GG c d a b (x ! 15) S23 0xd8a1e681;
         b = GG b c d a (x ! 4) S24 0xe7d3fbc8;
         a = GG a b c d (x ! 9) S21 0x21e1cde6;
         d = GG d a b c (x ! 14) S22 0xc33707d6;
         c = GG c d a b (x ! 3) S23 0xf4d50d87;
         b = GG b c d a (x ! 8) S24 0x455a14ed;
         a = GG a b c d (x ! 13) S21 0xa9e3e905;
         d = GG d a b c (x ! 2) S22 0xfcefa3f8;
         c = GG c d a b (x ! 7) S23 0x676f02d9;
         b = GG b c d a (x ! 12) S24 0x8d2a4c8a
     in (a, b, c, d))"

definition round3 :: "u32 list \<Rightarrow> quad \<Rightarrow> quad" where
  "round3 x q = (case q of (a, b, c, d) \<Rightarrow>
     let a = HH a b c d (x ! 5) S31 0xfffa3942;
         d = HH d a b c (x ! 8) S32 0x8771f681;
         c = HH c d a b (x ! 11) S33 0x6d9d6122;
         b = HH b c d a (x ! 14) S34 0xfde5380c;
         a = HH a b c d (x ! 1) S31 0xa4beea44;
         d = HH d a b c (x ! 4) S32 0x4bdecfa9;
         c = HH c d a b (x ! 7) S33 0xf6bb4b60;
         b = HH b c d a (x ! 10) S34 0xbebfbc70;
         a = HH a b c d (x ! 13) S31 0x289b7ec6;
         d = HH d a b c (x ! 0) S32 0xeaa127fa;
         c = HH c d a b (x ! 3) S33 0xd4ef3085;
         b = HH b c d a (x ! 6) S34 0x4881d05;
         a = HH a b c d (x ! 9) S31 0xd9d4d039;
         d = HH d a b c (x ! 12) S32 0xe6db99e5;
         c = HH c d a b (x ! 15) S33 0x1fa27cf8;
         b = HH b c d a (x ! 2) S34 0xc4ac5665
     in (a, b, c, d))"

definition round4 :: "u32 list \<Rightarrow> quad \<Rightarrow> quad" where
  "round4 x q = (case q of (a, b, c, d) \<Rightarrow>
     let a = II a b c d (x ! 0) S41 0xf4292244;
         d = II d a b c (x ! 7) S42 0x432aff97;
         c = II c d a b (x ! 14) S43 0xab9423a7;
         b = II b c d a (x ! 5) S44 0xfc93a039;
         a = II a b c d (x ! 12) S41 0x655b59c3;
         d = II d a b c (x ! 3) S42 0x8f0ccc92;
         c = II c d a b (x ! 10) S43 0xffeff47d;
         b = II b c d a (x ! 1) S44 0x85845dd1;
         a = II a b c d (x ! 8) S41 0x6fa87e4f;
         d = II d a b c (x ! 15) S42 0xfe2ce6e0;
         c = II c d a b (x ! 6) S43 0xa3014314;
         b = II b c d a (x ! 13) S44 0x4e0811a1;
         a = II a b c d (x ! 4) S41 0xf7537e82;
         d = II d a b c (x ! 11) S42 0xbd3af235;
         c = II c d a b (x ! 2) S43 0x2ad7d2bb;
         b = II b c d a (x ! 9) S44 0xeb86d391
     in (a, b, c, d))"

definition md5_transform :: "u8 list \<Rightarrow> md5 \<Rightarrow> md5" where
  "md5_transform block m =
    (let s = md_state m;
         x = decode block
     in case round4 x (round3 x (round2 x (round1 x (s ! 0, s ! 1, s ! 2, s ! 3)))) of
       (a, b, c, d) \<Rightarrow> m\<lparr>md_state := [s ! 0 + a, s ! 1 + b, s ! 2 + c, s ! 3 + d]\<rparr>)"

section \<open>Member functions\<close>

definition md5_reset :: "md5 \<Rightarrow> md5" where
  "md5_reset m = m\<lparr>finished := False, md_count := [0, 0],
     md_state := [0x67452301, 0xefcdab89, 0x98badcfe, 0x10325476]\<rparr>"

definition count_index :: "md5 \<Rightarrow> u32" where
  "count_index m = drop_bit 3 (md_count m ! 0) AND 0x3f"

definition add_count :: "size_t \<Rightarrow> u32 list \<Rightarrow> u32 list" where
  "add_count len c =
    (let c0 = c ! 0 + push_bit 3 len;
         c1 = (if c0 < push_bit 3 len then c ! 1 + 1 else c ! 1)
     in [c0, c1 + drop_bit 29 len])"

text \<open>The loop over whole blocks of the input, with its 32-bit counter: the block at \<open>i\<close> lies
  in the input without wrapping around the address space, or the access is undefined. It returns
  the counter at loop exit.\<close>

function transform_blocks :: "u8 list \<Rightarrow> size_t \<Rightarrow> u32 \<Rightarrow> md5 \<Rightarrow> (u32 \<times> md5) option" where
  "transform_blocks input len i m =
    (if i + 63 < len
     then if unat i + 64 \<le> length input \<and> i < i + 64
       then transform_blocks input len (i + 64) (md5_transform (take 64 (drop (unat i) input)) m)
       else None
     else Some (i, m))"
  by pat_completeness auto

termination transform_blocks
  by (relation "measure (\<lambda>(input, len, i, m). 2 ^ 32 - unat i)")
    (auto simp: word_less_nat_alt unat_plus_if' split: if_splits)

declare transform_blocks.simps [simp del]

definition md5_update :: "u8 list \<Rightarrow> size_t \<Rightarrow> md5 \<Rightarrow> md5 option" where
  "md5_update input len m =
    (let index = count_index m;
         m = m\<lparr>finished := False, md_count := add_count len (md_count m)\<rparr>;
         partLen = 64 - index
     in if partLen \<le> len
        then do {
          buf \<leftarrow> memcpy (md_buffer m) (unat index) input (unat partLen);
          (i, m) \<leftarrow> transform_blocks input len partLen (md5_transform buf (m\<lparr>md_buffer := buf\<rparr>));
          buf \<leftarrow> memcpy (md_buffer m) 0 (drop (unat i) input) (unat (len - i));
          Some (m\<lparr>md_buffer := buf\<rparr>)
        }
        else do {
          buf \<leftarrow> memcpy (md_buffer m) (unat index) input (unat len);
          Some (m\<lparr>md_buffer := buf\<rparr>)
        })"

text \<open>The overload for strings passes the bytes and the length of the string.\<close>

definition md5_update_string :: "u8 list \<Rightarrow> md5 \<Rightarrow> md5 option" where
  "md5_update_string str m = md5_update (str @ [0]) (of_nat (length str)) m"

text \<open>An input file stream: the bytes not yet read and the \<open>eofbit\<close> and \<open>failbit\<close>. A \<open>read\<close> that
  meets the end of the file stores what is left and sets both bits; on a stream that is not
  good it stores nothing and sets \<open>failbit\<close>.\<close>

record ifstream =
  remaining :: "u8 list"
  eofbit :: bool
  failbit :: bool
  is_open :: bool

definition ifstream_read :: "nat \<Rightarrow> ifstream \<Rightarrow> u8 list \<times> ifstream" where
  "ifstream_read n s =
    (if eofbit s \<or> failbit s then ([], s\<lparr>failbit := True\<rparr>)
     else if length (remaining s) < n
       then (remaining s, s\<lparr>remaining := [], eofbit := True, failbit := True\<rparr>)
       else (take n (remaining s), s\<lparr>remaining := drop n (remaining s)\<rparr>))"

partial_function (option) read_loop :: "ifstream \<Rightarrow> md5 \<Rightarrow> (ifstream \<times> md5) option" where
  "read_loop s m =
    (if eofbit s then Some (s, m)
     else case ifstream_read BUFFER_SIZE s of
       (buffer, s') \<Rightarrow>
         if buffer \<noteq> []
         then Option.bind (md5_update buffer (of_nat (length buffer)) m) (read_loop s')
         else read_loop s' m)"

definition md5_update_stream :: "ifstream \<Rightarrow> md5 \<Rightarrow> (ifstream \<times> md5) option" where
  "md5_update_stream s m =
    (if failbit s then Some (s, m)
     else do {
       (s, m) \<leftarrow> read_loop s m;
       Some (s\<lparr>is_open := False\<rparr>, m)
     })"

definition md5_final :: "md5 \<Rightarrow> md5 option" where
  "md5_final m =
    (let oldState = md_state m;
         oldCount = md_count m;
         bits = encode (md_count m);
         index = count_index m;
         padLen = (if index < 56 then 56 - index else 120 - index)
     in do {
       m \<leftarrow> md5_update PADDING padLen m;
       m \<leftarrow> md5_update bits 8 m;
       Some (m\<lparr>md_digest := encode (md_state m), md_state := oldState, md_count := oldCount\<rparr>)
     })"

definition digest :: "md5 \<Rightarrow> (u8 list \<times> md5) option" where
  "digest m =
    (if \<not> finished m
     then do {
       m \<leftarrow> md5_final (m\<lparr>finished := True\<rparr>);
       Some (md_digest m, m)
     }
     else Some (md_digest m, m))"

fun bytesToHexString :: "u8 list \<Rightarrow> string" where
  "bytesToHexString [] = []"
| "bytesToHexString (t # ts) = HEX ! (unat t div 16) # HEX ! (unat t mod 16) # bytesToHexString ts"

definition md5_toString :: "md5 \<Rightarrow> (string \<times> md5) option" where
  "md5_toString m = do {
     (d, m) \<leftarrow> digest m;
     Some (bytesToHexString d, m)
   }"

text \<open>The constructors: the members not assigned by \<open>reset\<close> keep what the memory \<open>raw\<close> of the
  new object held.\<close>

definition MD5_buffer :: "md5 \<Rightarrow> u8 list \<Rightarrow> size_t \<Rightarrow> md5 option" where
  "MD5_buffer raw input len = md5_update input len (md5_reset raw)"

definition MD5_string :: "md5 \<Rightarrow> u8 list \<Rightarrow> md5 option" where
  "MD5_string raw str = md5_update_string str (md5_reset raw)"

definition MD5_stream :: "md5 \<Rightarrow> ifstream \<Rightarrow> (ifstream \<times> md5) option" where
  "MD5_stream raw s = md5_update_stream s (md5_reset raw)"

section \<open>Reference: RFC 1321\<close>

definition md5_K :: "u32 list" where
  "md5_K = [
     0xd76aa478, 0xe8c7b756, 0x242070db, 0xc1bdceee, 0xf57c0faf, 0x4787c62a,
     0xa8304613, 0xfd469501, 0x698098d8, 0x8b44f7af, 0xffff5bb1, 0x895cd7be,
     0x6b901122, 0xfd987193, 0xa679438e, 0x49b40821, 0xf61e2562, 0xc040b340,
     0x265e5a51, 0xe9b6c7aa, 0xd62f105d, 0x02441453, 0xd8a1e681, 0xe7d3fbc8,
     0x21e1cde6, 0xc33707d6, 0xf4d50d87, 0x455a14ed, 0xa9e3e905, 0xfcefa3f8,
     0x676f02d9, 0x8d2a4c8a, 0xfffa3942, 0x8771f681, 0x6d9d6122, 0xfde5380c,
     0xa4beea44, 0x4bdecfa9, 0xf6bb4b60, 0xbebfbc70, 0x289b7ec6, 0xeaa127fa,
     0xd4ef3085, 0x04881d05, 0xd9d4d039, 0xe6db99e5, 0x1fa27cf8, 0xc4ac5665,
     0xf4292244, 0x432aff97, 0xab9423a7, 0xfc93a039, 0x655b59c3, 0x8f0ccc92,
     0xffeff47d, 0x85845dd1, 0x6fa87e4f, 0xfe2ce6e0, 0xa3014314, 0x4e0811a1,
     0xf7537e82, 0xbd3af235, 0x2ad7d2bb, 0xeb86d391]"

definition md5_shift :: "nat \<Rightarrow> nat" where
  "md5_shift i = [[7, 12, 17, 22], [5, 9, 14, 20], [4, 11, 16, 23], [6, 10, 15, 21]]
     ! (i div 16) ! (i mod 4)"

definition md5_word_index :: "nat \<Rightarrow> nat" where
  "md5_word_index i =
    (if i < 16 then i else if i < 32 then (5 * i + 1) mod 16
     else if i < 48 then (3 * i + 5) mod 16 else (7 * i) mod 16)"

definition md5_mix :: "nat \<Rightarrow> u32 \<Rightarrow> u32 \<Rightarrow> u32 \<Rightarrow> u32" where
  "md5_mix i =
    (if i < 16 then \<lambda>b c d. (b AND c) OR (NOT b AND d)
     else if i < 32 then \<lambda>b c d. (d AND b) OR (NOT d AND c)
     else if i < 48 then \<lambda>b c d. b XOR c XOR d
     else (\<lambda>b c d. c XOR (b OR NOT d)))"

definition md5_step :: "u32 list \<Rightarrow> nat \<Rightarrow> quad \<Rightarrow> quad" where
  "md5_step x i q = (case q of (a, b, c, d) \<Rightarrow>
     (d, b + word_rotl (md5_shift i) (a + md5_mix i b c d + md5_K ! i + x ! md5_word_index i), b, c))"

definition md5_compress :: "u32 list \<Rightarrow> u8 list \<Rightarrow> u32 list" where
  "md5_compress s block =
    (case fold (md5_step (decode block)) [0..<64] (s ! 0, s ! 1, s ! 2, s ! 3) of
      (a, b, c, d) \<Rightarrow> [s ! 0 + a, s ! 1 + b, s ! 2 + c, s ! 3 + d])"

function hash_blocks :: "u32 list \<Rightarrow> u8 list \<Rightarrow> u32 list" where
  "hash_blocks s xs =
    (if length xs < 64 then s else hash_blocks (md5_compress s (take 64 xs)) (drop 64 xs))"
  by pat_completeness auto

termination hash_blocks
  by (relation "measure (\<lambda>(s, xs). length xs)") auto

declare hash_blocks.simps [simp del]

definition md5_init :: "u32 list" where
  "md5_init = [0x67452301, 0xefcdab89, 0x98badcfe, 0x10325476]"

definition bit_length :: "u8 list \<Rightarrow> u32 list" where
  "bit_length msg = [word_of_nat (8 * length msg), word_of_nat (8 * length msg div 2 ^ 32)]"

definition md5_pad :: "u8 list \<Rightarrow> u8 list" where
  "md5_pad msg = msg @ [0x80] @ replicate ((119 - length msg mod 64) mod 64) 0 @ encode (bit_length msg)"

definition md5_rfc :: "u8 list \<Rightarrow> u8 list" where
  "md5_rfc msg = encode (hash_blocks md5_init (md5_pad msg))"

section \<open>The unrolled rounds are the table-driven steps\<close>

lemma rotate_left_rotl:
  assumes "0 < n" "n < 32"
  shows "word_rotl n w = ROTATE_LEFT w n"
proof (rule bit_word_eqI)
  fix k
  assume "k < LENGTH(32)"
  then have k: "k < 32" by simp
  have rot: "bit (word_rotl n w) k \<longleftrightarrow> bit w ((k + (32 - n)) mod 32)"
    using assms k by (simp only: bit_word_rotl_iff) simp
  have shift: "bit (ROTATE_LEFT w n) k \<longleftrightarrow> n \<le> k \<and> bit w (k - n) \<or> bit w (32 - n + k)"
    using k by (simp only: ROTATE_LEFT_def bit_or_iff bit_push_bit_iff bit_drop_bit_eq o_apply) simp
  show "bit (word_rotl n w) k = bit (ROTATE_LEFT w n) k"
  proof (cases "n \<le> k")
    case True
    then have "k + (32 - n) = k - n + 32" "k - n < 32" using assms k by linarith+
    then have "(k + (32 - n)) mod 32 = k - n" by simp
    moreover have "\<not> bit w (32 - n + k)" using True assms by (auto dest!: bit_imp_le_length)
    ultimately show ?thesis using True by (simp only: rot shift) simp
  next
    case False
    then have "(k + (32 - n)) mod 32 = 32 - n + k" using assms k by simp
    then show ?thesis using False by (simp only: rot shift) simp
  qed
qed

lemma fold_Let: "fold f xs (Let e g) = Let e (\<lambda>v. fold f xs (g v))" by simp

lemma upt_64: "[0..<64::nat] = [0..<16] @ [16..<32] @ [32..<48] @ [48..<64]"
  using upt_add_eq_append [of 0 16 48] upt_add_eq_append [of 16 32 32] upt_add_eq_append [of 32 48 16]
  by (simp del: upt_rec_numeral upt_Suc)

lemma md5_shift_range: "i < 64 \<Longrightarrow> 0 < md5_shift i \<and> md5_shift i < 32"
proof -
  assume "i < 64"
  then have "i div 16 < 4" "i mod 4 < 4" by auto
  moreover have "\<forall>j<4. \<forall>k<4. 0 < [[7, 12, 17, 22], [5, 9, 14, 20], [4, 11, 16, 23], [6, 10, 15, 21::nat]] ! j ! k
    \<and> [[7, 12, 17, 22], [5, 9, 14, 20], [4, 11, 16, 23], [6, 10, 15, 21::nat]] ! j ! k < 32"
    by (simp add: All_less_Suc numeral_eq_Suc)
  ultimately show ?thesis unfolding md5_shift_def by blast
qed

lemma md5_step_1: "i < 16 \<Longrightarrow> md5_step x i (a, b, c, d) =
    (let a' = FF a b c d (x ! md5_word_index i) (md5_shift i) (md5_K ! i) in (d, a', b, c))"
  using md5_shift_range [of i]
  by (simp add: md5_step_def FF_def md5_F_def md5_mix_def rotate_left_rotl ac_simps)

lemma md5_step_2: "16 \<le> i \<Longrightarrow> i < 32 \<Longrightarrow> md5_step x i (a, b, c, d) =
    (let a' = GG a b c d (x ! md5_word_index i) (md5_shift i) (md5_K ! i) in (d, a', b, c))"
  using md5_shift_range [of i]
  by (simp add: md5_step_def GG_def md5_G_def md5_mix_def rotate_left_rotl ac_simps)

lemma md5_step_3: "32 \<le> i \<Longrightarrow> i < 48 \<Longrightarrow> md5_step x i (a, b, c, d) =
    (let a' = HH a b c d (x ! md5_word_index i) (md5_shift i) (md5_K ! i) in (d, a', b, c))"
  using md5_shift_range [of i]
  by (simp add: md5_step_def HH_def md5_H_def md5_mix_def rotate_left_rotl ac_simps)

lemma md5_step_4: "48 \<le> i \<Longrightarrow> i < 64 \<Longrightarrow> md5_step x i (a, b, c, d) =
    (let a' = II a b c d (x ! md5_word_index i) (md5_shift i) (md5_K ! i) in (d, a', b, c))"
  using md5_shift_range [of i]
  by (simp add: md5_step_def II_def md5_I_def md5_mix_def rotate_left_rotl ac_simps)

lemma round1_ref: "round1 x (a, b, c, d) = fold (md5_step x) [0..<16] (a, b, c, d)"
proof -
  let ?is = "[0, 1, 2, 3, 4, 5, 6, 7, 8, 9, 10, 11, 12, 13, 14, 15::nat]"
  have u: "[0..<16] = ?is" by (simp add: upt_rec)
  have w: "map md5_word_index ?is = [0, 1, 2, 3, 4, 5, 6, 7, 8, 9, 10, 11, 12, 13, 14, 15]"
    by (simp add: md5_word_index_def)
  have s: "map md5_shift ?is =
      [S11, S12, S13, S14, S11, S12, S13, S14, S11, S12, S13, S14, S11, S12, S13, S14]"
    by (simp add: md5_shift_def shift_defs)
  have k: "map ((!) md5_K) ?is =
     [0xd76aa478, 0xe8c7b756, 0x242070db, 0xc1bdceee,
      0xf57c0faf, 0x4787c62a, 0xa8304613, 0xfd469501,
      0x698098d8, 0x8b44f7af, 0xffff5bb1, 0x895cd7be,
      0x6b901122, 0xfd987193, 0xa679438e, 0x49b40821]"
    by (simp add: md5_K_def)
  show ?thesis
    unfolding u by (simp only: round1_def prod.case fold_simps md5_step_1 rel_simps fold_Let
      w [simplified list.map list.inject simp_thms] s [simplified list.map list.inject simp_thms]
      k [simplified list.map list.inject simp_thms])
qed

lemma round2_ref: "round2 x (a, b, c, d) = fold (md5_step x) [16..<32] (a, b, c, d)"
proof -
  let ?is = "[16, 17, 18, 19, 20, 21, 22, 23, 24, 25, 26, 27, 28, 29, 30, 31::nat]"
  have u: "[16..<32] = ?is" by (simp add: upt_rec)
  have w: "map md5_word_index ?is = [1, 6, 11, 0, 5, 10, 15, 4, 9, 14, 3, 8, 13, 2, 7, 12]"
    by (simp add: md5_word_index_def)
  have s: "map md5_shift ?is =
      [S21, S22, S23, S24, S21, S22, S23, S24, S21, S22, S23, S24, S21, S22, S23, S24]"
    by (simp add: md5_shift_def shift_defs)
  have k: "map ((!) md5_K) ?is =
     [0xf61e2562, 0xc040b340, 0x265e5a51, 0xe9b6c7aa,
      0xd62f105d, 0x02441453, 0xd8a1e681, 0xe7d3fbc8,
      0x21e1cde6, 0xc33707d6, 0xf4d50d87, 0x455a14ed,
      0xa9e3e905, 0xfcefa3f8, 0x676f02d9, 0x8d2a4c8a]"
    by (simp add: md5_K_def)
  show ?thesis
    unfolding u by (simp only: round2_def prod.case fold_simps md5_step_2 rel_simps fold_Let
      w [simplified list.map list.inject simp_thms] s [simplified list.map list.inject simp_thms]
      k [simplified list.map list.inject simp_thms])
qed

lemma round3_ref: "round3 x (a, b, c, d) = fold (md5_step x) [32..<48] (a, b, c, d)"
proof -
  let ?is = "[32, 33, 34, 35, 36, 37, 38, 39, 40, 41, 42, 43, 44, 45, 46, 47::nat]"
  have u: "[32..<48] = ?is" by (simp add: upt_rec)
  have w: "map md5_word_index ?is = [5, 8, 11, 14, 1, 4, 7, 10, 13, 0, 3, 6, 9, 12, 15, 2]"
    by (simp add: md5_word_index_def)
  have s: "map md5_shift ?is =
      [S31, S32, S33, S34, S31, S32, S33, S34, S31, S32, S33, S34, S31, S32, S33, S34]"
    by (simp add: md5_shift_def shift_defs)
  have k: "map ((!) md5_K) ?is =
     [0xfffa3942, 0x8771f681, 0x6d9d6122, 0xfde5380c,
      0xa4beea44, 0x4bdecfa9, 0xf6bb4b60, 0xbebfbc70,
      0x289b7ec6, 0xeaa127fa, 0xd4ef3085, 0x04881d05,
      0xd9d4d039, 0xe6db99e5, 0x1fa27cf8, 0xc4ac5665]"
    by (simp add: md5_K_def)
  show ?thesis
    unfolding u by (simp only: round3_def prod.case fold_simps md5_step_3 rel_simps fold_Let
      w [simplified list.map list.inject simp_thms] s [simplified list.map list.inject simp_thms]
      k [simplified list.map list.inject simp_thms])
qed

lemma round4_ref: "round4 x (a, b, c, d) = fold (md5_step x) [48..<64] (a, b, c, d)"
proof -
  let ?is = "[48, 49, 50, 51, 52, 53, 54, 55, 56, 57, 58, 59, 60, 61, 62, 63::nat]"
  have u: "[48..<64] = ?is" by (simp add: upt_rec)
  have w: "map md5_word_index ?is = [0, 7, 14, 5, 12, 3, 10, 1, 8, 15, 6, 13, 4, 11, 2, 9]"
    by (simp add: md5_word_index_def)
  have s: "map md5_shift ?is =
      [S41, S42, S43, S44, S41, S42, S43, S44, S41, S42, S43, S44, S41, S42, S43, S44]"
    by (simp add: md5_shift_def shift_defs)
  have k: "map ((!) md5_K) ?is =
     [0xf4292244, 0x432aff97, 0xab9423a7, 0xfc93a039,
      0x655b59c3, 0x8f0ccc92, 0xffeff47d, 0x85845dd1,
      0x6fa87e4f, 0xfe2ce6e0, 0xa3014314, 0x4e0811a1,
      0xf7537e82, 0xbd3af235, 0x2ad7d2bb, 0xeb86d391]"
    by (simp add: md5_K_def)
  show ?thesis
    unfolding u by (simp only: round4_def prod.case fold_simps md5_step_4 rel_simps fold_Let
      w [simplified list.map list.inject simp_thms] s [simplified list.map list.inject simp_thms]
      k [simplified list.map list.inject simp_thms])
qed

lemma md5_transform_ref: "md5_transform block m = m\<lparr>md_state := md5_compress (md_state m) block\<rparr>"
proof -
  have "round4 x (round3 x (round2 x (round1 x q))) = fold (md5_step x) [0..<64] q" for x and q :: quad
  proof -
    obtain a b c d where "q = (a, b, c, d)" by (metis prod_cases4)
    moreover have "round2 x q = fold (md5_step x) [16..<32] q" "round3 x q = fold (md5_step x) [32..<48] q"
      "round4 x q = fold (md5_step x) [48..<64] q" for q
      by (metis prod_cases4 round2_ref round3_ref round4_ref)+
    ultimately show ?thesis by (simp only: round1_ref upt_64 fold_append o_apply)
  qed
  then show ?thesis
    unfolding md5_transform_def md5_compress_def Let_def by (simp only: split: prod.splits) simp
qed

section \<open>Bytes, blocks and counters\<close>

lemma length_encode [simp]: "length (encode ws) = 4 * length ws"
  by (induction ws) auto

lemma byte_split: "(ucast (ucast (w AND 0xff) :: u8) OR push_bit 8 (ucast (ucast (drop_bit 8 w AND 0xff) :: u8))
    OR push_bit 16 (ucast (ucast (drop_bit 16 w AND 0xff) :: u8))
    OR push_bit 24 (ucast (ucast (drop_bit 24 w AND 0xff) :: u8))) = (w :: u32)"
proof -
  have ff: "0xff = (mask 8 :: u32)" by (simp add: mask_eq_exp_minus_1)
  have pos: "n = 8 + (n - 8) \<or> n < 8" "n = 16 + (n - 16) \<or> n < 16" "n = 24 + (n - 24) \<or> n < 24" for n :: nat
    by linarith+
  show ?thesis
  proof (rule bit_word_eqI)
    fix n
    assume "n < LENGTH(32)"
    then consider "n < 8" | "8 \<le> n" "n < 16" | "16 \<le> n" "n < 24" | "24 \<le> n" "n < 32" by force
    then show "bit (ucast (ucast (w AND 0xff) :: u8) OR push_bit 8 (ucast (ucast (drop_bit 8 w AND 0xff) :: u8))
        OR push_bit 16 (ucast (ucast (drop_bit 16 w AND 0xff) :: u8))
        OR push_bit 24 (ucast (ucast (drop_bit 24 w AND 0xff) :: u8)) :: u32) n = bit w n"
      by cases (auto simp: ff bit_simps)
  qed
qed

lemma byte_join:
  fixes b0 b1 b2 b3 :: u8
  defines "w \<equiv> ucast b0 OR push_bit 8 (ucast b1) OR push_bit 16 (ucast b2) OR push_bit 24 (ucast b3) :: u32"
  shows "ucast (w AND 0xff) = b0" "ucast (drop_bit 8 w AND 0xff) = b1"
    "ucast (drop_bit 16 w AND 0xff) = b2" "ucast (drop_bit 24 w AND 0xff) = b3"
proof -
  have ff: "0xff = (mask 8 :: u32)" by (simp add: mask_eq_exp_minus_1)
  have not_bit_high: "8 \<le> n \<Longrightarrow> \<not> bit b n" for b :: u8 and n by (auto dest: bit_imp_le_length)
  show "ucast (w AND 0xff) = b0"
    by (rule bit_word_eqI) (auto simp: w_def ff bit_simps)
  show "ucast (drop_bit 8 w AND 0xff) = b1"
    by (rule bit_word_eqI) (auto simp: w_def ff bit_simps not_bit_high)
  show "ucast (drop_bit 16 w AND 0xff) = b2"
    by (rule bit_word_eqI) (auto simp: w_def ff bit_simps not_bit_high)
  show "ucast (drop_bit 24 w AND 0xff) = b3"
    by (rule bit_word_eqI) (auto simp: w_def ff bit_simps not_bit_high)
qed

lemma decode_encode_words: "decode (encode ws) = ws"
  by (induction ws) (simp_all add: byte_split)

lemma encode_decode_bytes: "length bs mod 4 = 0 \<Longrightarrow> encode (decode bs) = bs"
proof (induction bs rule: decode.induct)
  case (1 b0 b1 b2 b3 bs)
  then show ?case by (simp only: decode.simps encode.simps byte_join append.simps) simp
qed simp_all

lemma hash_blocks_short [simp]: "length xs < 64 \<Longrightarrow> hash_blocks s xs = s"
  by (simp add: hash_blocks.simps)

lemma hash_blocks_append:
  "64 dvd length xs \<Longrightarrow> hash_blocks s (xs @ ys) = hash_blocks (hash_blocks s xs) ys"
proof (induction s xs rule: hash_blocks.induct)
  case (1 s xs)
  show ?case
  proof (cases "length xs < 64")
    case True
    then have "xs = []" using 1(2) by (auto dest: dvd_imp_le)
    then show ?thesis by simp
  next
    case False
    then have "64 dvd length (drop 64 xs)" using 1(2) by (simp add: dvd_diff_nat)
    then show ?thesis using 1(1) [OF False] False
      by (simp add: hash_blocks.simps [of s "xs @ ys"] hash_blocks.simps [of s xs])
  qed
qed

lemma hash_blocks_one: "length xs = 64 \<Longrightarrow> hash_blocks s xs = md5_compress s xs"
  by (simp add: hash_blocks.simps)

lemma hash_blocks_whole: "hash_blocks s xs = hash_blocks s (take (64 * (length xs div 64)) xs)"
proof -
  let ?n = "64 * (length xs div 64)"
  have "hash_blocks s (take ?n xs @ drop ?n xs) = hash_blocks (hash_blocks s (take ?n xs)) (drop ?n xs)"
    by (rule hash_blocks_append) simp
  moreover have "length (drop ?n xs) < 64" by (simp add: minus_mult_div_eq_mod)
  ultimately show ?thesis by simp
qed

definition md5_repr :: "md5 \<Rightarrow> u8 list \<Rightarrow> bool" where
  "md5_repr m msg \<longleftrightarrow> md_state m = hash_blocks md5_init msg \<and> md_count m = bit_length msg \<and>
     length (md_buffer m) = 64 \<and>
     take (length msg mod 64) (md_buffer m) = drop (64 * (length msg div 64)) msg"

lemma add_mod_carry:
  fixes x y W :: nat
  assumes "0 < W"
  shows "(x + y) mod W < y mod W \<longleftrightarrow> W \<le> x mod W + y mod W"
    "(x + y) div W = x div W + y div W + (if W \<le> x mod W + y mod W then 1 else 0)"
proof -
  define a where "a = x mod W"
  define b where "b = y mod W"
  have ab: "a < W" "b < W" using assms by (simp_all add: a_def b_def)
  have m: "(x + y) mod W = (a + b) mod W" by (simp add: a_def b_def mod_simps)
  have s: "a + b = W + (a + b - W)" "a + b - W < W" if "W \<le> a + b" using that ab by linarith+
  show "(x + y) mod W < y mod W \<longleftrightarrow> W \<le> x mod W + y mod W"
  proof (cases "W \<le> a + b")
    case True
    then have "(a + b) mod W = a + b - W" using s by (metis mod_add_self1 mod_less)
    then show ?thesis using True ab m unfolding a_def [symmetric] b_def [symmetric] by linarith
  next
    case False
    then show ?thesis using m unfolding a_def [symmetric] b_def [symmetric] by simp
  qed
  have "(a + b) div W = (if W \<le> a + b then 1 else 0)"
  proof (cases "W \<le> a + b")
    case True
    have "(a + b) div W = (W + (a + b - W)) div W" by (rule arg_cong [OF s(1) [OF True]])
    also have "\<dots> = (a + b - W) div W + 1" using assms by (intro div_add_self1) simp
    also have "\<dots> = 1" using div_less [OF s(2) [OF True]] by simp
    finally show ?thesis unfolding if_P [OF True] .
  qed simp
  then show "(x + y) div W = x div W + y div W + (if W \<le> x mod W + y mod W then 1 else 0)"
    unfolding div_add1_eq [of x y W] by (simp only: a_def b_def)
qed

lemma add_count_bit_length:
  assumes "length xs = unat len"
  shows "add_count len (bit_length msg) = bit_length (msg @ xs)"
proof -
  define L where "L = 8 * length msg"
  define n where "n = 8 * unat len"
  define W where "W = (2 ^ 32 :: nat)"
  have W: "0 < W" by (simp add: W_def)
  have un: "unat (word_of_nat k :: u32) = k mod W" for k by (simp add: unat_of_nat W_def)
  have pb: "push_bit 3 len = word_of_nat n" by (simp add: n_def push_bit_eq_mult)
  have less: "(word_of_nat (L + n) :: u32) < word_of_nat n \<longleftrightarrow> W \<le> L mod W + n mod W"
    unfolding word_less_nat_alt un by (rule add_mod_carry(1) [OF W])
  have d: "drop_bit 29 len = word_of_nat (n div W)"
  proof -
    have "n div W = unat len div 2 ^ 29" by (simp add: n_def W_def)
    moreover have "unat len div 2 ^ 29 < W"
      using unsigned_less [of len, where 'a = nat] by (auto simp: W_def intro: le_less_trans [OF div_le_dividend])
    ultimately show ?thesis by (simp only: word_unat_eq_iff un unat_drop_bit_eq) (simp add: drop_bit_eq_div)
  qed
  have bl: "bit_length msg = [word_of_nat L, word_of_nat (L div W)]"
    by (simp add: bit_length_def L_def W_def)
  have c0: "word_of_nat L + word_of_nat n = (word_of_nat (L + n) :: u32)" by simp
  have "add_count len (bit_length msg) = [word_of_nat (L + n),
      (if (word_of_nat (L + n) :: u32) < word_of_nat n then word_of_nat (L div W) + 1 else word_of_nat (L div W))
        + word_of_nat (n div W)]"
    by (simp only: add_count_def Let_def pb d bl nth_Cons_0 nth_Cons_Suc One_nat_def c0)
  also have "\<dots> = [word_of_nat (L + n), word_of_nat ((L + n) div W)]"
    unfolding less add_mod_carry(2) [OF W] by simp
  also have "\<dots> = bit_length (msg @ xs)" by (simp add: bit_length_def assms L_def n_def W_def)
  finally show ?thesis .
qed

lemma unat_count_index:
  assumes "md_count m = bit_length msg"
  shows "unat (count_index m) = length msg mod 64"
proof -
  have "0x3f = (mask 6 :: u32)" by (simp add: mask_eq_exp_minus_1)
  then have "unat (count_index m) = unat (drop_bit 3 (word_of_nat (8 * length msg) :: u32)) mod 64"
    unfolding count_index_def assms bit_length_def by (simp only: unat_and_mask nth_Cons_0) simp
  also have "\<dots> = (8 * length msg) mod 2 ^ 32 div 8 mod 64"
    by (simp only: unat_drop_bit_eq) (simp add: drop_bit_eq_div unat_of_nat del: of_nat_mult)
  also have "(8 * length msg) mod 2 ^ 32 = 8 * (length msg mod 2 ^ 29)"
    using mult_mod_right [of 8 "length msg" "2 ^ 29"] by simp
  finally show ?thesis by (simp add: mod_mod_cancel)
qed

lemma transform_blocks_spec:
  assumes "unat len \<le> length input" "unat len + 63 < 2 ^ 32" "unat i \<le> unat len"
  shows "transform_blocks input len i m =
    Some (i + word_of_nat (64 * ((unat len - unat i) div 64)),
      m\<lparr>md_state := hash_blocks (md_state m) (drop (unat i) (take (unat len) input))\<rparr>)"
  using assms
proof (induction input len i m rule: transform_blocks.induct)
  case (1 input len i m)
  have plus: "unat (i + 63) = unat i + 63" using 1(3,4) by (simp add: unat_plus_if')
  show ?case
  proof (cases "i + 63 < len")
    case True
    then have le: "unat i + 64 \<le> unat len" using plus by (simp add: word_less_nat_alt)
    have plus64: "unat (i + 64) = unat i + 64" using le 1(3) by (simp add: unat_plus_if')
    then have less: "i < i + 64" by (simp add: word_less_nat_alt)
    let ?xs = "drop (unat i) (take (unat len) input)"
    have "take 64 ?xs = take 64 (drop (unat i) input)" "length ?xs = unat len - unat i"
      "drop 64 ?xs = drop (unat (i + 64)) (take (unat len) input)"
      using le 1(2) by (simp_all add: take_drop plus64 add.commute min_def)
    moreover have "\<not> length ?xs < 64" using le 1(2) by simp
    ultimately have "hash_blocks (md_state m) ?xs =
        hash_blocks (md5_compress (md_state m) (take 64 (drop (unat i) input)))
          (drop (unat (i + 64)) (take (unat len) input))"
      by (subst hash_blocks.simps) (simp only: if_False)
    moreover have "i + 64 + word_of_nat (64 * ((unat len - unat (i + 64)) div 64)) =
        i + word_of_nat (64 * ((unat len - unat i) div 64))"
    proof -
      have "unat len - unat i = 64 + (unat len - unat (i + 64))" using le plus64 by simp
      then have "(unat len - unat i) div 64 = Suc ((unat len - unat (i + 64)) div 64)" by simp
      then show ?thesis by simp
    qed
    moreover have "unat i + 64 \<le> length input" "unat (i + 64) \<le> unat len" using le 1(2) plus64 by simp_all
    ultimately show ?thesis
      using 1(1) [OF True _ 1(2,3)] True less by (subst transform_blocks.simps) (simp add: md5_transform_ref)
  next
    case False
    then have "unat len - unat i < 64" using plus by (simp add: word_less_nat_alt)
    then have "hash_blocks (md_state m) (drop (unat i) (take (unat len) input)) = md_state m"
      using 1(2) by simp
    with \<open>unat len - unat i < 64\<close> show ?thesis using False by (subst transform_blocks.simps) simp
  qed
qed


section \<open>Streaming\<close>

lemma hash_blocks_fill:
  assumes "length ys = 64 - length xs mod 64"
  shows "hash_blocks s (xs @ ys) = md5_compress (hash_blocks s xs) (drop (64 * (length xs div 64)) xs @ ys)"
proof -
  let ?q = "64 * (length xs div 64)"
  have "length (drop ?q xs) = length xs mod 64" by (simp add: minus_mult_div_eq_mod)
  then have "length (drop ?q xs @ ys) = 64" using assms by simp
  moreover have "hash_blocks s (take ?q xs @ drop ?q xs @ ys) = hash_blocks (hash_blocks s (take ?q xs)) (drop ?q xs @ ys)"
    by (rule hash_blocks_append) simp
  moreover have "take ?q xs @ drop ?q xs @ ys = xs @ ys" by (simp only: append_assoc [symmetric] append_take_drop_id)
  ultimately show ?thesis using hash_blocks_whole [of s xs] by (simp only: hash_blocks_one)
qed

lemma add_div_mod_64:
  fixes a b :: nat
  assumes "a mod 64 + b < 64"
  shows "(a + b) div 64 = a div 64" "(a + b) mod 64 = a mod 64 + b"
  using assms div_add1_eq [of a b 64] mod_add_eq [of a 64 b] by simp_all

lemma hash_blocks_tail:
  assumes "length xs mod 64 + length ys < 64"
  shows "hash_blocks s (xs @ ys) = hash_blocks s xs"
  using hash_blocks_whole [of s "xs @ ys"] hash_blocks_whole [of s xs] add_div_mod_64 [OF assms] by simp

lemma md5_repr_buffer:
  assumes "md5_repr m msg"
  shows "length (md_buffer m) = 64" "take (length msg mod 64) (md_buffer m) = drop (64 * (length msg div 64)) msg"
    "md_state m = hash_blocks md5_init msg" "unat (count_index m) = length msg mod 64"
    "unat len \<le> length input \<Longrightarrow> add_count len (md_count m) = bit_length (msg @ take (unat len) input)"
  using assms add_count_bit_length [of "take (unat len) input" len msg] unat_count_index [of m msg]
  by (auto simp: md5_repr_def min_def)

lemma md5_update_part:
  assumes repr: "md5_repr m msg" and n: "unat len \<le> length input" and small: "length msg mod 64 + unat len < 64"
  shows "\<exists>m'. md5_update input len m = Some m' \<and> md5_repr m' (msg @ take (unat len) input) \<and> \<not> finished m' \<and>
    md_digest m' = md_digest m"
proof -
  let ?L = "length msg" and ?n = "unat len"
  note R = md5_repr_buffer [OF repr]
  have idx: "unat (64 - count_index m) = 64 - ?L mod 64"
    using R(4) by (subst unat_sub) (simp_all add: word_le_nat_alt)
  have guard: "\<not> 64 - count_index m \<le> len" using small by (simp add: word_le_nat_alt idx)
  let ?buf = "take (?L mod 64) (md_buffer m) @ take ?n input @ drop (?L mod 64 + ?n) (md_buffer m)"
  have cp: "memcpy (md_buffer m) (?L mod 64) input ?n = Some ?buf"
    using small n R(1) by (simp add: memcpy_def)
  have len: "length (take ?n input) = ?n" using n by simp
  have "take (?L mod 64 + ?n) ?buf = drop (64 * (?L div 64)) (msg @ take ?n input)"
    using small n R(1,2) len by (simp add: minus_mult_div_eq_mod)
  then show ?thesis
    using guard cp R hash_blocks_tail [of msg "take ?n input" md5_init] small n add_div_mod_64 [OF small]
    by (simp add: md5_update_def Let_def md5_repr_def count_index_def)
qed

lemma fill_to_block: "n + (64 - n mod 64) = 64 * (n div 64 + 1)" for n :: nat
proof -
  define q r where "q = n div 64" and "r = n mod 64"
  then have "n = 64 * q + r" "r < 64" by simp_all
  then show ?thesis unfolding q_def [symmetric] r_def [symmetric] by simp
qed

lemma md5_update_fill:
  assumes repr: "md5_repr m msg" and n: "unat len \<le> length input" and big: "64 \<le> length msg mod 64 + unat len"
    and max: "unat len + 63 < 2 ^ 32"
  shows "\<exists>m'. md5_update input len m = Some m' \<and> md5_repr m' (msg @ take (unat len) input) \<and> \<not> finished m' \<and>
    md_digest m' = md_digest m \<and>
    (length msg mod 64 + unat len = 64 \<longrightarrow>
      md_buffer m' = take (length msg mod 64) (md_buffer m) @ take (unat len) input)"
proof -
  let ?L = "length msg" and ?n = "unat len"
  define p where "p = 64 - ?L mod 64"
  define k where "k = 64 * ((?n - p) div 64)"
  note R = md5_repr_buffer [OF repr]
  have idx: "unat (64 - count_index m) = p"
    using R(4) by (subst unat_sub) (simp_all add: word_le_nat_alt p_def)
  have Lp: "?L + p = 64 * (?L div 64 + 1)" unfolding p_def by (rule fill_to_block)
  have p: "p \<le> ?n" "0 < p" "p \<le> 64" using big by (simp_all add: p_def)
  have guard: "64 - count_index m \<le> len" using p by (simp add: word_le_nat_alt idx)
  let ?buf = "take (?L mod 64) (md_buffer m) @ take p input"
  have cp: "memcpy (md_buffer m) (?L mod 64) input p = Some ?buf"
    using p n R(1) by (simp add: memcpy_def p_def)
  have lbuf: "length ?buf = 64" using p n R(1) by (simp add: p_def)
  have st: "hash_blocks (md5_compress (md_state m) ?buf) (drop p (take ?n input)) = hash_blocks md5_init (msg @ take ?n input)"
  proof -
    have lp: "length (take p input) = 64 - ?L mod 64" using p n by (simp add: p_def)
    have "64 dvd length (msg @ take p input)"
      using p n Lp by simp
    then have "hash_blocks (hash_blocks md5_init (msg @ take p input)) (drop p (take ?n input))
        = hash_blocks md5_init ((msg @ take p input) @ drop p (take ?n input))"
      by (rule hash_blocks_append [symmetric])
    moreover have "take p input @ drop p (take ?n input) = take ?n input"
      using append_take_drop_id [of p "take ?n input"] p by (simp add: min_def)
    ultimately show ?thesis using hash_blocks_fill [OF lp, of md5_init] R(2,3) by simp
  qed
  define m1 where "m1 = m\<lparr>finished := False, md_count := bit_length (msg @ take ?n input), md_buffer := ?buf,
    md_state := md5_compress (md_state m) ?buf\<rparr>"
  have k: "p + k \<le> ?n" "?n - (p + k) = (?n - p) mod 64"
    using p(1) by (simp add: k_def) (simp add: k_def diff_diff_left [symmetric] minus_mult_div_eq_mod del: diff_diff_left)
  let ?i = "64 - count_index m + word_of_nat k"
  have i: "unat ?i = p + k" using k max by (simp add: unat_plus_if' unat_of_nat idx)
  have loop: "transform_blocks input len (64 - count_index m) m1 =
      Some (?i, m1\<lparr>md_state := hash_blocks md5_init (msg @ take ?n input)\<rparr>)"
    using transform_blocks_spec [of len input "64 - count_index m" m1] n max p st
    by (simp add: idx k_def m1_def)
  let ?rest = "take (?n - (p + k)) (drop (p + k) input)"
  have rest: "memcpy ?buf 0 (drop (p + k) input) (unat (len - ?i)) = Some (?rest @ drop (?n - (p + k)) ?buf)"
  proof -
    have "unat (len - ?i) = ?n - (p + k)" using k(1) i by (subst unat_sub) (simp_all add: word_le_nat_alt)
    moreover have "?n - (p + k) < 64" by (simp add: k(2))
    ultimately show ?thesis using lbuf n by (simp add: memcpy_def)
  qed
  have total: "(?L + ?n) mod 64 = ?n - (p + k)" "64 * ((?L + ?n) div 64) = ?L + (p + k)"
  proof -
    have e: "?L + ?n = (?n - p) + 64 * (?L div 64 + 1)" using Lp p(1) by linarith
    then have "(?L + ?n) mod 64 = (?n - p) mod 64" by (metis mod_mult_self2)
    then show m: "(?L + ?n) mod 64 = ?n - (p + k)" using k(2) by simp
    show "64 * ((?L + ?n) div 64) = ?L + (p + k)"
      using mult_div_mod_eq [of 64 "?L + ?n"] m k(1) by linarith
  qed
  have drop: "drop (?L + (p + k)) (msg @ take ?n input) = ?rest" using k(1) by (simp add: drop_take)
  have lrest: "length ?rest = ?n - (p + k)" using n by simp
  let ?m = "m1\<lparr>md_state := hash_blocks md5_init (msg @ take ?n input), md_buffer := ?rest @ drop (?n - (p + k)) ?buf\<rparr>"
  have upd: "md5_update input len m = Some ?m"
  proof -
    have m1: "md5_transform ?buf (m\<lparr>finished := False, md_count := add_count len (md_count m), md_buffer := ?buf\<rparr>) = m1"
      using R(5) [of len input] n by (simp add: md5_transform_ref m1_def)
    show ?thesis
      unfolding md5_update_def Let_def if_P [OF guard] using cp R(4) loop rest i m1 by (simp add: idx m1_def)
  qed
  moreover have "md5_repr ?m (msg @ take ?n input)"
  proof -
    have lmsg: "length (msg @ take ?n input) = ?L + ?n" using n by simp
    have "?n - (p + k) < 64" by (simp add: k(2))
    then have "length (?rest @ drop (?n - (p + k)) ?buf) = 64"
      unfolding length_append [of ?rest] lrest length_drop lbuf by simp
    moreover have "take (?n - (p + k)) (?rest @ drop (?n - (p + k)) ?buf) = ?rest" using lrest by simp
    moreover have "md_state ?m = hash_blocks md5_init (msg @ take ?n input)" "md_count ?m = bit_length (msg @ take ?n input)"
      "md_buffer ?m = ?rest @ drop (?n - (p + k)) ?buf" by (simp_all add: m1_def)
    ultimately show ?thesis unfolding md5_repr_def lmsg total drop by (simp only: simp_thms)
  qed
  moreover have "?rest @ drop (?n - (p + k)) ?buf = take (?L mod 64) (md_buffer m) @ take ?n input"
    if "?L mod 64 + ?n = 64"
  proof -
    have "?n = p" "k = 0" using that by (simp_all add: p_def k_def)
    then show ?thesis by simp
  qed
  ultimately show ?thesis by (simp add: m1_def)
qed

lemma md5_update_spec:
  assumes "md5_repr m msg" "unat len \<le> length input" "unat len + 63 < 2 ^ 32"
  shows "\<exists>m'. md5_update input len m = Some m' \<and> md5_repr m' (msg @ take (unat len) input) \<and> \<not> finished m' \<and>
    md_digest m' = md_digest m"
proof (cases "length msg mod 64 + unat len < 64")
  case True
  then show ?thesis by (rule md5_update_part [OF assms(1,2)])
next
  case False
  then have "64 \<le> length msg mod 64 + unat len" by simp
  from md5_update_fill [OF assms(1,2) this assms(3)] show ?thesis by blast
qed

section \<open>Padding and finalisation\<close>

definition padding_of :: "u8 list \<Rightarrow> u8 list" where
  "padding_of msg = take (if length msg mod 64 < 56 then 56 - length msg mod 64 else 120 - length msg mod 64) PADDING"

lemma padding_of_length:
  "length (padding_of msg) = (if length msg mod 64 < 56 then 56 - length msg mod 64 else 120 - length msg mod 64)"
  by (simp add: padding_of_def PADDING_def)

lemma padding_cases:
  fixes msg :: "u8 list"
  obtains q r where "length msg = 64 * q + r" "length msg div 64 = q" "length msg mod 64 = r" "r < 64"
  by (rule that [of "length msg div 64" "length msg mod 64"]) simp_all

lemma padded_length: "(length msg + length (padding_of msg)) mod 64 = 56"
proof (rule padding_cases [of msg])
  fix q r
  assume *: "length msg = 64 * q + r" "length msg div 64 = q" "length msg mod 64 = r" "r < 64"
  show ?thesis
  proof (cases "r < 56")
    case True
    then have "length msg + length (padding_of msg) = 56 + 64 * q"
      unfolding padding_of_length *(3) using * by simp
    then show ?thesis by simp
  next
    case False
    then have "length msg + length (padding_of msg) = 56 + 64 * (q + 1)"
      unfolding padding_of_length *(3) using * by simp
    then show ?thesis by simp
  qed
qed

lemma padding_of_eq: "padding_of msg =
  0x80 # replicate (if length msg mod 64 < 56 then 55 - length msg mod 64 else 119 - length msg mod 64) 0"
proof (rule padding_cases [of msg])
  fix q r
  assume *: "length msg = 64 * q + r" "length msg div 64 = q" "length msg mod 64 = r" "r < 64"
  define k where "k = (if r < 56 then 55 - r else 119 - r)"
  have "(if r < 56 then 56 - r else 120 - r) = Suc k" 
    using *(4) Suc_diff_le [of r 55] Suc_diff_le [of r 119] unfolding k_def by auto
  then have "padding_of msg = take (Suc k) PADDING" unfolding padding_of_def *(3) by (simp only:)
  moreover have "k \<le> 63" using *(4) unfolding k_def by arith
  then have "take (Suc k) PADDING = 0x80 # replicate k 0" by (simp add: PADDING_def min_def)
  ultimately show ?thesis unfolding *(3) k_def by simp
qed

lemma md5_pad_eq: "md5_pad msg = (msg @ padding_of msg) @ encode (bit_length msg)"
proof -
  define r where "r = length msg mod 64"
  have "r < 64" by (simp add: r_def)
  then have "(119 - r) mod 64 = (if r < 56 then 55 - r else 119 - r)" by (simp add: mod_if)
  then show ?thesis unfolding md5_pad_def padding_of_eq r_def by simp
qed

definition final_buffer :: "u8 list \<Rightarrow> u8 list" where
  "final_buffer msg =
    (if length msg mod 64 < 56 then drop (64 * (length msg div 64)) msg @ padding_of msg else replicate 56 0)
      @ encode (bit_length msg)"

lemma final_buffer_eq:
  assumes "md5_repr m (msg @ padding_of msg)"
  shows "take 56 (md_buffer m) @ encode (bit_length msg) = final_buffer msg"
proof (rule padding_cases [of msg])
  fix q r
  assume *: "length msg = 64 * q + r" "length msg div 64 = q" "length msg mod 64 = r" "r < 64"
  have mod: "length (msg @ padding_of msg) mod 64 = 56" using padded_length [of msg] by simp
  have buf: "take 56 (md_buffer m) =
      drop (64 * ((length msg + length (padding_of msg)) div 64)) (msg @ padding_of msg)"
    using md5_repr_buffer(2) [OF assms] unfolding mod by simp
  show ?thesis
  proof (cases "r < 56")
    case True
    then have "length msg + length (padding_of msg) = 64 * q + 56"
      unfolding padding_of_length *(3) using * by simp
    then have "(length msg + length (padding_of msg)) div 64 = q" by simp
    then show ?thesis using True * unfolding final_buffer_def buf *(2,3) by simp
  next
    case False
    then have "length msg + length (padding_of msg) = 64 * (q + 1) + 56"
      unfolding padding_of_length *(3) using * by simp
    then have "(length msg + length (padding_of msg)) div 64 = q + 1" by simp
    moreover have "drop (64 * (q + 1)) (msg @ padding_of msg) = replicate 56 0"
      using * False by (simp add: padding_of_eq drop_Cons')
    ultimately show ?thesis using False unfolding final_buffer_def buf *(2,3) by simp
  qed
qed

lemma md5_final_spec:
  assumes repr: "md5_repr m msg"
  shows "\<exists>m'. md5_final m = Some m' \<and> md_digest m' = md5_rfc msg \<and> \<not> finished m' \<and>
    md_state m' = md_state m \<and> md_count m' = md_count m \<and> md_buffer m' = final_buffer msg"
proof -
  let ?msg1 = "msg @ padding_of msg"
  define padLen where "padLen = (if count_index m < 56 then 56 - count_index m else 120 - count_index m)"
  note R = md5_repr_buffer [OF repr]
  have n: "unat padLen = length (padding_of msg)"
    using R(4) mod_less_divisor [of 64 "length msg", simplified]
    by (auto simp: padLen_def padding_of_length word_less_nat_alt unat_sub word_le_nat_alt)
  have take: "take (unat padLen) PADDING = padding_of msg"
    unfolding n padding_of_length by (simp add: padding_of_def)
  have "length (padding_of msg) \<le> 64"
    using mod_less_divisor [of 64 "length msg"] unfolding padding_of_length by auto
  then have "unat padLen \<le> length PADDING" "unat padLen + 63 < 2 ^ 32"
    unfolding n by (simp_all add: PADDING_def)
  from md5_update_spec [OF repr this] obtain m1 where m1: "md5_update PADDING padLen m = Some m1"
    "md5_repr m1 ?msg1" using take by auto
  have bits: "length (encode (bit_length msg)) = 8" by (simp add: bit_length_def)
  have "64 \<le> length ?msg1 mod 64 + unat (8 :: u32)" "length ?msg1 mod 64 + unat (8 :: u32) = 64"
    using padded_length [of msg] by simp_all
  with md5_update_fill [OF m1(2), of 8 "encode (bit_length msg)"] bits
  obtain m2 where m2: "md5_update (encode (bit_length msg)) 8 m1 = Some m2"
    "md5_repr m2 (?msg1 @ encode (bit_length msg))" "\<not> finished m2"
    "md_buffer m2 = take 56 (md_buffer m1) @ encode (bit_length msg)"
    using padded_length [of msg] by auto
  have "take 56 (md_buffer m1) @ encode (bit_length msg) = final_buffer msg"
    by (rule final_buffer_eq [OF m1(2)])
  moreover have "md_count m = bit_length msg" using repr by (simp add: md5_repr_def)
  ultimately show ?thesis
    using m1(1) m2 unfolding md5_final_def Let_def padLen_def [symmetric]
    by (simp add: md5_repr_def md5_rfc_def md5_pad_eq)
qed

section \<open>Correctness of the digest\<close>

lemma md5_reset_repr: "length (md_buffer raw) = 64 \<Longrightarrow> md5_repr (md5_reset raw) []"
  by (simp add: md5_repr_def md5_reset_def md5_init_def bit_length_def)

lemma digest_spec:
  assumes "md5_repr m msg" "\<not> finished m"
  shows "\<exists>m'. digest m = Some (md5_rfc msg, m') \<and> \<not> finished m' \<and>
    md_state m' = md_state m \<and> md_count m' = md_count m \<and> md_buffer m' = final_buffer msg"
proof -
  have "md5_repr (m\<lparr>finished := True\<rparr>) msg" using assms(1) by (simp add: md5_repr_def)
  from md5_final_spec [OF this] show ?thesis using assms(2) by (auto simp: digest_def)
qed

text \<open>Reference message that the object stands for after a digest of \<open>msg\<close>.\<close>

definition after_digest :: "u8 list \<Rightarrow> u8 list" where
  "after_digest msg =
    (if length msg mod 64 < 56 then msg
     else take (64 * (length msg div 64)) msg
       @ take (length msg mod 64) (replicate 56 0 @ encode (bit_length msg)))"

lemma after_digest_length [simp]: "length (after_digest msg) = length msg"
proof (rule padding_cases [of msg])
  fix q r
  assume *: "length msg = 64 * q + r" "length msg div 64 = q" "length msg mod 64 = r" "r < 64"
  have "length (take (64 * q) msg) = 64 * q" "length (replicate 56 0 @ encode (bit_length msg)) = 64"
    using *(1) by (simp_all add: bit_length_def)
  then have "length (take (64 * q) msg @ take r (replicate 56 0 @ encode (bit_length msg))) = 64 * q + r"
    using *(4) by (simp only: length_append length_take)
  then show ?thesis unfolding after_digest_def *(2,3) using *(1) by simp
qed

lemma digest_repr:
  assumes repr: "md5_repr m msg" and m': "md_state m' = md_state m" "md_count m' = md_count m" "md_buffer m' = final_buffer msg"
  shows "md5_repr m' (after_digest msg)"
proof -
  have len: "length (final_buffer msg) = 64"
    using mod_less_divisor [of 64 "length msg"]
    by (auto simp: final_buffer_def padding_of_length bit_length_def minus_mult_div_eq_mod)
  have state: "hash_blocks md5_init (after_digest msg) = hash_blocks md5_init msg"
    using hash_blocks_whole [of md5_init msg] hash_blocks_whole [of md5_init "after_digest msg"]
    by (simp add: after_digest_def)
  have "take (length msg mod 64) (final_buffer msg) = drop (64 * (length msg div 64)) (after_digest msg)"
    by (simp add: after_digest_def final_buffer_def minus_mult_div_eq_mod)
  moreover have "bit_length (after_digest msg) = bit_length msg" by (simp add: bit_length_def)
  ultimately show ?thesis using repr m' len state by (simp add: md5_repr_def)
qed

primrec update_all :: "u8 list list \<Rightarrow> md5 \<Rightarrow> md5 option" where
  "update_all [] m = Some m"
| "update_all (c # cs) m = Option.bind (md5_update c (of_nat (length c)) m) (update_all cs)"

lemma unat_length: "length c + 63 < 2 ^ 32 \<Longrightarrow> unat (word_of_nat (length c) :: size_t) = length c"
  by (simp add: unat_of_nat)

lemma update_all_spec:
  assumes "md5_repr m msg" "\<not> finished m" "\<And>c. c \<in> set cs \<Longrightarrow> length c + 63 < 2 ^ 32"
  shows "\<exists>m'. update_all cs m = Some m' \<and> md5_repr m' (msg @ concat cs) \<and> \<not> finished m'"
  using assms
proof (induction cs arbitrary: m msg)
  case (Cons c cs)
  have c: "length c + 63 < 2 ^ 32" using Cons.prems(3) by simp
  then obtain m1 where "md5_update c (of_nat (length c)) m = Some m1" "md5_repr m1 (msg @ c)" "\<not> finished m1"
    using md5_update_spec [OF Cons.prems(1), of "of_nat (length c)" c] by (auto simp: unat_length)
  then show ?case using Cons.IH [of m1 "msg @ c"] Cons.prems(3) by auto
qed simp

lemma MD5_string_spec:
  assumes "length (md_buffer raw) = 64" "length str + 63 < 2 ^ 32"
  shows "\<exists>m. MD5_string raw str = Some m \<and> md5_repr m str \<and> \<not> finished m"
  using md5_update_spec [OF md5_reset_repr [OF assms(1)], of "of_nat (length str)" "str @ [0]"] assms(2)
  by (auto simp: MD5_string_def md5_update_string_def unat_length)

lemma read_loop_spec:
  assumes "md5_repr m msg" "\<not> finished m" "\<not> eofbit s" "\<not> failbit s"
  shows "\<exists>s' m'. read_loop s m = Some (s', m') \<and> md5_repr m' (msg @ remaining s) \<and> \<not> finished m'"
  using assms
proof (induction "length (remaining s)" arbitrary: m msg s rule: less_induct)
  case less
  obtain c s1 where r: "ifstream_read BUFFER_SIZE s = (c, s1)" by fastforce
  have c: "length c \<le> 1024" "c = take 1024 (remaining s)"
    using r less.prems by (auto simp: ifstream_read_def BUFFER_SIZE_def split: if_splits)
  show ?case
  proof (cases "length (remaining s) < 1024")
    case True
    then have s1: "eofbit s1" "c = remaining s" using r less.prems by (auto simp: ifstream_read_def BUFFER_SIZE_def)
    have fin: "read_loop s1 m' = Some (s1, m')" for m' using s1(1) by (simp add: read_loop.simps)
    have "unat (word_of_nat (length c) :: size_t) = length c" using c(1) by (intro unat_length) simp
    then obtain m1 where "md5_update c (of_nat (length c)) m = Some m1" "md5_repr m1 (msg @ c)" "\<not> finished m1"
      using md5_update_spec [OF less.prems(1), of "of_nat (length c)" c] c(1) by auto
    then show ?thesis using r fin s1 less.prems by (cases "c = []") (auto simp: read_loop.simps [of s])
  next
    case False
    then have s1: "\<not> eofbit s1" "\<not> failbit s1" "remaining s1 = drop 1024 (remaining s)" "length c = 1024"
      using r less.prems by (auto simp: ifstream_read_def BUFFER_SIZE_def)
    obtain m1 where m1: "md5_update c (of_nat (length c)) m = Some m1" "md5_repr m1 (msg @ c)" "\<not> finished m1"
      using md5_update_spec [OF less.prems(1), of "of_nat (length c)" c] s1(4) by auto
    have "msg @ remaining s = (msg @ c) @ remaining s1" using s1(3) c(2) by simp
    moreover have "length (remaining s1) < length (remaining s)" using False s1(3) by simp
    moreover have "c \<noteq> []" using s1(4) by auto
    ultimately show ?thesis
      using less.hyps [OF _ m1(2,3) s1(1,2)] r m1(1) less.prems(3) by (simp add: read_loop.simps [of s])
  qed
qed

lemma toString_spec:
  assumes "md5_repr m msg" "\<not> finished m"
  shows "\<exists>m'. md5_toString m = Some (bytesToHexString (md5_rfc msg), m')"
  using digest_spec [OF assms] by (auto simp: md5_toString_def)

lemma length_hex: "length (bytesToHexString bs) = 2 * length bs"
  by (induction bs) auto

lemma set_hex: "set (bytesToHexString bs) \<subseteq> set HEX"
proof (induction bs)
  case (Cons t ts)
  have "length HEX = 16" by (simp add: HEX_def)
  moreover have "unat t div 16 < 16" using unsigned_less [of t, where 'a = nat]
    by (simp add: div_less_iff_less_mult)
  ultimately have "HEX ! (unat t div 16) \<in> set HEX" "HEX ! (unat t mod 16) \<in> set HEX" by simp_all
  then show ?case using Cons by simp
qed simp

lemma length_hash_blocks: "length s = 4 \<Longrightarrow> length (hash_blocks s xs) = 4"
proof (induction s xs rule: hash_blocks.induct)
  case (1 s xs)
  have "length (md5_compress s (take 64 xs)) = 4" by (simp add: md5_compress_def split: prod.split)
  then show ?case using 1 by (subst hash_blocks.simps) simp
qed

text \<open>C35. The digest is RFC 1321's, however the message is cut into updates: after a reset, any
  sequence of \<open>update\<close> calls whose buffers are at least 64 bytes smaller than the address space
  succeeds without leaving an array, and \<open>digest\<close> then returns the table-driven reference digest
  of the concatenation, the length counted modulo \<open>2 ^ 64\<close> bits.\<close>

theorem md5_digest_correct:
  assumes "length (md_buffer raw) = 64" "\<forall>c\<in>set chunks. length c + 63 < 2 ^ 32"
  shows "\<exists>m m'. update_all chunks (md5_reset raw) = Some m \<and> digest m = Some (md5_rfc (concat chunks), m')"
proof -
  have "\<not> finished (md5_reset raw)" by (simp add: md5_reset_def)
  with update_all_spec [OF md5_reset_repr [OF assms(1)] _ assms(2) [rule_format]]
  obtain m where "update_all chunks (md5_reset raw) = Some m" "md5_repr m (concat chunks)" "\<not> finished m" by auto
  then show ?thesis using digest_spec by fastforce
qed

theorem md5_digest_correct_witness:
  "\<exists>m m'. update_all [[97], [98, 99]] (md5_reset \<lparr>md_state = [], md_count = [], md_buffer = replicate 64 0xaa,
      md_digest = replicate 16 0xaa, finished = True\<rparr>) = Some m \<and>
    digest m = Some (md5_rfc [97, 98, 99], m')"
  using md5_digest_correct [of "\<lparr>md_state = [], md_count = [], md_buffer = replicate 64 0xaa,
      md_digest = replicate 16 0xaa, finished = True\<rparr>" "[[97], [98, 99]]"] by auto

text \<open>Both constructors with an argument hash it completely: the object built from a string
  hashes exactly its bytes, and the one built from a good file stream reads it to the end in
  pieces of \<open>BUFFER_SIZE\<close>, in finitely many reads, and closes it; \<open>toString\<close> then returns the
  reference digest of the data as 32 lower-case hexadecimal digits.\<close>

theorem md5_toString_correct:
  assumes "length (md_buffer raw) = 64" "length str + 63 < 2 ^ 32" "\<not> eofbit file" "\<not> failbit file"
  shows "(\<exists>m m'. MD5_string raw str = Some m \<and> md5_toString m = Some (bytesToHexString (md5_rfc str), m')) \<and>
    (\<exists>s m m'. MD5_stream raw file = Some (s, m) \<and> \<not> is_open s \<and>
      md5_toString m = Some (bytesToHexString (md5_rfc (remaining file)), m')) \<and>
    length (bytesToHexString (md5_rfc str)) = 32 \<and> set (bytesToHexString (md5_rfc str)) \<subseteq> set HEX"
proof (intro conjI)
  obtain m where m: "MD5_string raw str = Some m" "md5_repr m str" "\<not> finished m"
    using MD5_string_spec [OF assms(1,2)] by auto
  then show "\<exists>m m'. MD5_string raw str = Some m \<and> md5_toString m = Some (bytesToHexString (md5_rfc str), m')"
    using toString_spec [OF m(2,3)] by auto
  have "\<not> finished (md5_reset raw)" by (simp add: md5_reset_def)
  then obtain s m where s: "read_loop file (md5_reset raw) = Some (s, m)" "md5_repr m (remaining file)" "\<not> finished m"
    using read_loop_spec [OF md5_reset_repr [OF assms(1)] _ assms(3,4)] by auto
  then show "\<exists>s m m'. MD5_stream raw file = Some (s, m) \<and> \<not> is_open s \<and>
      md5_toString m = Some (bytesToHexString (md5_rfc (remaining file)), m')"
    using toString_spec [OF s(2,3)] assms(4) by (auto simp: MD5_stream_def md5_update_stream_def)
  show "length (bytesToHexString (md5_rfc str)) = 32"
    by (simp add: length_hex md5_rfc_def length_hash_blocks md5_init_def)
  show "set (bytesToHexString (md5_rfc str)) \<subseteq> set HEX" by (rule set_hex)
qed

theorem md5_toString_correct_witness:
  "\<exists>m m'. MD5_string \<lparr>md_state = [], md_count = [], md_buffer = replicate 64 0xaa,
      md_digest = replicate 16 0xaa, finished = True\<rparr> [97, 98, 99] = Some m \<and>
    md5_toString m = Some (bytesToHexString (md5_rfc [97, 98, 99]), m')"
  using md5_toString_correct [of "\<lparr>md_state = [], md_count = [], md_buffer = replicate 64 0xaa,
      md_digest = replicate 16 0xaa, finished = True\<rparr>" "[97, 98, 99]"
      "\<lparr>remaining = [97], eofbit = False, failbit = False, is_open = True\<rparr>"] by simp

text \<open>A second digest: \<open>digest\<close> means to keep the object as it was so that it can be asked again
  or updated further, but it runs the padding through \<open>_buffer\<close> (and \<open>update\<close> clears the
  \<open>_finished\<close> it has just set), and only \<open>_state\<close> and \<open>_count\<close> are restored. When fewer than 56 bytes
  are pending the second digest equals the first. From 56 pending bytes on, their place in the
  buffer has been overwritten with padding, and the second digest is that of a different message.\<close>

theorem md5_second_digest:
  assumes "length (md_buffer raw) = 64" "length str + 63 < 2 ^ 32"
  shows "\<exists>m m1 m2. MD5_string raw str = Some m \<and> digest m = Some (md5_rfc str, m1) \<and>
    digest m1 = Some (md5_rfc (if length str mod 64 < 56 then str
      else take (64 * (length str div 64)) str
        @ take (length str mod 64) (replicate 56 0 @ encode (bit_length str))), m2)"
proof -
  obtain m where m: "MD5_string raw str = Some m" "md5_repr m str" "\<not> finished m"
    using MD5_string_spec [OF assms] by auto
  obtain m1 where m1: "digest m = Some (md5_rfc str, m1)" "\<not> finished m1" "md5_repr m1 (after_digest str)"
    using digest_spec [OF m(2,3)] digest_repr [OF m(2)] by auto
  obtain m2 where "digest m1 = Some (md5_rfc (after_digest str), m2)"
    using digest_spec [OF m1(3,2)] by auto
  then show ?thesis using m(1) m1(1) unfolding after_digest_def by blast
qed

theorem md5_second_digest_witness:
  "\<exists>m m1 m2. MD5_string \<lparr>md_state = [], md_count = [], md_buffer = replicate 64 0xaa,
      md_digest = replicate 16 0xaa, finished = True\<rparr> (replicate 56 97) = Some m \<and>
    digest m = Some (md5_rfc (replicate 56 97), m1) \<and> digest m1 = Some (md5_rfc (replicate 56 0), m2)"
  using md5_second_digest [of "\<lparr>md_state = [], md_count = [], md_buffer = replicate 64 0xaa,
      md_digest = replicate 16 0xaa, finished = True\<rparr>" "replicate 56 97"] by simp
end
