(* ===== verification/MapMd5.thy ===== *)
theory MapMd5
  imports Md5 "HOL-Library.List_Lexorder" "HOL-Library.AList"
begin

text \<open>
  Signing of request parameters (\<open>app/src/main/cpp/map_md5.cpp\<close>): the entries of a Java map with
  the key of the service added are sorted by key, joined to a query string, and hashed. The Java
  map is the list of its entries in the order its iterator delivers them, with \<open>null\<close> as \<open>None\<close> and
  strings as their UTF-8 bytes; \<open>Map.put\<close> is a parameter. Strings are ordered as
  \<open>std::string\<close> orders them, lexicographically by unsigned bytes.
\<close>

type_synonym jstring = "u8 list"
type_synonym java_map = "(jstring option \<times> jstring option) list"

definition ascii :: "string \<Rightarrow> u8 list" where
  "ascii s = map (\<lambda>c. word_of_nat (of_char c)) s"

definition used_key :: "u8 list" where
  "used_key = ascii ''b8ac2daa-f7be-46d7-bec6-1e8ed0632292''"

record KeyValue =
  kv_key :: jstring
  kv_value :: jstring

definition kv_less :: "KeyValue \<Rightarrow> KeyValue \<Rightarrow> bool" where
  "kv_less a b \<longleftrightarrow> kv_key a < kv_key b"

fun jniGetHashMapInfo :: "java_map \<Rightarrow> KeyValue list" where
  "jniGetHashMapInfo [] = []"
| "jniGetHashMapInfo ((None, v) # es) = jniGetHashMapInfo es"
| "jniGetHashMapInfo ((Some k, None) # es) = jniGetHashMapInfo es"
| "jniGetHashMapInfo ((Some k, Some v) # es) = \<lparr>kv_key = k, kv_value = v\<rparr> # jniGetHashMapInfo es"

text \<open>\<open>std::list::sort\<close> is stable and uses \<open>operator<\<close> only: insertion before the first element
  that is not less.\<close>

fun kv_insert :: "KeyValue \<Rightarrow> KeyValue list \<Rightarrow> KeyValue list" where
  "kv_insert a [] = [a]"
| "kv_insert a (b # bs) = (if kv_less b a then b # kv_insert a bs else a # b # bs)"

definition kv_sort :: "KeyValue list \<Rightarrow> KeyValue list" where
  "kv_sort xs = foldr kv_insert xs []"

fun append_params :: "int \<Rightarrow> u8 list \<Rightarrow> KeyValue list \<Rightarrow> u8 list" where
  "append_params first urlStr [] = urlStr"
| "append_params first urlStr (kv # kvs) =
    (let urlStr = (if first \<noteq> 0 then urlStr @ ascii ''&'' else urlStr)
     in append_params (first + 1) (urlStr @ kv_key kv @ ascii ''='' @ kv_value kv) kvs)"

text \<open>\<open>raw1\<close> and \<open>raw2\<close> are the memory of the two \<open>MD5\<close> objects the function creates.\<close>

definition signMap :: "(java_map \<Rightarrow> jstring option \<Rightarrow> jstring option \<Rightarrow> java_map) \<Rightarrow> md5 \<Rightarrow> md5 \<Rightarrow> java_map \<Rightarrow> string option" where
  "signMap put raw1 raw2 map_params =
    (let map_params = put map_params (Some (ascii ''md5_key'')) (Some used_key);
         keyValueList = kv_sort (jniGetHashMapInfo map_params);
         urlStr = append_params 0 [] keyValueList
     in do {
       m1 \<leftarrow> MD5_string raw1 urlStr;
       (basicString, m1) \<leftarrow> md5_toString m1;
       m2 \<leftarrow> MD5_string raw2 urlStr;
       (s, m2) \<leftarrow> md5_toString m2;
       Some s
     })"

text \<open>What is signed, as a function of the map alone: the non-null entries in the order of their
  keys.\<close>

definition signed_keys :: "(jstring option \<rightharpoonup> jstring option) \<Rightarrow> jstring set" where
  "signed_keys f = {k. \<exists>v. f (Some k) = Some (Some v)}"

definition signed_entries :: "(jstring option \<rightharpoonup> jstring option) \<Rightarrow> KeyValue list" where
  "signed_entries f = map (\<lambda>k. \<lparr>kv_key = k, kv_value = the (the (f (Some k)))\<rparr>) (sorted_list_of_set (signed_keys f))"

primrec join_amp :: "u8 list list \<Rightarrow> u8 list" where
  "join_amp [] = []"
| "join_amp (x # xs) = (if xs = [] then x else x @ ascii ''&'' @ join_amp xs)"

definition signed_text :: "(jstring option \<rightharpoonup> jstring option) \<Rightarrow> u8 list" where
  "signed_text f = join_amp (map (\<lambda>kv. kv_key kv @ ascii ''='' @ kv_value kv) (signed_entries f))"

lemma kv_sort_insort: "kv_sort xs = sort_key kv_key xs"
proof -
  have "kv_insert a bs = insort_key kv_key a bs" for a bs
    by (induction bs) (auto simp: kv_less_def not_le)
  then have "kv_insert = insort_key kv_key" by (intro ext)
  then show ?thesis by (simp add: kv_sort_def sort_key_def)
qed

lemma info_entries:
  assumes "distinct (map fst es)"
  shows "set (jniGetHashMapInfo es) = {\<lparr>kv_key = k, kv_value = v\<rparr> | k v. map_of es (Some k) = Some (Some v)}"
    "distinct (map kv_key (jniGetHashMapInfo es))"
proof -
  have mem: "kv \<in> set (jniGetHashMapInfo es) \<longleftrightarrow> (Some (kv_key kv), Some (kv_value kv)) \<in> set es" for kv es
    by (induction es rule: jniGetHashMapInfo.induct) (auto intro: KeyValue.equality)
  show "set (jniGetHashMapInfo es) = {\<lparr>kv_key = k, kv_value = v\<rparr> | k v. map_of es (Some k) = Some (Some v)}"
    using assms by (auto simp: mem) (metis KeyValue.surjective old.unit.exhaust)
  show "distinct (map kv_key (jniGetHashMapInfo es))" using assms
    by (induction es rule: jniGetHashMapInfo.induct) (auto simp: mem image_iff, force)
qed

lemma kv_sort_signed:
  assumes "distinct (map fst es)"
  shows "kv_sort (jniGetHashMapInfo es) = signed_entries (map_of es)"
proof -
  let ?K = "signed_keys (map_of es)" and ?kvs = "sort_key kv_key (jniGetHashMapInfo es)"
  have fin: "finite ?K"
  proof -
    have "Some ` ?K \<subseteq> dom (map_of es)" by (auto simp: signed_keys_def)
    then show ?thesis using finite_dom_map_of finite_imageD finite_subset inj_Some by metis
  qed
  have "set ?kvs = set (signed_entries (map_of es))"
    using info_entries(1) [OF assms] fin by (auto simp: signed_entries_def signed_keys_def image_iff)
  moreover have keys: "map kv_key (signed_entries (map_of es)) = sorted_list_of_set ?K"
    by (simp add: signed_entries_def comp_def)
  moreover have "distinct (map kv_key ?kvs)" "sorted (map kv_key ?kvs)"
    using info_entries(2) [OF assms] by (simp_all add: distinct_map)
  ultimately show ?thesis unfolding kv_sort_insort
    by (intro map_sorted_distinct_set_unique [of kv_key]) (auto simp: distinct_map)
qed

lemma append_params_join:
  "append_params n u kvs = (if kvs = [] then u else
     (if n \<noteq> 0 then u @ ascii ''&'' else u) @ join_amp (map (\<lambda>kv. kv_key kv @ ascii ''='' @ kv_value kv) kvs))"
  if "0 \<le> n"
  using that by (induction n u kvs rule: append_params.induct) (auto simp: Let_def)

lemma signed_text_params:
  "distinct (map fst es) \<Longrightarrow> append_params 0 [] (kv_sort (jniGetHashMapInfo es)) = signed_text (map_of es)"
  by (simp add: kv_sort_signed append_params_join signed_text_def)

text \<open>C36. The signature depends on the content of the map only, not on the order in which the Java
  map iterates: it is the digest, in hexadecimal, of the entries with non-null key and value, the
  service key under \<open>md5_key\<close> included (and replacing an entry of that name), ordered by key and
  joined with \<open>=\<close> and \<open>&\<close>.\<close>

theorem signMap_correct:
  assumes "distinct (map fst es)" "length (md_buffer raw1) = 64" "length (md_buffer raw2) = 64"
    and put: "\<And>k v. distinct (map fst (put es k v)) \<and> map_of (put es k v) = (map_of es)(k \<mapsto> v)"
    and "length (signed_text ((map_of es)(Some (ascii ''md5_key'') \<mapsto> Some used_key))) + 63 < 2 ^ 32"
  shows "signMap put raw1 raw2 es =
    Some (bytesToHexString (md5_rfc (signed_text ((map_of es)(Some (ascii ''md5_key'') \<mapsto> Some used_key)))))"
proof -
  let ?text = "signed_text ((map_of es)(Some (ascii ''md5_key'') \<mapsto> Some used_key))"
  have "append_params 0 [] (kv_sort (jniGetHashMapInfo (put es (Some (ascii ''md5_key'')) (Some used_key)))) = ?text"
    using put by (simp add: signed_text_params)
  moreover have run: "\<exists>m m'. MD5_string raw ?text = Some m \<and> md5_toString m = Some (bytesToHexString (md5_rfc ?text), m')"
    if "length (md_buffer raw) = 64" for raw
    using MD5_string_spec [OF that assms(5)] toString_spec by blast
  moreover obtain m1 m1' m2 m2' where "MD5_string raw1 ?text = Some m1" "MD5_string raw2 ?text = Some m2"
    "md5_toString m1 = Some (bytesToHexString (md5_rfc ?text), m1')"
    "md5_toString m2 = Some (bytesToHexString (md5_rfc ?text), m2')"
    using run [OF assms(2)] run [OF assms(3)] by blast
  ultimately show ?thesis unfolding signMap_def Let_def by simp
qed

theorem signMap_correct_witness:
  "signMap (\<lambda>es k v. AList.update k v es)
     \<lparr>md_state = [], md_count = [], md_buffer = replicate 64 0, md_digest = replicate 16 0, finished = False\<rparr>
     \<lparr>md_state = [], md_count = [], md_buffer = replicate 64 0, md_digest = replicate 16 0, finished = False\<rparr>
     [(Some [122], Some [49]), (None, Some [50]), (Some [97], Some [51])] =
   Some (bytesToHexString (md5_rfc (ascii ''a=3&md5_key=b8ac2daa-f7be-46d7-bec6-1e8ed0632292&z=1'')))"
proof -
  let ?raw = "\<lparr>md_state = [], md_count = [], md_buffer = replicate 64 0, md_digest = replicate 16 0, finished = False\<rparr>"
  let ?es = "[(Some [122], Some [49]), (None, Some [50]), (Some [97], Some [51])] :: java_map"
  let ?es' = "AList.update (Some (ascii ''md5_key'')) (Some used_key) ?es"
  have d: "distinct (map fst (AList.update k v ?es))" for k v by (intro distinct_update) simp
  have "signed_text (map_of ?es') = append_params 0 [] (kv_sort (jniGetHashMapInfo ?es'))"
    by (rule signed_text_params [OF d, symmetric])
  also have "\<dots> = ascii ''a=3&md5_key=b8ac2daa-f7be-46d7-bec6-1e8ed0632292&z=1''" by code_simp
  finally have txt_eq: "signed_text ((map_of ?es)(Some (ascii ''md5_key'') \<mapsto> Some used_key)) =
    ascii ''a=3&md5_key=b8ac2daa-f7be-46d7-bec6-1e8ed0632292&z=1''" by (simp only: update_conv')
  show ?thesis
    using signMap_correct [of ?es ?raw ?raw "\<lambda>es k v. AList.update k v es"] d
    unfolding txt_eq by (simp only: update_conv') (simp add: ascii_def)
qed

end
