(* ===== verification/Utf8.thy ===== *)
theory Utf8
  imports Prelude
begin

text \<open>
  Conversion of strings between Java and native code
  (\<open>alloctrack/src/main/cpp/fb/fbjni/detail/utf8.cpp\<close>): UTF-8 to the modified UTF-8 of JNI and
  back, and UTF-16 to UTF-8. Buffers are explicit arrays: a store outside of one is the
  outcome \<open>Overrun\<close>. \<open>FBJNI_LOGF\<close> (\<open>Log.h\<close>) depends on the build, the argument \<open>android\<close>: on
  Android it writes a message to the log and returns, elsewhere it ends the process, the
  outcome \<open>Abort\<close>. Positions and lengths are natural numbers: the strings of a 32-bit process are shorter than \<open>2 ^ 31\<close> bytes,
  so that no \<open>size_t\<close> of these functions wraps, except the 32-bit counter of
  \<open>utf16toUTF8Length\<close>, which is kept at its width.
\<close>

section \<open>Outcomes\<close>

datatype 'a outcome = Done 'a | Abort | Overrun

primrec bind_outcome :: "'a outcome \<Rightarrow> ('a \<Rightarrow> 'b outcome) \<Rightarrow> 'b outcome" where
  "bind_outcome (Done x) f = f x"
| "bind_outcome Abort f = Abort"
| "bind_outcome Overrun f = Overrun"

definition store :: "u8 list \<Rightarrow> nat \<Rightarrow> u8 \<Rightarrow> u8 list outcome" where
  "store out j b = (if j < length out then Done (out[j := b]) else Overrun)"

primrec store_all :: "u8 list \<Rightarrow> nat \<Rightarrow> u8 list \<Rightarrow> u8 list outcome" where
  "store_all out j [] = Done out"
| "store_all out j (b # bs) = bind_outcome (store out j b) (\<lambda>out. store_all out (j + 1) bs)"

definition FBJNI_LOGF :: "bool \<Rightarrow> unit outcome" where
  "FBJNI_LOGF android = (if android then Done () else Abort)"

text \<open>\<open>logf_if android cond k\<close> is \<open>if (cond) { FBJNI_LOGF(...); } k\<close>.\<close>

definition logf_if :: "bool \<Rightarrow> bool \<Rightarrow> 'a outcome \<Rightarrow> 'a outcome" where
  "logf_if android cond k = bind_outcome (if cond then FBJNI_LOGF android else Done ()) (\<lambda>_. k)"

section \<open>Encoding and decoding of single characters\<close>

definition kUtf8OneByteBoundary :: u16 where "kUtf8OneByteBoundary = 0x80"
definition kUtf8TwoBytesBoundary :: u16 where "kUtf8TwoBytesBoundary = 0x800"
definition kUtf16HighSubLowBoundary :: u16 where "kUtf16HighSubLowBoundary = 0xD800"
definition kUtf16HighSubHighBoundary :: u16 where "kUtf16HighSubHighBoundary = 0xDC00"
definition kUtf16LowSubHighBoundary :: u16 where "kUtf16LowSubHighBoundary = 0xE000"

lemmas boundary_defs = kUtf8OneByteBoundary_def kUtf8TwoBytesBoundary_def
  kUtf16HighSubLowBoundary_def kUtf16HighSubHighBoundary_def kUtf16LowSubHighBoundary_def

definition encode3ByteUTF8 :: "bool \<Rightarrow> u32 \<Rightarrow> u8 list \<Rightarrow> nat \<Rightarrow> u8 list outcome" where
  "encode3ByteUTF8 android code out j =
    logf_if android (code AND 0xffff0000 \<noteq> 0) (store_all out j
       [ucast (0xE0 OR drop_bit 12 code),
        ucast (0x80 OR (drop_bit 6 code AND 0x3F)),
        ucast (0x80 OR (code AND 0x3F))])"

definition decode3ByteUTF8 :: "u8 \<Rightarrow> u8 \<Rightarrow> u8 \<Rightarrow> u32" where
  "decode3ByteUTF8 in0 in1 in2 =
    push_bit 12 (ucast in0 AND 0x0f) OR push_bit 6 (ucast in1 AND 0x3f) OR (ucast in2 AND 0x3f)"

definition encode4ByteUTF8 :: "bool \<Rightarrow> u32 \<Rightarrow> u8 list \<Rightarrow> nat \<Rightarrow> u8 list outcome" where
  "encode4ByteUTF8 android code out offset =
    logf_if android (code AND 0xfff80000 \<noteq> 0) (store_all out offset
       [ucast (0xF0 OR drop_bit 18 code),
        ucast (0x80 OR (drop_bit 12 code AND 0x3F)),
        ucast (0x80 OR (drop_bit 6 code AND 0x3F)),
        ucast (0x80 OR (code AND 0x3F))])"

definition isFourByteUTF8Encoding :: "u8 \<Rightarrow> bool" where
  "isFourByteUTF8Encoding b \<longleftrightarrow> b AND 0xF8 = 0xF0"

section \<open>Conversions\<close>

text \<open>The list argument of a loop is what is left of the input from \<open>i\<close> on.\<close>

fun modifiedLength :: "u8 list \<Rightarrow> nat" where
  "modifiedLength [] = 0"
| "modifiedLength (b # bs) =
    (if b = 0 then 2 + modifiedLength bs
     else if length (b # bs) < 4 \<or> \<not> isFourByteUTF8Encoding b then 1 + modifiedLength bs
     else 6 + modifiedLength (drop 3 bs))"

text \<open>The overload for NUL-terminated strings reads memory from \<open>str\<close> on; \<open>zero_within k\<close> is the
  chain of tests of the following \<open>k\<close> bytes, which stops at the first NUL. It returns the length
  of the string and its modified length.\<close>

primrec zero_within :: "nat \<Rightarrow> u8 list \<Rightarrow> bool outcome" where
  "zero_within 0 mem = Done False"
| "zero_within (Suc k) mem =
    (case mem of [] \<Rightarrow> Overrun | b # mem' \<Rightarrow> if b = 0 then Done True else zero_within k mem')"

fun modifiedLength_cstr :: "u8 list \<Rightarrow> (nat \<times> nat) outcome" where
  "modifiedLength_cstr [] = Overrun"
| "modifiedLength_cstr (b # mem) =
    (if b = 0 then Done (0, 0)
     else bind_outcome (zero_within 3 mem) (\<lambda>z.
       if z \<or> \<not> isFourByteUTF8Encoding b
       then bind_outcome (modifiedLength_cstr mem) (\<lambda>(i, j). Done (i + 1, j + 1))
       else bind_outcome (modifiedLength_cstr (drop 3 mem)) (\<lambda>(i, j). Done (i + 4, j + 6))))"

definition utf8_code :: "u8 \<Rightarrow> u8 \<Rightarrow> u8 \<Rightarrow> u8 \<Rightarrow> u32" where
  "utf8_code b0 b1 b2 b3 =
    push_bit 18 (ucast b0 AND 0x07) OR push_bit 12 (ucast b1 AND 0x3f)
      OR push_bit 6 (ucast b2 AND 0x3f) OR (ucast b3 AND 0x3f)"

definition surrogates :: "u32 \<Rightarrow> u32 \<times> u32" where
  "surrogates code =
    (if 0x10ffff < code then (0xfffd, 0xfffd)
     else (drop_bit 10 (code - 0x010000) OR 0xd800, ((code - 0x010000) AND 0x3ff) OR 0xdc00))"

fun utf8ToModified_loop :: "bool \<Rightarrow> nat \<Rightarrow> u8 list \<Rightarrow> u8 list \<Rightarrow> nat \<Rightarrow> (u8 list \<times> nat) outcome" where
  "utf8ToModified_loop android modifiedBufLen [] modified j = Done (modified, j)"
| "utf8ToModified_loop android modifiedBufLen (b # bs) modified j =
    logf_if android (modifiedBufLen \<le> j)
    (if b = 0
     then logf_if android (modifiedBufLen \<le> j + 1)
       (bind_outcome (store_all modified j [0xc0, 0x80])
         (\<lambda>modified. utf8ToModified_loop android modifiedBufLen bs modified (j + 2)))
     else if length (b # bs) < 4 \<or> \<not> isFourByteUTF8Encoding b
     then bind_outcome (store modified j b)
       (\<lambda>modified. utf8ToModified_loop android modifiedBufLen bs modified (j + 1))
     else
       (case surrogates (utf8_code b (bs ! 0) (bs ! 1) (bs ! 2)) of (first, second) \<Rightarrow>
          logf_if android (modifiedBufLen \<le> j + 5)
          (bind_outcome (encode3ByteUTF8 android first modified j) (\<lambda>modified.
            bind_outcome (encode3ByteUTF8 android second modified (j + 3)) (\<lambda>modified.
            utf8ToModified_loop android modifiedBufLen (drop 3 bs) modified (j + 6))))))"

definition utf8ToModifiedUTF8 :: "bool \<Rightarrow> u8 list \<Rightarrow> u8 list \<Rightarrow> nat \<Rightarrow> u8 list outcome" where
  "utf8ToModifiedUTF8 android utf8 modified modifiedBufLen =
    bind_outcome (utf8ToModified_loop android modifiedBufLen utf8 modified 0) (\<lambda>(modified, j).
      logf_if android (modifiedBufLen \<le> j) (store modified j 0))"

definition surrogate_pair_at :: "u8 list \<Rightarrow> bool" where
  "surrogate_pair_at m \<longleftrightarrow> 6 \<le> length m \<and> m ! 0 = 0xed \<and> m ! 1 AND 0xf0 = 0xa0 \<and>
     m ! 3 = 0xed \<and> m ! 4 AND 0xf0 = 0xb0"

fun modifiedToUTF8_loop :: "bool \<Rightarrow> u8 list \<Rightarrow> u8 list \<Rightarrow> nat \<Rightarrow> (u8 list \<times> nat) outcome" where
  "modifiedToUTF8_loop android [] utf8 j = Done (utf8, j)"
| "modifiedToUTF8_loop android (b # bs) utf8 j =
    (let m = b # bs in
     if surrogate_pair_at m
     then let pair1 = decode3ByteUTF8 (m ! 0) (m ! 1) (m ! 2);
              pair2 = decode3ByteUTF8 (m ! 3) (m ! 4) (m ! 5);
              ch = 0x10000 + (push_bit 10 (pair1 AND 0x3ff) OR (pair2 AND 0x3ff))
          in bind_outcome (encode4ByteUTF8 android ch utf8 j)
               (\<lambda>utf8. modifiedToUTF8_loop android (drop 5 bs) utf8 (j + 4))
     else if 2 \<le> length m \<and> m ! 0 = 0xc0 \<and> m ! 1 = 0x80
     then bind_outcome (store utf8 j 0) (\<lambda>utf8. modifiedToUTF8_loop android (drop 1 bs) utf8 (j + 1))
     else bind_outcome (store utf8 j b) (\<lambda>utf8. modifiedToUTF8_loop android bs utf8 (j + 1)))"

definition modifiedUTF8ToUTF8 :: "bool \<Rightarrow> u8 list \<Rightarrow> u8 list outcome" where
  "modifiedUTF8ToUTF8 android modified =
    bind_outcome (modifiedToUTF8_loop android modified (replicate (length modified) 0) 0)
      (\<lambda>(utf8, j). Done (take j utf8))"

definition low_surrogate_next :: "u16 list \<Rightarrow> bool" where
  "low_surrogate_next s \<longleftrightarrow>
    s \<noteq> [] \<and> kUtf16HighSubHighBoundary \<le> hd s \<and> hd s < kUtf16LowSubHighBoundary"

fun utf16toUTF8Length :: "u16 list \<Rightarrow> u32" where
  "utf16toUTF8Length [] = 0"
| "utf16toUTF8Length (ch # s) =
    (if ch < kUtf8OneByteBoundary then 1 + utf16toUTF8Length s
     else if ch < kUtf8TwoBytesBoundary then 2 + utf16toUTF8Length s
     else if kUtf16HighSubLowBoundary \<le> ch \<and> ch < kUtf16HighSubHighBoundary \<and> low_surrogate_next s
       then 4 + utf16toUTF8Length (tl s)
     else 3 + utf16toUTF8Length s)"

fun utf16toUTF8_loop :: "u16 list \<Rightarrow> u8 list \<Rightarrow> nat \<Rightarrow> u8 list outcome" where
  "utf16toUTF8_loop [] out j = Done out"
| "utf16toUTF8_loop (ch # s) out j =
    (let c = (ucast ch :: u32) in
     if ch < kUtf8OneByteBoundary
     then bind_outcome (store out j (ucast (c AND 0x7F))) (\<lambda>out. utf16toUTF8_loop s out (j + 1))
     else if ch < kUtf8TwoBytesBoundary
     then bind_outcome (store_all out j
            [ucast (0xC0 OR drop_bit 6 c), ucast (0x80 OR (c AND 0x3F))])
          (\<lambda>out. utf16toUTF8_loop s out (j + 2))
     else if kUtf16HighSubLowBoundary \<le> ch \<and> ch < kUtf16HighSubHighBoundary \<and> low_surrogate_next s
     then let ch2 = (ucast (hd s) :: u32);
              trunc_byte = (ucast ((drop_bit 6 c AND 0x0F) + 1) :: u8)
          in bind_outcome (store_all out j
            [ucast (0xF0 OR drop_bit 2 (ucast trunc_byte :: u32)),
             ucast (0x80 OR push_bit 4 (ucast trunc_byte AND 0x03) OR (drop_bit 2 c AND 0x0F) :: u32),
             ucast (0x80 OR push_bit 4 (c AND 0x03) OR (drop_bit 6 ch2 AND 0x0F)),
             ucast (0x80 OR (ch2 AND 0x3F))])
          (\<lambda>out. utf16toUTF8_loop (tl s) out (j + 4))
     else bind_outcome (store_all out j
            [ucast (0xE0 OR drop_bit 12 c), ucast (0x80 OR (drop_bit 6 c AND 0x3F)),
             ucast (0x80 OR (c AND 0x3F))])
          (\<lambda>out. utf16toUTF8_loop s out (j + 3)))"

text \<open>The null pointer and the empty string give the empty string.\<close>

definition utf16toUTF8 :: "u16 list option \<Rightarrow> u8 list outcome" where
  "utf16toUTF8 utf16String =
    (case utf16String of None \<Rightarrow> Done []
     | Some s \<Rightarrow> if s = [] then Done []
         else utf16toUTF8_loop s (replicate (unat (utf16toUTF8Length s)) 0) 0)"

text \<open>\<open>make_jstring\<close>: what it passes to \<open>NewStringUTF\<close> for the NUL-terminated string at \<open>mem\<close>.\<close>

definition make_jstring :: "bool \<Rightarrow> u8 list \<Rightarrow> u8 list outcome" where
  "make_jstring android mem =
    bind_outcome (modifiedLength_cstr mem) (\<lambda>(len, modlen).
      if modlen = len then Done mem
      else utf8ToModifiedUTF8 android (take len mem) (replicate (modlen + 1) 0) (modlen + 1))"

section \<open>Reference: the Unicode encodings\<close>

definition scalar :: "nat \<Rightarrow> bool" where
  "scalar c \<longleftrightarrow> c < 0xD800 \<or> 0xE000 \<le> c \<and> c < 0x110000"

definition utf8_3 :: "nat \<Rightarrow> u8 list" where
  "utf8_3 c = [of_nat (0xE0 + c div 4096), of_nat (0x80 + c div 64 mod 64), of_nat (0x80 + c mod 64)]"

definition utf8_cp :: "nat \<Rightarrow> u8 list" where
  "utf8_cp c =
    (if c < 0x80 then [of_nat c]
     else if c < 0x800 then [of_nat (0xC0 + c div 64), of_nat (0x80 + c mod 64)]
     else if c < 0x10000 then utf8_3 c
     else [of_nat (0xF0 + c div 262144), of_nat (0x80 + c div 4096 mod 64),
           of_nat (0x80 + c div 64 mod 64), of_nat (0x80 + c mod 64)])"

definition high_surrogate :: "nat \<Rightarrow> nat" where
  "high_surrogate c = 0xD800 + (c - 0x10000) div 1024"

definition low_surrogate :: "nat \<Rightarrow> nat" where
  "low_surrogate c = 0xDC00 + (c - 0x10000) mod 1024"

definition utf16_cp :: "nat \<Rightarrow> u16 list" where
  "utf16_cp c = (if c < 0x10000 then [of_nat c] else [of_nat (high_surrogate c), of_nat (low_surrogate c)])"

definition mutf8_cp :: "nat \<Rightarrow> u8 list" where
  "mutf8_cp c =
    (if c = 0 then [0xC0, 0x80] else if c < 0x10000 then utf8_cp c
     else utf8_3 (high_surrogate c) @ utf8_3 (low_surrogate c))"

abbreviation utf8_string :: "nat list \<Rightarrow> u8 list" where "utf8_string cs \<equiv> concat (map utf8_cp cs)"
abbreviation utf16_string :: "nat list \<Rightarrow> u16 list" where "utf16_string cs \<equiv> concat (map utf16_cp cs)"
abbreviation mutf8_string :: "nat list \<Rightarrow> u8 list" where "mutf8_string cs \<equiv> concat (map mutf8_cp cs)"

section \<open>Buffers\<close>

lemma store_append:
  "store (w @ zs) (length w) b = (if zs = [] then Overrun else Done (w @ b # tl zs))"
  by (cases zs) (simp_all add: store_def)

lemma store_all_append:
  "store_all (w @ zs) (length w) bs =
    (if length bs \<le> length zs then Done (w @ bs @ drop (length bs) zs) else Overrun)"
proof (induction bs arbitrary: w zs)
  case (Cons b bs)
  show ?case
  proof (cases zs)
    case (Cons z zs')
    have "store_all ((w @ [b]) @ zs') (length (w @ [b])) bs =
        (if length bs \<le> length zs' then Done ((w @ [b]) @ bs @ drop (length bs) zs') else Overrun)"
      by (rule Cons.IH)
    then show ?thesis using Cons by (simp add: store_append)
  qed (simp add: store_append [of w "[]", simplified])
qed simp

declare store_all.simps [simp del]

lemma logf_if_simps [simp]:
  "logf_if android False k = k" "logf_if True c k = k" "logf_if False True k = Abort"
  "logf_if android c Abort = Abort"
  by (simp_all add: logf_if_def FBJNI_LOGF_def)

definition enc3 :: "u32 \<Rightarrow> u8 list" where
  "enc3 code = [ucast (0xE0 OR drop_bit 12 code), ucast (0x80 OR (drop_bit 6 code AND 0x3F)),
     ucast (0x80 OR (code AND 0x3F))]"

definition enc4 :: "u32 \<Rightarrow> u8 list" where
  "enc4 code = [ucast (0xF0 OR drop_bit 18 code), ucast (0x80 OR (drop_bit 12 code AND 0x3F)),
     ucast (0x80 OR (drop_bit 6 code AND 0x3F)), ucast (0x80 OR (code AND 0x3F))]"

text \<open>The bytes written by \<open>utf8ToModifiedUTF8\<close>, without the buffer, and whether the input has a
  four-byte form of a character that does not need one.\<close>

fun modified_bytes :: "u8 list \<Rightarrow> u8 list" where
  "modified_bytes [] = []"
| "modified_bytes (b # bs) =
    (if b = 0 then [0xc0, 0x80] @ modified_bytes bs
     else if length (b # bs) < 4 \<or> \<not> isFourByteUTF8Encoding b then b # modified_bytes bs
     else (case surrogates (utf8_code b (bs ! 0) (bs ! 1) (bs ! 2)) of (first, second) \<Rightarrow>
       enc3 first @ enc3 second @ modified_bytes (drop 3 bs)))"

fun overlong4 :: "u8 list \<Rightarrow> bool" where
  "overlong4 [] = False"
| "overlong4 (b # bs) =
    (if b = 0 \<or> length (b # bs) < 4 \<or> \<not> isFourByteUTF8Encoding b then overlong4 bs
     else utf8_code b (bs ! 0) (bs ! 1) (bs ! 2) < 0x10000 \<or> overlong4 (drop 3 bs))"

lemma length_enc3 [simp]: "length (enc3 c) = 3" by (simp add: enc3_def)
lemma length_enc4 [simp]: "length (enc4 c) = 4" by (simp add: enc4_def)

lemma length_modified_bytes: "length (modified_bytes s) = modifiedLength s"
  by (induction s rule: modified_bytes.induct) (simp_all split: prod.split)

lemma unat_push_or:
  fixes x y :: "'a::len word"
  assumes "unat x < 2 ^ n" "unat y * 2 ^ n + unat x < 2 ^ LENGTH('a)"
  shows "unat (push_bit n y OR x) = unat y * 2 ^ n + unat x"
proof -
  have "take_bit n x = x"
    using assms(1) by (simp only: word_unat_eq_iff unsigned_take_bit_eq) (simp add: take_bit_nat_eq_self_iff)
  then have "\<not> bit x k" if "n \<le> k" for k using that by (metis bit_take_bit_iff not_le)
  then have "push_bit n y AND x = 0" by (intro bit_word_eqI) (auto simp: bit_simps)
  then have "push_bit n y OR x = push_bit n y + x" by (rule disjunctive_add_eq_or [symmetric])
  moreover have "unat (push_bit n y) = unat y * 2 ^ n"
    using assms(2) by (simp only: unsigned_push_bit_eq) (simp add: push_bit_eq_mult take_bit_nat_eq_self)
  ultimately show ?thesis using assms(2) by (simp add: unat_word_ariths)
qed

lemma unat_and_masks:
  fixes x :: u32
  shows "unat (x AND 0x07) = unat x mod 8" "unat (x AND 0x0f) = unat x mod 16" "unat (x AND 0x3f) = unat x mod 64"
    "unat (x AND 0x03) = unat x mod 4" "unat (x AND 0x3ff) = unat x mod 1024" "unat (x AND 0x7f) = unat x mod 128"
  using unat_and_mask [of x 3] unat_and_mask [of x 4] unat_and_mask [of x 6] unat_and_mask [of x 2]
    unat_and_mask [of x 10] unat_and_mask [of x 7]
  by (simp_all add: mask_eq_exp_minus_1)

lemma unat_byte [simp]: "unat (ucast (b :: u8) :: u32) = unat b"
  using unsigned_less [of b, where 'a = nat] by (simp add: unsigned_ucast_eq take_bit_nat_eq_self_iff)

lemma unat_utf8_code: "unat (utf8_code b0 b1 b2 b3) =
    (unat b0 mod 8) * 262144 + ((unat b1 mod 64) * 4096 + ((unat b2 mod 64) * 64 + unat b3 mod 64))"
proof -
  let ?a = "ucast b0 AND 0x07 :: u32" and ?b = "ucast b1 AND 0x3f :: u32"
    and ?c = "ucast b2 AND 0x3f :: u32" and ?d = "ucast b3 AND 0x3f :: u32"
  have bounds: "unat b0 mod 8 < 8" "unat b1 mod 64 < 64" "unat b2 mod 64 < 64" "unat b3 mod 64 < 64" by simp_all
  have cd: "unat (push_bit 6 ?c OR ?d) = (unat b2 mod 64) * 64 + unat b3 mod 64"
    using bounds by (subst unat_push_or) (simp_all add: unat_and_masks)
  have bcd: "unat (push_bit 12 ?b OR (push_bit 6 ?c OR ?d)) =
      (unat b1 mod 64) * 4096 + ((unat b2 mod 64) * 64 + unat b3 mod 64)"
    using bounds cd by (subst unat_push_or) (simp_all add: unat_and_masks)
  show ?thesis unfolding utf8_code_def
    using bounds bcd by (subst unat_push_or) (simp_all add: unat_and_masks)
qed

lemma utf8_code_bound: "unat (utf8_code b0 b1 b2 b3) < 2 ^ 21"
proof -
  have "unat b0 mod 8 < 8" "unat b1 mod 64 < 64" "unat b2 mod 64 < 64" "unat b3 mod 64 < 64" by simp_all
  then show ?thesis unfolding unat_utf8_code by simp
qed

lemma div_eq_zero_iff_less: "x - x mod m = 0 \<longleftrightarrow> x < m" if "0 < m" for x m :: nat
proof
  assume "x - x mod m = 0"
  then have "x \<le> x mod m" by simp
  also have "\<dots> < m" using that by simp
  finally show "x < m" .
qed simp

lemma high_part_clear:
  fixes code :: u32
  shows "code AND 0xffff0000 = 0 \<longleftrightarrow> unat code < 2 ^ 16" "code AND 0xfff80000 = 0 \<longleftrightarrow> unat code < 2 ^ 19"
proof -
  have nm: "0xffff0000 = NOT (mask 16 :: u32)" "0xfff80000 = NOT (mask 19 :: u32)" by (simp_all add: mask_eq_exp_minus_1)
  have "code AND NOT (mask n) = 0 \<longleftrightarrow> unat code < 2 ^ n" for n
    unfolding word_unat_eq_iff unat_and_not_mask unsigned_0 by (rule div_eq_zero_iff_less) simp
  then show "code AND 0xffff0000 = 0 \<longleftrightarrow> unat code < 2 ^ 16" "code AND 0xfff80000 = 0 \<longleftrightarrow> unat code < 2 ^ 19"
    unfolding nm by blast+
qed

lemma encode3_append:
  "encode3ByteUTF8 android code (w @ zs) (length w) =
    (if \<not> android \<and> 2 ^ 16 \<le> unat code then Abort
     else if 3 \<le> length zs then Done (w @ enc3 code @ drop 3 zs) else Overrun)"
  unfolding encode3ByteUTF8_def enc3_def [symmetric] store_all_append high_part_clear
  by (simp add: logf_if_def FBJNI_LOGF_def)

lemma encode4_append:
  "encode4ByteUTF8 android code (w @ zs) (length w) =
    (if \<not> android \<and> 2 ^ 19 \<le> unat code then Abort
     else if 4 \<le> length zs then Done (w @ enc4 code @ drop 4 zs) else Overrun)"
  unfolding encode4ByteUTF8_def enc4_def [symmetric] store_all_append high_part_clear
  by (simp add: logf_if_def FBJNI_LOGF_def)

lemma unat_or_surrogate:
  fixes x :: u32
  assumes "unat x < 1024"
  shows "unat (x OR 0xd800) = 0xd800 + unat x" "unat (x OR 0xdc00) = 0xdc00 + unat x"
proof -
  have "0xd800 = (push_bit 10 54 :: u32)" "0xdc00 = (push_bit 10 55 :: u32)" by (simp_all add: push_bit_eq_mult)
  then show "unat (x OR 0xd800) = 0xd800 + unat x" "unat (x OR 0xdc00) = 0xdc00 + unat x"
    using unat_push_or [of x 10 54] unat_push_or [of x 10 55] assms by (simp_all add: or.commute)
qed

lemma surrogate_range:
  assumes "c < 0x110000"
  shows "0xd800 \<le> high_surrogate c" "high_surrogate c < 0xdc00" "0xdc00 \<le> low_surrogate c" "low_surrogate c < 0xe000"
proof -
  have "(c - 0x10000) div 1024 < 1024" using assms by (simp add: div_less_iff_less_mult)
  moreover have "(c - 0x10000) mod 1024 < 1024" by simp
  ultimately show "0xd800 \<le> high_surrogate c" "high_surrogate c < 0xdc00" "0xdc00 \<le> low_surrogate c" "low_surrogate c < 0xe000"
    by (simp_all add: high_surrogate_def low_surrogate_def)
qed

lemma surrogates_pair:
  assumes "0x10000 \<le> unat code" "unat code < 0x110000"
  shows "surrogates code = (word_of_nat (high_surrogate (unat code)), word_of_nat (low_surrogate (unat code)))"
proof -
  have le: "\<not> 0x10ffff < code" using assms(2) by (simp add: word_less_nat_alt)
  have d: "unat (code - 0x10000) = unat code - 0x10000" using assms(1) by (simp add: unat_sub word_le_nat_alt)
  then have "unat (drop_bit 10 (code - 0x10000)) = (unat code - 0x10000) div 1024"
    by (simp only: unat_drop_bit_eq) (simp add: drop_bit_eq_div)
  moreover have "unat ((code - 0x10000) AND 0x3ff) = (unat code - 0x10000) mod 1024"
    by (simp only: unat_and_masks d)
  moreover have "(unat code - 0x10000) div 1024 < 1024" using assms(2) by (simp add: div_less_iff_less_mult)
  ultimately show ?thesis using le
    by (simp only: surrogates_def if_False prod.inject word_unat_eq_iff unat_or_surrogate simp_thms)
      (simp add: high_surrogate_def low_surrogate_def unat_of_nat unat_or_surrogate del: of_nat_add)
qed

lemma surrogates_fit:
  assumes "surrogates code = (first, second)"
  shows "unat second < 2 ^ 16" "unat first < 2 ^ 16 \<longleftrightarrow> \<not> code < 0x10000"
proof -
  have sec: "unat (((code - 0x10000) AND 0x3ff) OR 0xdc00) < 2 ^ 16"
    by (subst unat_or_surrogate) (simp_all add: unat_and_masks)
  consider (big) "0x10ffff < code" | (small) "code < 0x10000" | (mid) "\<not> 0x10ffff < code" "\<not> code < 0x10000" by blast
  then have "unat second < 2 ^ 16 \<and> (unat first < 2 ^ 16 \<longleftrightarrow> \<not> code < 0x10000)"
  proof cases
    case big
    then show ?thesis using assms by (auto simp: surrogates_def word_less_nat_alt)
  next
    case small
    then have s: "\<not> 0x10ffff < code" by (simp add: word_less_nat_alt)
    have "unat (code - 0x10000) = 2 ^ 32 + unat code - 0x10000"
      using small by (simp add: unat_sub_if' word_less_nat_alt word_le_nat_alt)
    then have "2 ^ 16 \<le> unat (drop_bit 10 (code - 0x10000))"
      by (simp only: unat_drop_bit_eq) (simp add: drop_bit_eq_div)
    then have "drop_bit 10 (code - 0x10000) AND 0xffff0000 \<noteq> 0" by (simp only: high_part_clear not_less)
    then have "(drop_bit 10 (code - 0x10000) OR 0xd800) AND 0xffff0000 \<noteq> 0"
      by (simp only: bit.conj_disj_distrib2 or_eq_0_iff simp_thms)
    then have "\<not> unat first < 2 ^ 16" using assms s by (simp only: high_part_clear) (auto simp: surrogates_def)
    then show ?thesis using assms s sec small by (auto simp: surrogates_def)
  next
    case mid
    then show ?thesis using assms surrogates_pair [of code] surrogate_range [of "unat code"]
      by (auto simp: word_less_nat_alt unat_of_nat)
  qed
  then show "unat second < 2 ^ 16" "unat first < 2 ^ 16 \<longleftrightarrow> \<not> code < 0x10000" by auto
qed

abbreviation to_modified_result where
  "to_modified_result android w zs s \<equiv>
    (if modifiedLength s \<le> length zs \<and> (android \<or> \<not> overlong4 s)
     then Done (w @ modified_bytes s @ drop (modifiedLength s) zs, length w + modifiedLength s)
     else if android then Overrun else Abort)"

lemma to_modified_continue:
  assumes "utf8ToModified_loop android (length (w @ B) + length (drop k zs)) s ((w @ B) @ drop k zs) (length (w @ B)) =
      to_modified_result android (w @ B) (drop k zs) s"
    and "length B = k" "k \<le> length zs"
  shows "utf8ToModified_loop android (length w + length zs) s (w @ B @ drop k zs) (length w + k) =
    (if k + modifiedLength s \<le> length zs \<and> (android \<or> \<not> overlong4 s)
     then Done (w @ B @ modified_bytes s @ drop (k + modifiedLength s) zs, length w + (k + modifiedLength s))
     else if android then Overrun else Abort)"
proof -
  have "length (w @ B) + length (drop k zs) = length w + length zs" using assms(2,3) by simp
  then show ?thesis using assms by (simp add: le_diff_conv2 add.commute)
qed

lemma utf8ToModified_loop_eq:
  "utf8ToModified_loop android (length w + length zs) s (w @ zs) (length w) = to_modified_result android w zs s"
proof (induction s arbitrary: w zs rule: modified_bytes.induct)
  case (2 b bs)
  let ?n = "length w + length zs"
  consider (nul) "b = 0" | (copy) "b \<noteq> 0" "length (b # bs) < 4 \<or> \<not> isFourByteUTF8Encoding b"
    | (four) "b \<noteq> 0" "\<not> (length (b # bs) < 4 \<or> \<not> isFourByteUTF8Encoding b)" by blast
  then show ?case
  proof cases
    case nul
    show ?thesis
    proof (cases "2 \<le> length zs")
      case True
      then have st: "store_all (w @ zs) (length w) [0xc0, 0x80] = Done (w @ [0xc0, 0x80] @ drop 2 zs)"
        by (simp add: store_all_append numeral_2_eq_2)
      have "zs \<noteq> []" using True by auto
      then show ?thesis using nul True st to_modified_continue [OF 2(1) [OF nul], of "[0xc0, 0x80]" 2 zs w]
        by simp
    next
      case False
      then show ?thesis using nul by (cases android) (simp_all add: store_all_append)
    qed
  next
    case copy
    show ?thesis
    proof (cases "zs = []")
      case False
      then have st: "store (w @ zs) (length w) b = Done (w @ [b] @ drop 1 zs)"
        by (cases zs) (simp_all add: store_append)
      show ?thesis using copy False st to_modified_continue [OF 2(2) [OF copy], of "[b]" 1 zs w]
        by (simp add: Suc_le_eq)
    next
      case True
      then show ?thesis using copy store_append [of w "[]" b] by (cases android) simp_all
    qed
  next
    case four
    obtain f g where fg: "surrogates (utf8_code b (bs ! 0) (bs ! 1) (bs ! 2)) = (f, g)" by fastforce
    note fit = surrogates_fit [OF fg]
    show ?thesis
    proof (cases "6 \<le> length zs \<and> (android \<or> unat f < 2 ^ 16)")
      case True
      then have e1: "encode3ByteUTF8 android f (w @ zs) (length w) = Done (w @ enc3 f @ drop 3 zs)"
        by (auto simp: encode3_append)
      have "3 \<le> length (drop 3 zs)" using True unfolding length_drop by linarith
      then have e2: "encode3ByteUTF8 android g (w @ enc3 f @ drop 3 zs) (length w + 3) = Done (w @ (enc3 f @ enc3 g) @ drop 6 zs)"
        using encode3_append [of android g "w @ enc3 f" "drop 3 zs"] True fit(1) by simp
      have "zs \<noteq> []" using True by auto
      then show ?thesis
        using four True fg e1 e2 fit to_modified_continue [OF 2(3) [OF four fg [symmetric]], of "enc3 f @ enc3 g" 6 zs w]
        by (auto simp: not_less)
    next
      case False
      then show ?thesis using four fg fit encode3_append [of android g "w @ enc3 f" "drop 3 zs"]
        by (cases android) (auto simp: encode3_append)
    qed
  qed
qed simp

lemma utf8ToModifiedUTF8_eq:
  "utf8ToModifiedUTF8 android s buf (length buf) =
    (if modifiedLength s < length buf \<and> (android \<or> \<not> overlong4 s)
     then Done (modified_bytes s @ 0 # drop (modifiedLength s + 1) buf)
     else if android then Overrun else Abort)"
proof -
  let ?b = "modified_bytes s"
  have "store (?b @ zs) (modifiedLength s) 0 = (if zs = [] then Overrun else Done (?b @ 0 # tl zs))" for zs
    using store_append [of ?b zs 0] by (simp add: length_modified_bytes)
  moreover have "store ?b (modifiedLength s) 0 = Overrun"
    using store_append [of ?b "[]" 0] by (simp add: length_modified_bytes)
  ultimately show ?thesis
    unfolding utf8ToModifiedUTF8_def
    using utf8ToModified_loop_eq [of android "[]" buf s] by (cases android) (auto simp: not_less tl_drop drop_Suc)
qed

text \<open>The bytes written by \<open>modifiedUTF8ToUTF8\<close>, without the buffer, and whether it meets a pair
  whose character has more than 19 bits.\<close>

definition pair_char :: "u8 list \<Rightarrow> u32" where
  "pair_char m = 0x10000 + (push_bit 10 (decode3ByteUTF8 (m ! 0) (m ! 1) (m ! 2) AND 0x3ff)
     OR (decode3ByteUTF8 (m ! 3) (m ! 4) (m ! 5) AND 0x3ff))"

fun standard_bytes :: "u8 list \<Rightarrow> u8 list" where
  "standard_bytes [] = []"
| "standard_bytes (b # bs) =
    (if surrogate_pair_at (b # bs) then enc4 (pair_char (b # bs)) @ standard_bytes (drop 5 bs)
     else if b = 0xc0 \<and> bs \<noteq> [] \<and> hd bs = 0x80 then 0 # standard_bytes (drop 1 bs)
     else b # standard_bytes bs)"

fun beyond19 :: "u8 list \<Rightarrow> bool" where
  "beyond19 [] = False"
| "beyond19 (b # bs) =
    (if surrogate_pair_at (b # bs) then 2 ^ 19 \<le> unat (pair_char (b # bs)) \<or> beyond19 (drop 5 bs)
     else if b = 0xc0 \<and> bs \<noteq> [] \<and> hd bs = 0x80 then beyond19 (drop 1 bs)
     else beyond19 bs)"

lemma length_standard_bytes: "length (standard_bytes m) \<le> length m"
  by (induction m rule: standard_bytes.induct) (auto simp: surrogate_pair_at_def)

lemma to_standard_continue:
  assumes "modifiedToUTF8_loop android m ((w @ B) @ drop k zs) (length (w @ B)) =
      (if android \<or> \<not> beyond19 m
       then Done ((w @ B) @ standard_bytes m @ drop (length (standard_bytes m)) (drop k zs),
         length (w @ B) + length (standard_bytes m))
       else Abort)"
    and "length B = k"
  shows "modifiedToUTF8_loop android m (w @ B @ drop k zs) (length w + k) =
    (if android \<or> \<not> beyond19 m
     then Done (w @ B @ standard_bytes m @ drop (k + length (standard_bytes m)) zs,
       length w + (k + length (standard_bytes m)))
     else Abort)"
  using assms by (simp add: add.commute)

lemma modifiedToUTF8_loop_eq:
  assumes "length m \<le> length zs"
  shows "modifiedToUTF8_loop android m (w @ zs) (length w) =
    (if android \<or> \<not> beyond19 m
     then Done (w @ standard_bytes m @ drop (length (standard_bytes m)) zs, length w + length (standard_bytes m))
     else Abort)"
  using assms
proof (induction m arbitrary: w zs rule: standard_bytes.induct)
  case (2 b bs)
  consider (pair) "surrogate_pair_at (b # bs)"
    | (nul) "\<not> surrogate_pair_at (b # bs)" "b = 0xc0 \<and> bs \<noteq> [] \<and> hd bs = 0x80"
    | (copy) "\<not> surrogate_pair_at (b # bs)" "\<not> (b = 0xc0 \<and> bs \<noteq> [] \<and> hd bs = 0x80)" by blast
  then show ?case
  proof cases
    case pair
    let ?c = "pair_char (b # bs)"
    have l: "6 \<le> length zs" "length (drop 5 bs) \<le> length (drop 4 zs)"
      using pair 2(4) by (auto simp: surrogate_pair_at_def)
    have e: "encode4ByteUTF8 android ?c (w @ zs) (length w) =
        (if \<not> android \<and> 2 ^ 19 \<le> unat ?c then Abort else Done (w @ enc4 ?c @ drop 4 zs))"
      using l by (simp add: encode4_append)
    show ?thesis
      using pair e to_standard_continue [OF 2(1) [OF pair l(2)], where B = "enc4 ?c" and w = w]
      by (auto simp: Let_def pair_char_def)
  next
    case nul
    then obtain bs' where bs: "bs = 0x80 # bs'" by (cases bs) auto
    have l: "zs \<noteq> []" "length (drop 1 bs) \<le> length (drop 1 zs)" using nul 2(4) bs by auto
    then have e: "store (w @ zs) (length w) 0 = Done (w @ [0] @ drop 1 zs)"
      by (cases zs) (simp_all add: store_append)
    show ?thesis
      using nul e bs to_standard_continue [OF 2(2) [OF nul l(2)], where B = "[0]" and w = w]
      by (simp add: Let_def)
  next
    case copy
    have l: "zs \<noteq> []" "length bs \<le> length (drop 1 zs)" using 2(4) by auto
    then have e: "store (w @ zs) (length w) b = Done (w @ [b] @ drop 1 zs)"
      by (cases zs) (simp_all add: store_append)
    have ng: "\<not> (2 \<le> length (b # bs) \<and> (b # bs) ! 0 = 0xc0 \<and> (b # bs) ! 1 = 0x80)"
      using copy by (cases bs) auto
    have step: "modifiedToUTF8_loop android (b # bs) (w @ zs) (length w) =
        modifiedToUTF8_loop android bs (w @ [b] @ drop 1 zs) (length w + 1)"
      by (simp only: modifiedToUTF8_loop.simps Let_def copy(1) if_False if_not_P [OF ng] e bind_outcome.simps)
    show ?thesis
      unfolding step standard_bytes.simps beyond19.simps if_not_P [OF copy(1)] if_not_P [OF copy(2)]
      using to_standard_continue [OF 2(3) [OF copy l(2)], where B = "[b]" and w = w] by simp
  qed
qed simp

lemma modifiedUTF8ToUTF8_eq:
  "modifiedUTF8ToUTF8 android m = (if android \<or> \<not> beyond19 m then Done (standard_bytes m) else Abort)"
  using modifiedToUTF8_loop_eq [of m "replicate (length m) 0" android "[]"]
  by (simp add: modifiedUTF8ToUTF8_def)

section \<open>Bytes of a character\<close>

lemma unat_u8 [simp]: "n < 256 \<Longrightarrow> unat (word_of_nat n :: u8) = n"
  by (simp add: unat_of_nat)

lemma u8_eqI: "unat b = n \<Longrightarrow> (b :: u8) = word_of_nat n"
  by auto

lemma minus_mod_range:
  fixes x m k :: nat
  assumes "0 < k"
  shows "(x - x mod k = k * m) = (k * m \<le> x \<and> x < k * m + k)"
proof -
  have "(x - x mod k = k * m) = (x div k = m)" using assms by (simp add: minus_mod_eq_mult_div)
  also have "\<dots> = (k * m \<le> x \<and> x < k * m + k)"
  proof
    assume "x div k = m"
    then show "k * m \<le> x \<and> x < k * m + k" using dividend_less_times_div [OF assms, of x] by auto
  qed (auto intro: div_nat_eqI simp: ac_simps)
  finally show ?thesis .
qed

lemma u8_high_bits: "(b AND 0xF8 = (0xF0 :: u8)) = (240 \<le> unat b \<and> unat b < 248)"
    "(b AND 0xF0 = (0xA0 :: u8)) = (160 \<le> unat b \<and> unat b < 176)"
    "(b AND 0xF0 = (0xB0 :: u8)) = (176 \<le> unat b \<and> unat b < 192)"
proof -
  have m: "0xF8 = (NOT (mask 3) :: u8)" "0xF0 = (NOT (mask 4) :: u8)" by (simp_all add: mask_eq_exp_minus_1)
  have d: "(x - x mod 8 = 240) = (240 \<le> x \<and> x < 248)" "(x - x mod 16 = 160) = (160 \<le> x \<and> x < 176)"
    "(x - x mod 16 = 176) = (176 \<le> x \<and> x < 192)" for x :: nat
    using minus_mod_range [of 8 x 30] minus_mod_range [of 16 x 10] minus_mod_range [of 16 x 11] by simp_all
  have "unat (b AND 0xF8) = unat b - unat b mod 8" "unat (b AND 0xF0) = unat b - unat b mod 16"
    unfolding m unat_and_not_mask by simp_all
  then show "(b AND 0xF8 = (0xF0 :: u8)) = (240 \<le> unat b \<and> unat b < 248)"
    "(b AND 0xF0 = (0xA0 :: u8)) = (160 \<le> unat b \<and> unat b < 176)"
    "(b AND 0xF0 = (0xB0 :: u8)) = (176 \<le> unat b \<and> unat b < 192)"
    by (simp_all add: word_unat_eq_iff d)
qed

lemma split64: "c = c div 262144 * 262144 + (c div 4096 mod 64 * 4096 + (c div 64 mod 64 * 64 + c mod 64))" for c :: nat
proof -
  define d e f where "d = c div 64" and "e = d div 64" and "f = e div 64"
  have n: "c div 262144 = f" "c div 4096 = e" "c div 64 = d"
    by (simp_all add: d_def e_def f_def div_mult2_eq [symmetric])
  have "c = d * 64 + c mod 64" "d = e * 64 + d mod 64" "e = f * 64 + e mod 64" unfolding d_def e_def f_def by simp_all
  then show ?thesis unfolding n by linarith
qed

lemma unat_or_lead:
  fixes x :: u32
  shows "unat x < 32 \<Longrightarrow> unat (0xE0 OR x) = 0xE0 + unat x" "unat x < 16 \<Longrightarrow> unat (0xF0 OR x) = 0xF0 + unat x"
    "unat x < 64 \<Longrightarrow> unat (0x80 OR x) = 0x80 + unat x" "unat x < 32 \<Longrightarrow> unat (0xC0 OR x) = 0xC0 + unat x"
proof -
  have p: "0xE0 = (push_bit 5 7 :: u32)" "0xF0 = (push_bit 4 15 :: u32)" "0x80 = (push_bit 6 2 :: u32)" "0xC0 = (push_bit 5 6 :: u32)"
    by (simp_all add: push_bit_eq_mult)
  show "unat x < 32 \<Longrightarrow> unat (0xE0 OR x) = 0xE0 + unat x" unfolding p(1) by (subst unat_push_or) simp_all
  show "unat x < 16 \<Longrightarrow> unat (0xF0 OR x) = 0xF0 + unat x" unfolding p(2) by (subst unat_push_or) simp_all
  show "unat x < 64 \<Longrightarrow> unat (0x80 OR x) = 0x80 + unat x" unfolding p(3) by (subst unat_push_or) simp_all
  show "unat x < 32 \<Longrightarrow> unat (0xC0 OR x) = 0xC0 + unat x" unfolding p(4) by (subst unat_push_or) simp_all
qed

lemma unat_to_byte: "unat (w :: u32) < 256 \<Longrightarrow> unat (ucast w :: u8) = unat w"
  by (simp add: unsigned_ucast_eq take_bit_nat_eq_self)

lemma unat_shifts:
  fixes x :: u32
  shows "unat (drop_bit n x) = unat x div 2 ^ n"
  by (simp only: unat_drop_bit_eq) (simp add: drop_bit_eq_div)

lemma byte_lead:
  fixes x :: u32
  shows "unat x < 32 \<Longrightarrow> ucast (0xE0 OR x) = (word_of_nat (0xE0 + unat x) :: u8)"
    "unat x < 16 \<Longrightarrow> ucast (0xF0 OR x) = (word_of_nat (0xF0 + unat x) :: u8)"
    "unat x < 64 \<Longrightarrow> ucast (0x80 OR x) = (word_of_nat (0x80 + unat x) :: u8)"
    "unat x < 32 \<Longrightarrow> ucast (0xC0 OR x) = (word_of_nat (0xC0 + unat x) :: u8)"
  by (intro u8_eqI, subst unat_to_byte; simp add: unat_or_lead)+

lemma enc3_eq: "h < 0x10000 \<Longrightarrow> enc3 (word_of_nat h) = utf8_3 h"
  unfolding enc3_def utf8_3_def
  by (subst byte_lead; simp add: unat_shifts unat_and_masks unat_of_nat div_less_iff_less_mult)+

lemma enc4_eq:
  assumes "0x10000 \<le> c" "c < 0x110000"
  shows "enc4 (word_of_nat c) = utf8_cp c"
proof -
  have "unat (word_of_nat c :: u32) = c" using assms by (simp add: unat_of_nat)
  then show ?thesis using assms
  unfolding enc4_def utf8_cp_def
  by (subst byte_lead; simp add: unat_shifts unat_and_masks div_less_iff_less_mult)+
qed
section \<open>Unicode strings through modified UTF-8\<close>

lemma modified_copy:
  assumes "0 < n" "n < 240"
  shows "modified_bytes (word_of_nat n # bs) = word_of_nat n # modified_bytes bs" "overlong4 (word_of_nat n # bs) = overlong4 bs"
proof -
  have "unat (word_of_nat n :: u8) = n" using assms by simp
  moreover from this have "(word_of_nat n :: u8) \<noteq> 0" using assms by (metis unsigned_0 less_irrefl)
  ultimately show "modified_bytes (word_of_nat n # bs) = word_of_nat n # modified_bytes bs"
    "overlong4 (word_of_nat n # bs) = overlong4 bs"
    using assms by (simp_all add: isFourByteUTF8Encoding_def u8_high_bits)
qed

lemma lead_ranges:
  fixes c :: nat
  shows "c < 0x800 \<Longrightarrow> 0xC0 + c div 64 < 240" "c < 0x10000 \<Longrightarrow> 0xE0 + c div 4096 < 240" "0x80 + c mod 64 < 0xC0"
    "c < 0x110000 \<Longrightarrow> c div 262144 < 5"
  using mod_less_divisor [of 64 c] by (simp_all add: div_less_iff_less_mult less_diff_conv)

lemma utf8_code_eq:
  assumes "c < 0x110000"
  shows "unat (utf8_code (word_of_nat (0xF0 + c div 262144)) (word_of_nat (0x80 + c div 4096 mod 64))
     (word_of_nat (0x80 + c div 64 mod 64)) (word_of_nat (0x80 + c mod 64))) = c"
proof -
  have r: "c div 262144 < 5" "0x80 + c div 4096 mod 64 < 256" "0x80 + c div 64 mod 64 < 256" "0x80 + c mod 64 < 256"
    using lead_ranges(4) [OF assms] lead_ranges(3) [of c] lead_ranges(3) [of "c div 64"] lead_ranges(3) [of "c div 4096"] by simp_all
  have "(0xF0 + c div 262144) mod 8 = c div 262144" "(0x80 + x mod 64) mod 64 = x mod 64" for x :: nat
    using r(1) by (simp_all add: mod_simps mod_add_left_eq [symmetric])
  then show ?thesis using r split64 [of c]
    unfolding unat_utf8_code by (simp only: unat_u8)
qed

lemma modified_utf8_cp:
  assumes "scalar c"
  shows "modified_bytes (utf8_cp c @ rest) = mutf8_cp c @ modified_bytes rest \<and> overlong4 (utf8_cp c @ rest) = overlong4 rest"
proof -
  consider (nul) "c = 0" | "0 < c" "c < 0x80" | "0x80 \<le> c" "c < 0x800" | "0x800 \<le> c" "c < 0x10000" | (four) "0x10000 \<le> c" "c < 0x110000"
    using assms unfolding scalar_def by linarith
  then show ?thesis
  proof cases
    case nul
    then show ?thesis by (simp add: utf8_cp_def mutf8_cp_def)
  next
    case four
    let ?b = "word_of_nat (0xF0 + c div 262144) :: u8"
    let ?c = "utf8_code ?b (word_of_nat (0x80 + c div 4096 mod 64)) (word_of_nat (0x80 + c div 64 mod 64)) (word_of_nat (0x80 + c mod 64))"
    have b: "unat ?b = 0xF0 + c div 262144" "240 \<le> unat ?b" "unat ?b < 248"
      using lead_ranges(4) [of c] four by (simp_all del: of_nat_add)
    then have bz: "?b \<noteq> 0" "isFourByteUTF8Encoding ?b"
      by (metis unsigned_0 not_numeral_le_zero) (simp only: isFourByteUTF8Encoding_def u8_high_bits b(2,3) simp_thms)
    have c: "unat ?c = c" using four by (intro utf8_code_eq)
    then have "surrogates ?c = (word_of_nat (high_surrogate c), word_of_nat (low_surrogate c))"
      using surrogates_pair [of ?c] four by simp
    moreover have "\<not> ?c < 0x10000" using c four by (simp add: word_less_nat_alt)
    ultimately show ?thesis
      using four bz surrogate_range [of c]
      by (simp add: utf8_cp_def mutf8_cp_def enc3_eq del: of_nat_add)
  qed (use lead_ranges [of c] lead_ranges [of "c div 64"] in
      \<open>simp_all add: utf8_cp_def utf8_3_def mutf8_cp_def modified_copy
        del: of_nat_add modified_bytes.simps overlong4.simps\<close>)
qed

lemma modified_utf8_string:
  assumes "\<forall>c\<in>set cs. scalar c"
  shows "modified_bytes (utf8_string cs) = mutf8_string cs \<and> \<not> overlong4 (utf8_string cs)"
  using assms by (induction cs) (simp_all add: modified_utf8_cp)

lemma standard_copy:
  assumes "n < 256" "n \<noteq> 0xed" "n \<noteq> 0xc0"
  shows "standard_bytes (word_of_nat n # bs) = word_of_nat n # standard_bytes bs" "beyond19 (word_of_nat n # bs) = beyond19 bs"
proof -
  have "unat (word_of_nat n :: u8) = n" using assms by simp
  then have "(word_of_nat n :: u8) \<noteq> 0xed" "(word_of_nat n :: u8) \<noteq> 0xc0" using assms by (auto simp: word_unat_eq_iff)
  then show "standard_bytes (word_of_nat n # bs) = word_of_nat n # standard_bytes bs"
    "beyond19 (word_of_nat n # bs) = beyond19 bs"
    by (simp_all add: surrogate_pair_at_def)
qed

lemma standard_copy_ed:
  assumes "m < 256" "\<not> (0xa0 \<le> m \<and> m < 0xb0)"
  shows "standard_bytes (0xed # word_of_nat m # bs) = 0xed # standard_bytes (word_of_nat m # bs)"
    "beyond19 (0xed # word_of_nat m # bs) = beyond19 (word_of_nat m # bs)"
proof -
  have "unat (word_of_nat m :: u8) = m" using assms by simp
  then have "\<not> surrogate_pair_at (0xed # word_of_nat m # bs)"
    using assms(2) by (auto simp: surrogate_pair_at_def u8_high_bits)
  then show "standard_bytes (0xed # word_of_nat m # bs) = 0xed # standard_bytes (word_of_nat m # bs)"
    "beyond19 (0xed # word_of_nat m # bs) = beyond19 (word_of_nat m # bs)" by simp_all
qed

lemma unat_decode3: "unat (decode3ByteUTF8 b0 b1 b2) = (unat b0 mod 16) * 4096 + ((unat b1 mod 64) * 64 + unat b2 mod 64)"
proof -
  let ?a = "ucast b0 AND 0x0f :: u32" and ?b = "ucast b1 AND 0x3f :: u32" and ?c = "ucast b2 AND 0x3f :: u32"
  have bounds: "unat b0 mod 16 < 16" "unat b1 mod 64 < 64" "unat b2 mod 64 < 64" by simp_all
  have bc: "unat (push_bit 6 ?b OR ?c) = (unat b1 mod 64) * 64 + unat b2 mod 64"
    using bounds by (subst unat_push_or) (simp_all add: unat_and_masks)
  show ?thesis unfolding decode3ByteUTF8_def
    using bounds bc by (subst unat_push_or) (simp_all add: unat_and_masks)
qed

lemma decode3_utf8_3:
  assumes "h < 0x10000"
  shows "unat (decode3ByteUTF8 (utf8_3 h ! 0) (utf8_3 h ! 1) (utf8_3 h ! 2)) = h"
proof -
  have r: "h div 4096 < 16" "0x80 + h div 64 mod 64 < 256" "0x80 + h mod 64 < 256"
    using assms lead_ranges(3) [of h] lead_ranges(3) [of "h div 64"] by (simp_all add: div_less_iff_less_mult)
  have "(0xE0 + h div 4096) mod 16 = h div 4096" "(0x80 + x mod 64) mod 64 = x mod 64" for x :: nat
    using r(1) by (simp_all add: mod_simps mod_add_left_eq [symmetric])
  moreover have "h div 4096 mod 64 = h div 4096" "h div 262144 = 0" using assms r(1) by simp_all
  ultimately show ?thesis using r split64 [of h]
    unfolding unat_decode3 utf8_3_def by (simp del: of_nat_add)
qed

lemma pair_char_eq:
  assumes "0x10000 \<le> c" "c < 0x110000"
  shows "pair_char (utf8_3 (high_surrogate c) @ utf8_3 (low_surrogate c) @ rest) = word_of_nat c"
proof -
  let ?h = "high_surrogate c" and ?l = "low_surrogate c"
  let ?m = "utf8_3 ?h @ utf8_3 ?l @ rest"
  let ?a = "decode3ByteUTF8 (?m ! 0) (?m ! 1) (?m ! 2)" and ?b = "decode3ByteUTF8 (?m ! 3) (?m ! 4) (?m ! 5)"
  have "unat ?a = ?h" "unat ?b = ?l"
    using decode3_utf8_3 [of ?h] decode3_utf8_3 [of ?l] surrogate_range [OF assms(2)] by (simp_all add: utf8_3_def del: of_nat_add)
  moreover have q: "(c - 0x10000) div 1024 < 1024" using assms by (simp add: div_less_iff_less_mult)
  then have "?h mod 1024 = (c - 0x10000) div 1024" "?l mod 1024 = (c - 0x10000) mod 1024"
    by (simp_all add: high_surrogate_def low_surrogate_def mod_add_left_eq [symmetric])
  ultimately have "unat (push_bit 10 (?a AND 0x3ff) OR (?b AND 0x3ff)) = (c - 0x10000) div 1024 * 1024 + (c - 0x10000) mod 1024"
    using q by (subst unat_push_or) (simp_all add: unat_and_masks)
  also have "\<dots> = c - 0x10000" by simp
  finally have "unat (pair_char ?m) = c" using assms by (simp add: pair_char_def unat_word_ariths)
  then show ?thesis by (metis word_unat_eq_iff unat_of_nat mod_less unsigned_less)
qed

lemma surrogate_pair_at_eq:
  assumes "0x10000 \<le> c" "c < 0x110000"
  shows "surrogate_pair_at (utf8_3 (high_surrogate c) @ utf8_3 (low_surrogate c) @ rest)"
proof -
  let ?h = "high_surrogate c" and ?l = "low_surrogate c"
  note r = surrogate_range [OF assms(2)]
  have "?h div 4096 = 13" "?l div 4096 = 13" using r by (auto intro!: div_nat_eqI)
  moreover have "32 \<le> ?h div 64 mod 64 \<and> ?h div 64 mod 64 < 48" "48 \<le> ?l div 64 mod 64"
  proof -
    define x y where "x = ?h div 64" and "y = ?l div 64"
    have "864 \<le> x" "x < 880" "880 \<le> y" "y < 896" using r by (simp_all add: x_def y_def less_eq_div_iff_mult_less_eq div_less_iff_less_mult)
    then have "x mod 64 = x - 832" "y mod 64 = y - 832" by (simp_all add: mod_if)
    then show "32 \<le> ?h div 64 mod 64 \<and> ?h div 64 mod 64 < 48" "48 \<le> ?l div 64 mod 64"
      using \<open>864 \<le> x\<close> \<open>x < 880\<close> \<open>880 \<le> y\<close> unfolding x_def [symmetric] y_def [symmetric] by linarith+
  qed
  ultimately show ?thesis
    using lead_ranges(3) [of "?h div 64"] lead_ranges(3) [of "?l div 64"]
    by (simp add: surrogate_pair_at_def utf8_3_def u8_high_bits del: of_nat_add)
qed

lemma standard_mutf8_cp:
  assumes "scalar c"
  shows "standard_bytes (mutf8_cp c @ rest) = utf8_cp c @ standard_bytes rest \<and>
    beyond19 (mutf8_cp c @ rest) = (2 ^ 19 \<le> c \<or> beyond19 rest)"
proof -
  consider (one) "c < 0x80" | (two) "0x80 \<le> c" "c < 0x800" | (three) "0x800 \<le> c" "c < 0x10000"
    | (four) "0x10000 \<le> c" "c < 0x110000"
    using assms unfolding scalar_def by linarith
  then show ?thesis
  proof cases
    case one
    then show ?thesis
    proof (cases "c = 0")
      case False
      then show ?thesis using one
        by (simp add: mutf8_cp_def utf8_cp_def standard_copy del: standard_bytes.simps beyond19.simps)
    qed (simp add: mutf8_cp_def utf8_cp_def surrogate_pair_at_def)
  next
    case two
    then have "0xC0 + c div 64 \<noteq> 0xC0" "0xC0 + c div 64 < 0xE0" by (auto simp: div_less_iff_less_mult div_eq_0_iff)
    then show ?thesis using two lead_ranges(3) [of c]
      by (simp add: mutf8_cp_def utf8_cp_def standard_copy del: of_nat_add standard_bytes.simps beyond19.simps)
  next
    case three
    have k: "0x80 + c div 64 mod 64 < 0xC0" "0x80 + c mod 64 < 0xC0" "0xE0 + c div 4096 < 240"
      using three lead_ranges(2,3) [of c] lead_ranges(3) [of "c div 64"] by simp_all
    show ?thesis
    proof (cases "0xE0 + c div 4096 = 0xed")
      case True
      then have "c div 4096 = 13" by simp
      moreover have "\<not> (0xa0 \<le> 0x80 + c div 64 mod 64 \<and> 0x80 + c div 64 mod 64 < 0xb0)"
      proof -
        define x where "x = c div 64"
        have "c div 64 div 64 = 13" using \<open>c div 4096 = 13\<close> by (simp add: div_mult2_eq [symmetric])
        then have "0xD000 \<le> c" "c < 0xE000" using \<open>c div 4096 = 13\<close> by linarith+
        then have "c < 0xD800" using assms unfolding scalar_def by linarith
        then have "x < 864" by (simp add: x_def div_less_iff_less_mult)
        moreover have "x = 64 * 13 + x mod 64" using \<open>c div 64 div 64 = 13\<close> mult_div_mod_eq [of 64 x] by (simp add: x_def)
        ultimately show ?thesis unfolding x_def [symmetric] by linarith
      qed
      ultimately show ?thesis using three k
        by (simp add: mutf8_cp_def utf8_cp_def utf8_3_def standard_copy standard_copy_ed
          del: of_nat_add standard_bytes.simps beyond19.simps)
    next
      case False
      then show ?thesis using three k
        by (simp add: mutf8_cp_def utf8_cp_def utf8_3_def standard_copy del: of_nat_add standard_bytes.simps beyond19.simps)
    qed
  next
    case four
    let ?m = "utf8_3 (high_surrogate c) @ utf8_3 (low_surrogate c) @ rest"
    obtain b bs where m: "?m = b # bs" "drop 5 bs = rest" by (simp add: utf8_3_def)
    have "unat (word_of_nat c :: u32) = c" using four by (simp add: unat_of_nat)
    then show ?thesis
      using four surrogate_pair_at_eq [OF four, of rest] pair_char_eq [OF four, of rest] enc4_eq [OF four] m
      by (simp add: mutf8_cp_def)
  qed
qed

lemma standard_mutf8_string:
  assumes "\<forall>c\<in>set cs. scalar c"
  shows "standard_bytes (mutf8_string cs) = utf8_string cs \<and> beyond19 (mutf8_string cs) = (\<exists>c\<in>set cs. 2 ^ 19 \<le> c)"
  using assms by (induction cs) (simp_all add: standard_mutf8_cp)
section \<open>UTF-16 and NUL-terminated strings\<close>

fun utf16_bytes :: "u16 list \<Rightarrow> u8 list" where
  "utf16_bytes [] = []"
| "utf16_bytes (ch # s) =
    (let c = (ucast ch :: u32) in
     if ch < kUtf8OneByteBoundary then ucast (c AND 0x7F) # utf16_bytes s
     else if ch < kUtf8TwoBytesBoundary
     then [ucast (0xC0 OR drop_bit 6 c), ucast (0x80 OR (c AND 0x3F))] @ utf16_bytes s
     else if kUtf16HighSubLowBoundary \<le> ch \<and> ch < kUtf16HighSubHighBoundary \<and> low_surrogate_next s
     then let ch2 = (ucast (hd s) :: u32);
              trunc_byte = (ucast ((drop_bit 6 c AND 0x0F) + 1) :: u8)
          in [ucast (0xF0 OR drop_bit 2 (ucast trunc_byte :: u32)),
             ucast (0x80 OR push_bit 4 (ucast trunc_byte AND 0x03) OR (drop_bit 2 c AND 0x0F) :: u32),
             ucast (0x80 OR push_bit 4 (c AND 0x03) OR (drop_bit 6 ch2 AND 0x0F)),
             ucast (0x80 OR (ch2 AND 0x3F))] @ utf16_bytes (tl s)
     else enc3 c @ utf16_bytes s)"

lemma length_utf16_bytes: "length (utf16_bytes s) \<le> 3 * length s"
proof (induction s rule: length_induct)
  case (1 s)
  show ?case
  proof (cases s)
    case (Cons ch s')
    have "length (utf16_bytes s') \<le> 3 * length s'" "s' \<noteq> [] \<Longrightarrow> length (utf16_bytes (tl s')) + 3 \<le> 3 * length s'"
      using 1 [rule_format, of s'] 1 [rule_format, of "tl s'"] Cons by (cases s', simp_all)+
    moreover have "s' \<noteq> []" if "low_surrogate_next s'" using that by (simp add: low_surrogate_next_def)
    ultimately show ?thesis
      unfolding Cons utf16_bytes.simps Let_def
      by (simp only: if_distrib [of length] length_append length_Cons list.size length_enc3 length_tl) auto
  qed simp
qed

lemma utf16toUTF8Length_eq: "utf16toUTF8Length s = word_of_nat (length (utf16_bytes s))"
  by (induction s rule: utf16toUTF8Length.induct) (simp_all add: Let_def)

lemma utf16toUTF8_loop_eq:
  "utf16toUTF8_loop s (w @ zs) (length w) =
    (if length (utf16_bytes s) \<le> length zs
     then Done (w @ utf16_bytes s @ drop (length (utf16_bytes s)) zs) else Overrun)"
proof (induction s arbitrary: w zs rule: utf16_bytes.induct)
  case (2 ch s)
  have one: "store_all out j [b] = store out j b" for out j b
    by (cases "store out j b") (simp_all add: store_all.simps)
  have step: "bind_outcome (store_all (w @ zs) (length w) B) (\<lambda>out. utf16toUTF8_loop s' out (length w + length B)) =
      (if length (B @ utf16_bytes s') \<le> length zs
       then Done (w @ (B @ utf16_bytes s') @ drop (length (B @ utf16_bytes s')) zs) else Overrun)"
    if "\<And>w zs. utf16toUTF8_loop s' (w @ zs) (length w) =
      (if length (utf16_bytes s') \<le> length zs
       then Done (w @ utf16_bytes s' @ drop (length (utf16_bytes s')) zs) else Overrun)" for B s'
    using that [of "w @ B" "drop (length B) zs"] by (auto simp: store_all_append add.commute)
  let ?c = "ucast ch :: u32" and ?ch2 = "ucast (hd s) :: u32"
  let ?t = "ucast ((drop_bit 6 ?c AND 0x0F) + 1) :: u8"
  let ?four = "[ucast (0xF0 OR drop_bit 2 (ucast ?t :: u32)),
             ucast (0x80 OR push_bit 4 (ucast ?t AND 0x03) OR (drop_bit 2 ?c AND 0x0F) :: u32),
             ucast (0x80 OR push_bit 4 (?c AND 0x03) OR (drop_bit 6 ?ch2 AND 0x0F)),
             ucast (0x80 OR (?ch2 AND 0x3F))] :: u8 list"
  consider (1) "ch < kUtf8OneByteBoundary" | (2) "\<not> ch < kUtf8OneByteBoundary" "ch < kUtf8TwoBytesBoundary"
    | (4) "\<not> ch < kUtf8OneByteBoundary" "\<not> ch < kUtf8TwoBytesBoundary"
        "kUtf16HighSubLowBoundary \<le> ch \<and> ch < kUtf16HighSubHighBoundary \<and> low_surrogate_next s"
    | (3) "\<not> ch < kUtf8OneByteBoundary" "\<not> ch < kUtf8TwoBytesBoundary"
        "\<not> (kUtf16HighSubLowBoundary \<le> ch \<and> ch < kUtf16HighSubHighBoundary \<and> low_surrogate_next s)" by blast
  then show ?case
  proof cases
    case 1
    then show ?thesis
      unfolding utf16toUTF8_loop.simps utf16_bytes.simps Let_def one [symmetric]
      using step [OF 2(1) [OF refl 1], of "[ucast (?c AND 0x7F)]"] by simp
  next
    case 2
    then show ?thesis
      unfolding utf16toUTF8_loop.simps utf16_bytes.simps Let_def 
      using step [OF "2.IH"(2) [OF refl 2], of "[ucast (0xC0 OR drop_bit 6 ?c), ucast (0x80 OR (?c AND 0x3F))]"] by simp
  next
    case 4
    then show ?thesis
      unfolding utf16toUTF8_loop.simps utf16_bytes.simps Let_def
      using step [OF "2.IH"(3) [OF refl 4 refl refl], of ?four] by (simp add: numeral_eq_Suc)
  next
    case 3
    then show ?thesis
      unfolding utf16toUTF8_loop.simps utf16_bytes.simps Let_def if_not_P [OF 3(1)] if_not_P [OF 3(2)] if_not_P [OF 3(3)]
        enc3_def [symmetric]
      using step [OF "2.IH"(4) [OF refl 3], of "enc3 ?c"] by simp
  qed
qed simp

lemma utf16toUTF8_eq:
  assumes "3 * length s < 2 ^ 32"
  shows "utf16toUTF8 (Some s) = Done (utf16_bytes s)"
proof -
  have "unat (utf16toUTF8Length s) = length (utf16_bytes s)"
    using length_utf16_bytes [of s] assms by (simp add: utf16toUTF8Length_eq unat_of_nat)
  then show ?thesis
    using utf16toUTF8_loop_eq [of s "[]" "replicate (length (utf16_bytes s)) 0"] by (simp add: utf16toUTF8_def)
qed

lemma unat_u16 [simp]: "n < 65536 \<Longrightarrow> unat (word_of_nat n :: u16) = n"
  by (simp add: unat_of_nat)

lemma unat_ucast_u16 [simp]: "unat (ucast (x :: u16) :: u32) = unat x"
  using unsigned_less [of x, where 'a = nat] by (simp add: unsigned_ucast_eq take_bit_nat_eq_self_iff)

lemma u16_less: "(x < (numeral k :: u16)) = (unat x < unat (numeral k :: u16))" "((numeral k :: u16) \<le> x) = (unat (numeral k :: u16) \<le> unat x)"
  by (simp_all add: word_less_nat_alt word_le_nat_alt)

lemma mod_add_multiple: "(k :: nat) mod m = 0 \<Longrightarrow> (x + k) mod m = x mod m"
  by (metis add_0_right mod_add_eq mod_mod_trivial)

lemma surrogate_bytes:
  assumes "0x10000 \<le> c" "c < 0x110000"
  shows "high_surrogate c div 64 mod 16 + 1 = c div 65536"
    "(c div 65536 mod 4) * 16 + high_surrogate c div 4 mod 16 = c div 4096 mod 64"
    "(high_surrogate c mod 4) * 16 + low_surrogate c div 64 mod 16 = c div 64 mod 64"
    "low_surrogate c mod 64 = c mod 64"
proof -
  define d where "d = c - 0x10000"
  have c: "c = d + 65536" "d < 1048576" using assms by (simp_all add: d_def)
  have h: "high_surrogate c = d div 1024 + 55296" and l: "low_surrogate c = d mod 1024 + 56320"
    by (simp_all add: high_surrogate_def low_surrogate_def d_def)
  have drop_mod: "(x + 864) mod 16 = x mod 16" "(x + 880) mod 16 = x mod 16" "(x + 13824) mod 16 = x mod 16"
    "(x + 55296) mod 4 = x mod 4" "(x + 1024) mod 64 = x mod 64"
    "(x + 65536) mod 64 = x mod 64" "(x + 56320) mod 64 = x mod 64" "(x + 16) mod 16 = x mod 16" for x :: nat
    by (rule mod_add_multiple, simp)+
  have c16: "c div 65536 = d div 65536 + 1" "c div 4096 = d div 4096 + 16" "c div 64 = d div 64 + 1024"
    unfolding c(1) by simp_all
  have "(d div 1024 + 55296) div 64 = d div 65536 + 864" by (simp add: div_mult2_eq [symmetric])
  moreover have "d div 65536 < 16" using c(2) by (simp add: div_less_iff_less_mult)
  ultimately show "high_surrogate c div 64 mod 16 + 1 = c div 65536"
    unfolding h c16 by (simp only: drop_mod) simp
  have "(d div 1024 + 55296) div 4 = d div 4096 + 13824" by (simp add: div_mult2_eq [symmetric])
  moreover have "c div 4096 div 16 = c div 65536" by (simp add: div_mult2_eq [symmetric])
  moreover have "c div 4096 mod 16 = d div 4096 mod 16" unfolding c16 by (simp only: drop_mod)
  ultimately show "(c div 65536 mod 4) * 16 + high_surrogate c div 4 mod 16 = c div 4096 mod 64"
    unfolding h using mod_mult2_eq [of "c div 4096" 16 4] by (simp only: drop_mod) simp
  have e1: "(d mod 1024 + 56320) div 64 = d mod 1024 div 64 + 880" by simp
  have e2: "d mod 1024 div 64 = d div 64 mod 16" using mod_mult2_eq [of d 64 16] by simp
  have e3: "d div 1024 = d div 64 div 16" by (simp add: div_mult2_eq [symmetric])
  have e4: "c div 64 mod 64 = d div 64 mod 64" unfolding c16 by (simp only: drop_mod)
  have "16 * 4 = (64 :: nat)" by simp
  from mod_mult2_eq [of "d div 64" 16 4, unfolded this]
  have "d div 64 mod 64 = 16 * (d div 64 div 16 mod 4) + d div 64 mod 16" .
  then show "(high_surrogate c mod 4) * 16 + low_surrogate c div 64 mod 16 = c div 64 mod 64"
    unfolding h l e1 e4 drop_mod e2 by (simp only: e3 mod_mod_trivial mult.commute)
  have "c mod 64 = d mod 64" unfolding c(1) by (simp only: drop_mod)
  then show "low_surrogate c mod 64 = c mod 64" unfolding l by (simp only: drop_mod) (simp add: mod_mod_cancel)
qed

lemma byte_lead2:
  fixes x y :: u32
  assumes "unat x < 4" "unat y < 16"
  shows "ucast (0x80 OR push_bit 4 x OR y) = (word_of_nat (0x80 + (unat x * 16 + unat y)) :: u8)"
proof -
  have "unat (push_bit 4 x OR y) = unat x * 16 + unat y" using assms by (subst unat_push_or) simp_all
  then show ?thesis using assms by (subst byte_lead(3)) simp_all
qed

lemma utf16_bytes_cp:
  assumes "scalar c"
  shows "utf16_bytes (utf16_cp c @ rest) = utf8_cp c @ utf16_bytes rest"
proof -
  consider (one) "c < 0x80" | (two) "0x80 \<le> c" "c < 0x800" | (three) "0x800 \<le> c" "c < 0x10000"
    | (four) "0x10000 \<le> c" "c < 0x110000"
    using assms unfolding scalar_def by linarith
  then show ?thesis
  proof cases
    case one
    then have u: "unat (word_of_nat c :: u16) = c" by simp
    have "ucast (ucast (word_of_nat c :: u16) AND 0x7F :: u32) = (word_of_nat c :: u8)"
      using one u by (intro u8_eqI, subst unat_to_byte) (simp_all add: unat_and_masks)
    then show ?thesis using one u by (simp add: utf16_cp_def utf8_cp_def Let_def boundary_defs word_less_nat_alt)
  next
    case two
    then have u: "unat (word_of_nat c :: u16) = c" by simp
    have "c div 64 < 32" using two by (simp add: div_less_iff_less_mult)
    then have "ucast (0xC0 OR drop_bit 6 (ucast (word_of_nat c :: u16) :: u32)) = (word_of_nat (0xC0 + c div 64) :: u8)"
      "ucast (0x80 OR (ucast (word_of_nat c :: u16) AND 0x3F) :: u32) = (word_of_nat (0x80 + c mod 64) :: u8)"
      using u by (subst byte_lead; simp add: unat_shifts unat_and_masks)+
    then show ?thesis using two u
      by (simp add: utf16_cp_def utf8_cp_def Let_def boundary_defs word_less_nat_alt del: of_nat_add)
  next
    case three
    then have u: "unat (word_of_nat c :: u16) = c" by simp
    have "(ucast (word_of_nat c :: u16) :: u32) = word_of_nat c" using u three by (simp add: word_unat_eq_iff unat_of_nat)
    then show ?thesis using three u enc3_eq [of c] assms
      by (auto simp add: utf16_cp_def utf8_cp_def scalar_def Let_def boundary_defs word_less_nat_alt word_le_nat_alt)
  next
    case four
    let ?h = "high_surrogate c" and ?l = "low_surrogate c"
    let ?H = "ucast (word_of_nat ?h :: u16) :: u32" and ?L = "ucast (word_of_nat ?l :: u16) :: u32"
    note r = surrogate_range [OF four(2)]
    have u: "unat (word_of_nat ?h :: u16) = ?h" "unat (word_of_nat ?l :: u16) = ?l" using r by simp_all
    let ?t = "ucast ((drop_bit 6 ?H AND 0x0F) + 1) :: u8"
    have c16: "c div 65536 < 17" "c div 65536 div 4 = c div 262144" "c div 262144 < 16"
      using four by (simp_all add: div_less_iff_less_mult div_mult2_eq [symmetric])
    have "unat ((drop_bit 6 ?H AND 0x0F) + 1) = c div 65536"
      using surrogate_bytes(1) [OF four] u by (simp add: unat_word_ariths unat_and_masks unat_shifts)
    then have t: "unat (ucast ?t :: u32) = c div 65536" using c16(1) by (simp add: unat_to_byte)
    have x: "unat (drop_bit 2 (ucast ?t :: u32)) = c div 262144" "unat (ucast ?t AND 0x03 :: u32) = c div 65536 mod 4"
      "unat (drop_bit 2 ?H AND 0x0F) = ?h div 4 mod 16" "unat (?H AND 0x03) = ?h mod 4"
      "unat (drop_bit 6 ?L AND 0x0F) = ?l div 64 mod 16" "unat (?L AND 0x3F) = ?l mod 64"
      unfolding unat_shifts unat_and_masks t unat_ucast_u16 u using c16(2) by simp_all
    have b: "ucast (0xF0 OR drop_bit 2 (ucast ?t :: u32)) = (word_of_nat (0xF0 + c div 262144) :: u8)"
      "ucast (0x80 OR push_bit 4 (ucast ?t AND 0x03) OR (drop_bit 2 ?H AND 0x0F) :: u32)
        = (word_of_nat (0x80 + c div 4096 mod 64) :: u8)"
      "ucast (0x80 OR push_bit 4 (?H AND 0x03) OR (drop_bit 6 ?L AND 0x0F)) = (word_of_nat (0x80 + c div 64 mod 64) :: u8)"
      "ucast (0x80 OR (?L AND 0x3F)) = (word_of_nat (0x80 + c mod 64) :: u8)"
      using c16(3) byte_lead(2) [of "drop_bit 2 (ucast ?t :: u32)"] byte_lead(3) [of "?L AND 0x3F"]
        byte_lead2 [of "ucast ?t AND 0x03" "drop_bit 2 ?H AND 0x0F"] byte_lead2 [of "?H AND 0x03" "drop_bit 6 ?L AND 0x0F"]
      unfolding x surrogate_bytes [OF four] by (simp_all only: mod_less_divisor zero_less_numeral)
    have g: "\<not> word_of_nat ?h < kUtf8OneByteBoundary" "\<not> word_of_nat ?h < kUtf8TwoBytesBoundary"
      "kUtf16HighSubLowBoundary \<le> word_of_nat ?h \<and> word_of_nat ?h < kUtf16HighSubHighBoundary \<and>
        low_surrogate_next (word_of_nat ?l # rest)"
      using r u by (simp_all add: low_surrogate_next_def boundary_defs word_less_nat_alt word_le_nat_alt)
    have s: "utf16_cp c @ rest = word_of_nat ?h # word_of_nat ?l # rest" "utf8_cp c = [word_of_nat (0xF0 + c div 262144),
        word_of_nat (0x80 + c div 4096 mod 64), word_of_nat (0x80 + c div 64 mod 64), word_of_nat (0x80 + c mod 64)]"
      using four by (simp_all add: utf16_cp_def utf8_cp_def)
    show ?thesis
      unfolding s utf16_bytes.simps(2) [of "word_of_nat ?h" "word_of_nat ?l # rest"] Let_def if_not_P [OF g(1)] if_not_P [OF g(2)] if_P [OF g(3)]
        list.sel b by simp
  qed
qed

lemma utf16_bytes_string:
  assumes "\<forall>c\<in>set cs. scalar c"
  shows "utf16_bytes (utf16_string cs) = utf8_string cs"
  using assms by (induction cs) (simp_all add: utf16_bytes_cp)

lemma zero_within_eq:
  assumes "0 \<notin> set s"
  shows "zero_within k (s @ 0 # mem) = Done (length s < k)"
  using assms
proof (induction k arbitrary: s)
  case (Suc k)
  then show ?case by (cases s) auto
qed simp

lemma modifiedLength_cstr_eq:
  assumes "0 \<notin> set s"
  shows "modifiedLength_cstr (s @ 0 # mem) = Done (length s, modifiedLength s)"
  using assms
proof (induction s rule: modifiedLength.induct)
  case (2 b bs)
  have z: "zero_within 3 (bs @ 0 # mem) = Done (length bs < 3)" using 2 by (intro zero_within_eq) simp
  show ?case
  proof (cases "length (b # bs) < 4 \<or> \<not> isFourByteUTF8Encoding b")
    case True
    then have "length bs < 3 \<or> \<not> isFourByteUTF8Encoding b" by auto
    then show ?thesis using True z 2 by simp
  next
    case False
    then have "drop 3 (bs @ 0 # mem) = drop 3 bs @ 0 # mem" "0 \<notin> set (drop 3 bs)"
      using 2(4) by (auto dest: in_set_dropD)
    then show ?thesis using False z 2 by simp
  qed
qed simp
section \<open>Correctness of the conversions\<close>

lemma make_jstring_eq:
  assumes "0 \<notin> set s"
  shows "make_jstring android (s @ 0 # mem) =
    (if modifiedLength s = length s then Done (s @ 0 # mem)
     else if android \<or> \<not> overlong4 s then Done (modified_bytes s @ [0]) else Abort)"
  using utf8ToModifiedUTF8_eq [of android s "replicate (modifiedLength s + 1) 0"]
  unfolding make_jstring_def modifiedLength_cstr_eq [OF assms] by simp

lemma modified_bytes_same: "0 \<notin> set s \<Longrightarrow> modifiedLength s = length s \<Longrightarrow> modified_bytes s = s"
proof (induction s rule: modified_bytes.induct)
  case (2 b bs)
  have ge: "length xs \<le> modifiedLength xs" for xs by (induction xs rule: modifiedLength.induct) auto
  show ?case
  proof (cases "length (b # bs) < 4 \<or> \<not> isFourByteUTF8Encoding b")
    case True
    then show ?thesis using 2 by auto
  next
    case False
    then show ?thesis using 2(4,5) ge [of "drop 3 bs"] by (auto split: if_splits)
  qed
qed simp

lemma utf8_cp_nonzero:
  assumes "scalar c" "0 < c"
  shows "0 \<notin> set (utf8_cp c)"
proof -
  have nz: "(word_of_nat n :: u8) \<noteq> 0" if "0 < n" "n < 256" for n
    using that by (metis unat_u8 unsigned_0 less_irrefl)
  have r: "c < 0x800 \<Longrightarrow> 0xC0 + c div 64 < 256" "c < 0x10000 \<Longrightarrow> 0xE0 + c div 4096 < 256" "0x80 + x mod 64 < 256"
    "0xF0 + c div 262144 < 256" for x :: nat
    using lead_ranges [of c] lead_ranges(3) [of x] assms unfolding scalar_def by linarith+
  show ?thesis
    using assms(2) nz r by (auto simp: utf8_cp_def utf8_3_def simp del: of_nat_add)
qed

text \<open>C37. Bounds of \<open>utf8ToModifiedUTF8\<close>, for arbitrary bytes: it writes \<open>modifiedLength\<close> bytes and a
  NUL, and leaves the rest of the buffer alone, when they fit; four-byte forms of characters that
  do not need them end the process where \<open>FBJNI_LOGF\<close> aborts. When they do not fit, the
  checks for a short buffer prevent the overrun only where \<open>FBJNI_LOGF\<close> aborts: on Android the
  code logs and writes past the end.\<close>

theorem utf8ToModifiedUTF8_bounds:
  "utf8ToModifiedUTF8 android s buf (length buf) =
    (if modifiedLength s < length buf \<and> (android \<or> \<not> overlong4 s)
     then Done (modified_bytes s @ 0 # drop (modifiedLength s + 1) buf)
     else if android then Overrun else Abort)
   \<and> length (modified_bytes s) = modifiedLength s"
  using utf8ToModifiedUTF8_eq length_modified_bytes by simp

theorem utf8ToModifiedUTF8_bounds_witness:
  "utf8ToModifiedUTF8 True [0x41, 0] [1, 1, 1] 3 = Overrun \<and> utf8ToModifiedUTF8 False [0x41, 0] [1, 1, 1] 3 = Abort \<and>
   utf8ToModifiedUTF8 False [0x41] [1, 1, 1] 3 = Done [0x41, 0, 1]"
  using utf8ToModifiedUTF8_bounds [of True "[0x41, 0]" "[1, 1, 1]"] utf8ToModifiedUTF8_bounds [of False "[0x41, 0]" "[1, 1, 1]"]
    utf8ToModifiedUTF8_bounds [of False "[0x41]" "[1, 1, 1]"] by (simp add: numeral_3_eq_3)

text \<open>C38. Round trip: for every sequence of Unicode scalar values, the conversion of its UTF-8 form
  yields its modified UTF-8 form (NUL as two bytes, supplementary characters as surrogate
  pairs) and \<open>modifiedLength\<close> is its exact length; converting back yields the UTF-8 form, except
  that a build in which \<open>FBJNI_LOGF\<close> aborts dies on the characters from U+80000 on.\<close>

theorem modified_utf8_roundtrip:
  assumes "\<forall>c\<in>set cs. scalar c" "length buf = modifiedLength (utf8_string cs) + 1"
  shows "utf8ToModifiedUTF8 android (utf8_string cs) buf (length buf) = Done (mutf8_string cs @ [0]) \<and>
    modifiedLength (utf8_string cs) = length (mutf8_string cs) \<and>
    modifiedUTF8ToUTF8 android (mutf8_string cs) =
      (if android \<or> (\<forall>c\<in>set cs. c < 0x80000) then Done (utf8_string cs) else Abort)"
  using utf8ToModifiedUTF8_eq [of android "utf8_string cs" buf] length_modified_bytes [of "utf8_string cs"]
    modified_utf8_string [OF assms(1)] modifiedUTF8ToUTF8_eq [of android "mutf8_string cs"]
    standard_mutf8_string [OF assms(1)] assms(2)
  by (auto simp: not_less)

theorem modified_utf8_roundtrip_witness:
  "utf8ToModifiedUTF8 False [0x41, 0xF0, 0x9F, 0x98, 0x80, 0] (replicate 10 0) 10
      = Done [0x41, 0xED, 0xA0, 0xBD, 0xED, 0xB8, 0x80, 0xC0, 0x80, 0] \<and>
   modifiedUTF8ToUTF8 False [0x41, 0xED, 0xA0, 0xBD, 0xED, 0xB8, 0x80, 0xC0, 0x80] = Done [0x41, 0xF0, 0x9F, 0x98, 0x80, 0]"
proof -
  have e: "utf8_string [0x41, 0x1F600, 0] = [0x41, 0xF0, 0x9F, 0x98, 0x80, 0]"
    "mutf8_string [0x41, 0x1F600, 0] = [0x41, 0xED, 0xA0, 0xBD, 0xED, 0xB8, 0x80, 0xC0, 0x80]"
    by (simp_all add: utf8_cp_def utf8_3_def mutf8_cp_def high_surrogate_def low_surrogate_def)
  have "\<forall>c\<in>set [0x41, 0x1F600, 0]. scalar c" "length (replicate 10 0) = modifiedLength (utf8_string [0x41, 0x1F600, 0]) + 1"
    unfolding e by (simp_all add: scalar_def isFourByteUTF8Encoding_def)
  from modified_utf8_roundtrip [OF this, of False] show ?thesis unfolding e by simp
qed

text \<open>Strings for Java: \<open>make_jstring\<close> passes to \<open>NewStringUTF\<close> the modified UTF-8 form of every
  NUL-terminated UTF-8 string, NUL-terminated, whether or not it takes the short cut for strings that need
  no conversion; it never reads past the terminator.\<close>

theorem make_jstring_correct:
  assumes "\<forall>c\<in>set cs. scalar c \<and> 0 < c"
  shows "\<exists>tail. make_jstring android (utf8_string cs @ 0 # mem) = Done (mutf8_string cs @ 0 # tail)"
proof -
  have "0 \<notin> set (utf8_string cs)" using assms by (auto dest: utf8_cp_nonzero)
  from make_jstring_eq [OF this, of android mem] modified_bytes_same [OF this] modified_utf8_string [of cs] assms
  show ?thesis by (cases "modifiedLength (utf8_string cs) = length (utf8_string cs)") auto
qed

theorem make_jstring_correct_witness:
  "\<exists>tail. make_jstring True [0x41, 0xF0, 0x9F, 0x98, 0x80, 0] = Done (mutf8_string [0x41, 0x1F600] @ 0 # tail)"
  using make_jstring_correct [of "[0x41, 0x1F600]" True "[]"] by (simp add: scalar_def utf8_cp_def)

text \<open>UTF-16 to UTF-8: for every sequence of Unicode scalar values whose UTF-16 form is short enough for the
  32-bit length counter, \<open>utf16toUTF8\<close> returns exactly its UTF-8 form; and for arbitrary UTF-16 (unpaired
  surrogates included) of that size the buffer it allocates is filled exactly and never overrun.\<close>

theorem utf16toUTF8_correct:
  assumes "3 * length s < 2 ^ 32"
  shows "(\<exists>out. utf16toUTF8 (Some s) = Done out \<and> length out = unat (utf16toUTF8Length s)) \<and>
    (\<forall>cs. (\<forall>c\<in>set cs. scalar c) \<longrightarrow> s = utf16_string cs \<longrightarrow> utf16toUTF8 (Some s) = Done (utf8_string cs))"
proof -
  have "unat (utf16toUTF8Length s) = length (utf16_bytes s)"
    using length_utf16_bytes [of s] assms by (simp add: utf16toUTF8Length_eq unat_of_nat)
  then show ?thesis using utf16toUTF8_eq [OF assms] utf16_bytes_string by auto
qed

theorem utf16toUTF8_correct_witness:
  "utf16toUTF8 (Some [0x41, 0xD83D, 0xDE00]) = Done [0x41, 0xF0, 0x9F, 0x98, 0x80]"
proof -
  have e: "utf16_string [0x41, 0x1F600] = [0x41, 0xD83D, 0xDE00]" "utf8_string [0x41, 0x1F600] = [0x41, 0xF0, 0x9F, 0x98, 0x80]"
    by (simp_all add: utf16_cp_def utf8_cp_def high_surrogate_def low_surrogate_def)
  have "\<forall>c\<in>set [0x41, 0x1F600]. scalar c" by (simp add: scalar_def)
  moreover have "3 * length ([0x41, 0xD83D, 0xDE00] :: u16 list) < 2 ^ 32" by simp
  ultimately show ?thesis using utf16toUTF8_correct [of "[0x41, 0xD83D, 0xDE00]"] e by metis
qed
end
