(* ===== verification/Hde64.thy ===== *)
theory Hde64
  imports Prelude "HOL-Library.Monad_Syntax"
begin

text \<open>
  The length disassembler for x86-64 (\<open>alloctrack/src/main/cpp/Substrate/hde64.c\<close> with its tables in
  \<open>table64.h\<close> and its result in \<open>hde64.h\<close>) that the hooking library uses to find whole instructions.
  The code to be disassembled is memory, a function from the offset to the byte. Accesses to the
  table are checked: outside of \<open>hde64_table\<close> they are \<open>None\<close>. The phases of the function are
  definitions of their own that pass a record of its local variables along; \<open>d_p\<close> is the
  offset of the read pointer \<open>p\<close> from the start of the instruction.
\<close>

section \<open>Constants and the table\<close>

definition C_MODRM :: u8 where "C_MODRM = 0x01"
definition C_IMM8 :: u8 where "C_IMM8 = 0x02"
definition C_IMM16 :: u8 where "C_IMM16 = 0x04"
definition C_IMM_P66 :: u8 where "C_IMM_P66 = 0x10"
definition C_REL8 :: u8 where "C_REL8 = 0x20"
definition C_REL32 :: u8 where "C_REL32 = 0x40"
definition C_GROUP :: u8 where "C_GROUP = 0x80"
definition C_ERROR :: u8 where "C_ERROR = 0xff"
definition PRE_NONE :: u8 where "PRE_NONE = 0x01"
definition PRE_F2 :: u8 where "PRE_F2 = 0x02"
definition PRE_F3 :: u8 where "PRE_F3 = 0x04"
definition PRE_66 :: u8 where "PRE_66 = 0x08"
definition PRE_67 :: u8 where "PRE_67 = 0x10"
definition PRE_LOCK :: u8 where "PRE_LOCK = 0x20"
definition PRE_SEG :: u8 where "PRE_SEG = 0x40"
definition DELTA_OPCODES :: nat where "DELTA_OPCODES = 0x4a"
definition DELTA_FPU_REG :: nat where "DELTA_FPU_REG = 0xfd"
definition DELTA_FPU_MODRM :: nat where "DELTA_FPU_MODRM = 0x104"
definition DELTA_PREFIXES :: nat where "DELTA_PREFIXES = 0x13c"
definition DELTA_OP_LOCK_OK :: nat where "DELTA_OP_LOCK_OK = 0x1ae"
definition DELTA_OP2_LOCK_OK :: nat where "DELTA_OP2_LOCK_OK = 0x1c6"
definition DELTA_OP_ONLY_MEM :: nat where "DELTA_OP_ONLY_MEM = 0x1d8"
definition DELTA_OP2_ONLY_MEM :: nat where "DELTA_OP2_ONLY_MEM = 0x1e7"

definition F_MODRM :: u32 where "F_MODRM = 0x1"
definition F_SIB :: u32 where "F_SIB = 0x2"
definition F_IMM8 :: u32 where "F_IMM8 = 0x4"
definition F_IMM16 :: u32 where "F_IMM16 = 0x8"
definition F_IMM32 :: u32 where "F_IMM32 = 0x10"
definition F_IMM64 :: u32 where "F_IMM64 = 0x20"
definition F_DISP8 :: u32 where "F_DISP8 = 0x40"
definition F_DISP16 :: u32 where "F_DISP16 = 0x80"
definition F_DISP32 :: u32 where "F_DISP32 = 0x100"
definition F_RELATIVE :: u32 where "F_RELATIVE = 0x200"
definition F_ERROR :: u32 where "F_ERROR = 0x1000"
definition F_ERROR_OPCODE :: u32 where "F_ERROR_OPCODE = 0x2000"
definition F_ERROR_LENGTH :: u32 where "F_ERROR_LENGTH = 0x4000"
definition F_ERROR_LOCK :: u32 where "F_ERROR_LOCK = 0x8000"
definition F_ERROR_OPERAND :: u32 where "F_ERROR_OPERAND = 0x10000"
definition F_PREFIX_REX :: u32 where "F_PREFIX_REX = 0x40000000"

lemmas c_defs = C_MODRM_def C_IMM8_def C_IMM16_def C_IMM_P66_def C_REL8_def C_REL32_def
  C_GROUP_def C_ERROR_def PRE_NONE_def PRE_F2_def PRE_F3_def PRE_66_def
  PRE_67_def PRE_LOCK_def PRE_SEG_def

lemmas delta_defs = DELTA_OPCODES_def DELTA_FPU_REG_def DELTA_FPU_MODRM_def DELTA_PREFIXES_def DELTA_OP_LOCK_OK_def DELTA_OP2_LOCK_OK_def
  DELTA_OP_ONLY_MEM_def DELTA_OP2_ONLY_MEM_def

lemmas f_defs = F_MODRM_def F_SIB_def F_IMM8_def F_IMM16_def F_IMM32_def F_IMM64_def
  F_DISP8_def F_DISP16_def F_DISP32_def F_RELATIVE_def F_ERROR_def F_ERROR_OPCODE_def
  F_ERROR_LENGTH_def F_ERROR_LOCK_def F_ERROR_OPERAND_def F_PREFIX_REX_def

definition hde64_table :: "u8 list" where
  "hde64_table = [
    0xa5, 0xaa, 0xa5, 0xb8, 0xa5, 0xaa, 0xa5, 0xaa, 0xa5, 0xb8, 0xa5, 0xb8, 0xa5, 0xb8, 0xa5,
    0xb8, 0xc0, 0xc0, 0xc0, 0xc0, 0xc0, 0xc0, 0xc0, 0xc0, 0xac, 0xc0, 0xcc, 0xc0, 0xa1, 0xa1,
    0xa1, 0xa1, 0xb1, 0xa5, 0xa5, 0xa6, 0xc0, 0xc0, 0xd7, 0xda, 0xe0, 0xc0, 0xe4, 0xc0, 0xea,
    0xea, 0xe0, 0xe0, 0x98, 0xc8, 0xee, 0xf1, 0xa5, 0xd3, 0xa5, 0xa5, 0xa1, 0xea, 0x9e, 0xc0,
    0xc0, 0xc2, 0xc0, 0xe6, 0x03, 0x7f, 0x11, 0x7f, 0x01, 0x7f, 0x01, 0x3f, 0x01, 0x01, 0xab,
    0x8b, 0x90, 0x64, 0x5b, 0x5b, 0x5b, 0x5b, 0x5b, 0x92, 0x5b, 0x5b, 0x76, 0x90, 0x92, 0x92,
    0x5b, 0x5b, 0x5b, 0x5b, 0x5b, 0x5b, 0x5b, 0x5b, 0x5b, 0x5b, 0x5b, 0x5b, 0x6a, 0x73, 0x90,
    0x5b, 0x52, 0x52, 0x52, 0x52, 0x5b, 0x5b, 0x5b, 0x5b, 0x77, 0x7c, 0x77, 0x85, 0x5b, 0x5b,
    0x70, 0x5b, 0x7a, 0xaf, 0x76, 0x76, 0x5b, 0x5b, 0x5b, 0x5b, 0x5b, 0x5b, 0x5b, 0x5b, 0x5b,
    0x5b, 0x5b, 0x86, 0x01, 0x03, 0x01, 0x04, 0x03, 0xd5, 0x03, 0xd5, 0x03, 0xcc, 0x01, 0xbc,
    0x03, 0xf0, 0x03, 0x03, 0x04, 0x00, 0x50, 0x50, 0x50, 0x50, 0xff, 0x20, 0x20, 0x20, 0x20,
    0x01, 0x01, 0x01, 0x01, 0xc4, 0x02, 0x10, 0xff, 0xff, 0xff, 0x01, 0x00, 0x03, 0x11, 0xff,
    0x03, 0xc4, 0xc6, 0xc8, 0x02, 0x10, 0x00, 0xff, 0xcc, 0x01, 0x01, 0x01, 0x00, 0x00, 0x00,
    0x00, 0x01, 0x01, 0x03, 0x01, 0xff, 0xff, 0xc0, 0xc2, 0x10, 0x11, 0x02, 0x03, 0x01, 0x01,
    0x01, 0xff, 0xff, 0xff, 0x00, 0x00, 0x00, 0xff, 0x00, 0x00, 0xff, 0xff, 0xff, 0xff, 0x10,
    0x10, 0x10, 0x10, 0x02, 0x10, 0x00, 0x00, 0xc6, 0xc8, 0x02, 0x02, 0x02, 0x02, 0x06, 0x00,
    0x04, 0x00, 0x02, 0xff, 0x00, 0xc0, 0xc2, 0x01, 0x01, 0x03, 0x03, 0x03, 0xca, 0x40, 0x00,
    0x0a, 0x00, 0x04, 0x00, 0x00, 0x00, 0x00, 0x7f, 0x00, 0x33, 0x01, 0x00, 0x00, 0x00, 0x00,
    0x00, 0x00, 0xff, 0xbf, 0xff, 0xff, 0x00, 0x00, 0x00, 0x00, 0x07, 0x00, 0x00, 0xff, 0x00,
    0x00, 0x00, 0x00, 0x00, 0x00, 0x00, 0x00, 0x00, 0x00, 0x00, 0x00, 0x00, 0x00, 0xff, 0xff,
    0x00, 0x00, 0x00, 0xbf, 0x00, 0x00, 0x00, 0x00, 0x00, 0x00, 0x00, 0x00, 0x7f, 0x00, 0x00,
    0xff, 0x40, 0x40, 0x40, 0x40, 0x41, 0x49, 0x40, 0x40, 0x40, 0x40, 0x4c, 0x42, 0x40, 0x40,
    0x40, 0x40, 0x40, 0x40, 0x40, 0x40, 0x4f, 0x44, 0x53, 0x40, 0x40, 0x40, 0x44, 0x57, 0x43,
    0x5c, 0x40, 0x60, 0x40, 0x40, 0x40, 0x40, 0x40, 0x40, 0x40, 0x40, 0x40, 0x40, 0x40, 0x40,
    0x40, 0x40, 0x64, 0x66, 0x6e, 0x6b, 0x40, 0x40, 0x6a, 0x46, 0x40, 0x40, 0x44, 0x46, 0x40,
    0x40, 0x5b, 0x44, 0x40, 0x40, 0x00, 0x00, 0x00, 0x00, 0x06, 0x06, 0x06, 0x06, 0x01, 0x06,
    0x06, 0x02, 0x06, 0x06, 0x00, 0x06, 0x00, 0x0a, 0x0a, 0x00, 0x00, 0x00, 0x02, 0x07, 0x07,
    0x06, 0x02, 0x0d, 0x06, 0x06, 0x06, 0x0e, 0x05, 0x05, 0x02, 0x02, 0x00, 0x00, 0x04, 0x04,
    0x04, 0x04, 0x05, 0x06, 0x06, 0x06, 0x00, 0x00, 0x00, 0x0e, 0x00, 0x00, 0x08, 0x00, 0x10,
    0x00, 0x18, 0x00, 0x20, 0x00, 0x28, 0x00, 0x30, 0x00, 0x80, 0x01, 0x82, 0x01, 0x86, 0x00,
    0xf6, 0xcf, 0xfe, 0x3f, 0xab, 0x00, 0xb0, 0x00, 0xb1, 0x00, 0xb3, 0x00, 0xba, 0xf8, 0xbb,
    0x00, 0xc0, 0x00, 0xc1, 0x00, 0xc7, 0xbf, 0x62, 0xff, 0x00, 0x8d, 0xff, 0x00, 0xc4, 0xff,
    0x00, 0xc5, 0xff, 0x00, 0xff, 0xff, 0xeb, 0x01, 0xff, 0x0e, 0x12, 0x08, 0x00, 0x13, 0x09,
    0x00, 0x16, 0x08, 0x00, 0x17, 0x09, 0x00, 0x2b, 0x09, 0x00, 0xae, 0xff, 0x07, 0xb2, 0xff,
    0x00, 0xb4, 0xff, 0x00, 0xb5, 0xff, 0x00, 0xc3, 0x01, 0x00, 0xc7, 0xff, 0xbf, 0xe7, 0x08,
    0x00, 0xf0, 0x02, 0x00]"

definition table :: "nat \<Rightarrow> u8 option" where
  "table i = (if i < length hde64_table then Some (hde64_table ! i) else None)"

section \<open>The result and the local variables\<close>

text \<open>The unions \<open>imm\<close> and \<open>disp\<close> are kept as the words that overlay them: the processor is
  little-endian, so a store to a narrower member replaces the low bytes.\<close>

record hde64s =
  hs_len :: u8
  p_rep :: u8
  p_lock :: u8
  p_seg :: u8
  p_66 :: u8
  p_67 :: u8
  rex :: u8
  rex_w :: u8
  rex_r :: u8
  rex_x :: u8
  rex_b :: u8
  hs_opcode :: u8
  opcode2 :: u8
  modrm :: u8
  modrm_mod :: u8
  modrm_reg :: u8
  modrm_rm :: u8
  sib :: u8
  sib_scale :: u8
  sib_index :: u8
  sib_base :: u8
  imm :: u64
  disp :: u32
  hs_flags :: u32

definition hs_zero :: hde64s where
  "hs_zero = \<lparr>hs_len = 0, p_rep = 0, p_lock = 0, p_seg = 0, p_66 = 0, p_67 = 0, rex = 0, rex_w = 0, rex_r = 0,
     rex_x = 0, rex_b = 0, hs_opcode = 0, opcode2 = 0, modrm = 0, modrm_mod = 0, modrm_reg = 0,
     modrm_rm = 0, sib = 0, sib_scale = 0, sib_index = 0, sib_base = 0, imm = 0, disp = 0, hs_flags = 0\<rparr>"

record dis =
  d_hs :: hde64s
  d_p :: nat
  d_c :: u8
  d_pref :: u8
  d_ht :: nat
  d_cflags :: u8
  d_opcode :: u8
  d_x :: u8
  d_mod :: u8
  d_reg :: u8
  d_rm :: u8
  d_op64 :: u8

type_synonym mem = "nat \<Rightarrow> u8"

definition flag :: "u32 \<Rightarrow> dis \<Rightarrow> dis" where
  "flag f d = d\<lparr>d_hs := (d_hs d)\<lparr>hs_flags := hs_flags (d_hs d) OR f\<rparr>\<rparr>"

definition has :: "u8 \<Rightarrow> u8 \<Rightarrow> bool" where
  "has a b \<longleftrightarrow> a AND b \<noteq> 0"

definition rd16 :: "mem \<Rightarrow> nat \<Rightarrow> u16" where
  "rd16 m p = ucast (m p) OR push_bit 8 (ucast (m (p + 1)))"

definition rd32 :: "mem \<Rightarrow> nat \<Rightarrow> u32" where
  "rd32 m p = ucast (rd16 m p) OR push_bit 16 (ucast (rd16 m (p + 2)))"

definition rd64 :: "mem \<Rightarrow> nat \<Rightarrow> u64" where
  "rd64 m p = ucast (rd32 m p) OR push_bit 32 (ucast (rd32 m (p + 4)))"

text \<open>\<open>(t << n) & 0x80\<close> for a byte \<open>t\<close>, in \<open>int\<close>.\<close>

definition bit7_shl :: "u8 \<Rightarrow> u8 \<Rightarrow> bool" where
  "bit7_shl t n \<longleftrightarrow> push_bit (unat n) (ucast t :: u32) AND 0x80 \<noteq> 0"

section \<open>Prefixes and opcode\<close>

primrec prefix_loop :: "mem \<Rightarrow> nat \<Rightarrow> dis \<Rightarrow> dis" where
  "prefix_loop m 0 d = d"
| "prefix_loop m (Suc x) d =
    (let c = m (d_p d);
         d = d\<lparr>d_c := c, d_p := d_p d + 1\<rparr>;
         hs = d_hs d
     in if c = 0xf3 then prefix_loop m x (d\<lparr>d_hs := hs\<lparr>p_rep := c\<rparr>, d_pref := d_pref d OR PRE_F3\<rparr>)
     else if c = 0xf2 then prefix_loop m x (d\<lparr>d_hs := hs\<lparr>p_rep := c\<rparr>, d_pref := d_pref d OR PRE_F2\<rparr>)
     else if c = 0xf0 then prefix_loop m x (d\<lparr>d_hs := hs\<lparr>p_lock := c\<rparr>, d_pref := d_pref d OR PRE_LOCK\<rparr>)
     else if c \<in> {0x26, 0x2e, 0x36, 0x3e, 0x64, 0x65}
       then prefix_loop m x (d\<lparr>d_hs := hs\<lparr>p_seg := c\<rparr>, d_pref := d_pref d OR PRE_SEG\<rparr>)
     else if c = 0x66 then prefix_loop m x (d\<lparr>d_hs := hs\<lparr>p_66 := c\<rparr>, d_pref := d_pref d OR PRE_66\<rparr>)
     else if c = 0x67 then prefix_loop m x (d\<lparr>d_hs := hs\<lparr>p_67 := c\<rparr>, d_pref := d_pref d OR PRE_67\<rparr>)
     else d)"

definition pref_done :: "dis \<Rightarrow> dis" where
  "pref_done d =
    (let d = d\<lparr>d_hs := (d_hs d)\<lparr>hs_flags := push_bit 23 (ucast (d_pref d))\<rparr>\<rparr>
     in if d_pref d = 0 then d\<lparr>d_pref := d_pref d OR PRE_NONE\<rparr> else d)"

text \<open>A REX prefix; the second result says that another one follows, the jump to \<open>error_opcode\<close>.\<close>

definition rex_prefix :: "mem \<Rightarrow> dis \<Rightarrow> dis \<times> bool" where
  "rex_prefix m d =
    (let c = d_c d in
     if c AND 0xf0 = 0x40
     then let d = flag F_PREFIX_REX d;
              w = drop_bit 3 (c AND 0xf);
              op64 = (if w \<noteq> 0 \<and> m (d_p d) AND 0xf8 = 0xb8 then d_op64 d + 1 else d_op64 d);
              hs = (d_hs d)\<lparr>rex_w := w, rex_r := drop_bit 2 (c AND 7), rex_x := drop_bit 1 (c AND 3), rex_b := c AND 1\<rparr>;
              c' = m (d_p d);
              d = d\<lparr>d_hs := hs, d_op64 := op64, d_c := c', d_p := d_p d + 1\<rparr>
          in if c' AND 0xf0 = 0x40 then (d\<lparr>d_opcode := c'\<rparr>, True) else (d, False)
     else (d, False))"

definition opcode_byte :: "mem \<Rightarrow> dis \<Rightarrow> dis" where
  "opcode_byte m d =
    (let c = d_c d; d = d\<lparr>d_hs := (d_hs d)\<lparr>hs_opcode := c\<rparr>\<rparr> in
     if c = 0x0f
     then let c' = m (d_p d)
          in d\<lparr>d_hs := (d_hs d)\<lparr>opcode2 := c'\<rparr>, d_c := c', d_p := d_p d + 1, d_ht := d_ht d + DELTA_OPCODES, d_opcode := c'\<rparr>
     else if 0xa0 \<le> c \<and> c \<le> 0xa3
     then d\<lparr>d_op64 := d_op64 d + 1, d_opcode := c,
            d_pref := (if has (d_pref d) PRE_67 then d_pref d OR PRE_66 else d_pref d AND NOT PRE_66)\<rparr>
     else d\<lparr>d_opcode := c\<rparr>)"

definition table2 :: "nat \<Rightarrow> u8 \<Rightarrow> u8 option" where
  "table2 ht op = do {
     k \<leftarrow> table (ht + unat op div 4);
     table (ht + (unat k + unat op mod 4))
   }"

definition error_opcode :: "dis \<Rightarrow> dis" where
  "error_opcode d =
    (flag (F_ERROR OR F_ERROR_OPCODE) d)\<lparr>d_cflags := (if d_opcode d AND (- 3) = 0x24 then 1 else 0)\<rparr>"

definition opcode_flags :: "mem \<Rightarrow> dis \<Rightarrow> dis option" where
  "opcode_flags m d =
    (case rex_prefix m d of (d, err) \<Rightarrow>
     if err then Some (error_opcode d)
     else do {
       let d = opcode_byte m d;
       cflags \<leftarrow> table2 (d_ht d) (d_opcode d);
       Some (if cflags = C_ERROR then error_opcode d else d\<lparr>d_cflags := cflags\<rparr>)
     })"

definition group_flags :: "dis \<Rightarrow> dis option" where
  "group_flags d =
    (if has (d_cflags d) C_GROUP
     then do {
       lo \<leftarrow> table (d_ht d + unat (d_cflags d AND 0x7f));
       hi \<leftarrow> table (d_ht d + unat (d_cflags d AND 0x7f) + 1);
       Some (d\<lparr>d_cflags := lo, d_x := hi\<rparr>)
     }
     else Some (d\<lparr>d_x := 0\<rparr>))"

definition prefix_check :: "dis \<Rightarrow> dis option" where
  "prefix_check d =
    (if opcode2 (d_hs d) \<noteq> 0
     then do {
       t \<leftarrow> table2 DELTA_PREFIXES (d_opcode d);
       Some (if has t (d_pref d) then flag (F_ERROR OR F_ERROR_OPCODE) d else d)
     }
     else Some d)"

section \<open>The ModRM byte\<close>

definition modrm_byte :: "mem \<Rightarrow> dis \<Rightarrow> dis" where
  "modrm_byte m d =
    (let d = flag F_MODRM d;
         c = m (d_p d);
         m_mod = drop_bit 6 c; m_rm = c AND 7; m_reg = drop_bit 3 (c AND 0x3f);
         d = d\<lparr>d_hs := (d_hs d)\<lparr>modrm := c, modrm_mod := m_mod, modrm_rm := m_rm, modrm_reg := m_reg\<rparr>,
               d_c := c, d_p := d_p d + 1, d_mod := m_mod, d_rm := m_rm, d_reg := m_reg\<rparr>
     in if d_x d \<noteq> 0 \<and> bit7_shl (d_x d) m_reg then flag (F_ERROR OR F_ERROR_OPCODE) d else d)"

definition fpu_check :: "dis \<Rightarrow> dis option" where
  "fpu_check d =
    (if opcode2 (d_hs d) = 0 \<and> 0xd9 \<le> d_opcode d \<and> d_opcode d \<le> 0xdf
     then let t = d_opcode d - 0xd9 in do {
       bad \<leftarrow> (if d_mod d = 3
         then map_option (\<lambda>v. bit7_shl v (d_rm d)) (table (DELTA_FPU_MODRM + unat t * 8 + unat (d_reg d)))
         else map_option (\<lambda>v. bit7_shl v (d_reg d)) (table (DELTA_FPU_REG + unat t)));
       Some (if bad then flag (F_ERROR OR F_ERROR_OPCODE) d else d)
     }
     else Some d)"

text \<open>The scan for an opcode that may carry LOCK: its entry allows the register field.\<close>

function lock_ok :: "nat \<Rightarrow> nat \<Rightarrow> u8 \<Rightarrow> u8 \<Rightarrow> bool option" where
  "lock_ok ht table_end op m_reg =
    (if ht = table_end then Some False
     else case table ht of None \<Rightarrow> None
       | Some v \<Rightarrow> if v = op then map_option (\<lambda>w. \<not> bit7_shl w m_reg) (table (ht + 1))
           else lock_ok (ht + 2) table_end op m_reg)"
  by pat_completeness auto

termination lock_ok
  by (relation "measure (\<lambda>(ht, e, op, r). length hde64_table - ht)") (auto simp: table_def split: if_splits)

declare lock_ok.simps [simp del]

definition lock_check :: "dis \<Rightarrow> dis option" where
  "lock_check d =
    (if has (d_pref d) PRE_LOCK
     then if d_mod d = 3 then Some (flag (F_ERROR OR F_ERROR_LOCK) d)
       else do {
         ok \<leftarrow> (if opcode2 (d_hs d) \<noteq> 0
           then lock_ok DELTA_OP2_LOCK_OK DELTA_OP_ONLY_MEM (d_opcode d) (d_reg d)
           else lock_ok DELTA_OP_LOCK_OK DELTA_OP2_LOCK_OK (d_opcode d AND (- 2)) (d_reg d));
         Some (if ok then d else flag (F_ERROR OR F_ERROR_LOCK) d)
       }
     else Some d)"

function only_mem :: "nat \<Rightarrow> nat \<Rightarrow> u8 \<Rightarrow> u8 \<Rightarrow> u8 \<Rightarrow> bool option" where
  "only_mem ht table_end opcode pref m_reg =
    (if ht = table_end then Some False
     else case table ht of None \<Rightarrow> None
       | Some v \<Rightarrow> if v = opcode
           then case table (ht + 1) of None \<Rightarrow> None
             | Some w \<Rightarrow> if has w pref then map_option (\<lambda>z. \<not> bit7_shl z m_reg) (table (ht + 2)) else Some False
           else only_mem (ht + 3) table_end opcode pref m_reg)"
  by pat_completeness auto

termination only_mem
  by (relation "measure (\<lambda>(ht, e, op, pr, r). length hde64_table - ht)") (auto simp: table_def split: if_splits)

declare only_mem.simps [simp del]

text \<open>The operand checks, up to the labels \<open>error_operand\<close> (the first result) and
  \<open>no_error_operand\<close>, with the new content of \<open>m_mod\<close>.\<close>

definition operand_check :: "dis \<Rightarrow> (bool \<times> u8) option" where
  "operand_check d =
    (let op = d_opcode d; r = d_reg d; two = opcode2 (d_hs d) \<noteq> 0; pref = d_pref d in
     if two \<and> op \<in> {0x20, 0x22} then Some (4 < r \<or> r = 1, 3)
     else if two \<and> op \<in> {0x21, 0x23} then Some (r = 4 \<or> r = 5, 3)
     else if \<not> two \<and> op = 0x8c then Some (5 < r, d_mod d)
     else if \<not> two \<and> op = 0x8e then Some (r = 1 \<or> 5 < r, d_mod d)
     else if d_mod d = 3
     then map_option (\<lambda>e. (e, d_mod d))
       (if two then only_mem DELTA_OP2_ONLY_MEM (length hde64_table) op pref r
        else only_mem DELTA_OP_ONLY_MEM DELTA_OP2_ONLY_MEM op pref r)
     else if two
     then Some (if op \<in> {0x50, 0xd7, 0xf7} then has pref (PRE_NONE OR PRE_66)
                else if op = 0xd6 then has pref (PRE_F2 OR PRE_F3) else op = 0xc5, d_mod d)
     else Some (False, d_mod d))"

definition disp_size_of :: "dis \<Rightarrow> nat" where
  "disp_size_of d =
    (if d_mod d = 0
     then if has (d_pref d) PRE_67 then if d_rm d = 6 then 2 else 0 else if d_rm d = 5 then 4 else 0
     else if d_mod d = 1 then 1
     else if d_mod d = 2 then if has (d_pref d) PRE_67 then 2 else 4
     else 0)"

text \<open>From \<open>no_error_operand\<close> on: immediates of the \<open>TEST\<close> forms, SIB byte and displacement. The byte
  after ModRM is read ahead and the pointer set back.\<close>

definition test_imm :: "dis \<Rightarrow> dis" where
  "test_imm d = (if d_reg d \<le> 1
     then if d_opcode d = 0xf6 then d\<lparr>d_cflags := d_cflags d OR C_IMM8\<rparr>
       else if d_opcode d = 0xf7 then d\<lparr>d_cflags := d_cflags d OR C_IMM_P66\<rparr> else d
     else d)"

definition sib_byte :: "u8 \<Rightarrow> dis \<Rightarrow> dis \<times> nat" where
  "sib_byte c d = (if d_mod d \<noteq> 3 \<and> d_rm d = 4
     then let d' = flag F_SIB d
          in (d'\<lparr>d_p := d_p d' + 1, d_hs := (d_hs d')\<lparr>sib := c, sib_scale := drop_bit 6 c,
                sib_index := drop_bit 3 (c AND 0x3f), sib_base := c AND 7\<rparr>\<rparr>,
              if c AND 7 = 5 \<and> d_mod d AND 1 = 0 then 4 else disp_size_of d)
     else (d, disp_size_of d))"

definition load_disp :: "mem \<Rightarrow> nat \<Rightarrow> dis \<Rightarrow> dis" where
  "load_disp m disp_size d =
    (let d' = (if disp_size = 1
              then let d = flag F_DISP8 d in d\<lparr>d_hs := (d_hs d)\<lparr>disp := (disp (d_hs d) AND NOT 0xff) OR ucast (m (d_p d))\<rparr>\<rparr>
              else if disp_size = 2
              then let d = flag F_DISP16 d in d\<lparr>d_hs := (d_hs d)\<lparr>disp := (disp (d_hs d) AND NOT 0xffff) OR ucast (rd16 m (d_p d))\<rparr>\<rparr>
              else if disp_size = 4
              then let d = flag F_DISP32 d in d\<lparr>d_hs := (d_hs d)\<lparr>disp := rd32 m (d_p d)\<rparr>\<rparr>
              else d)
     in d'\<lparr>d_p := d_p d' + disp_size\<rparr>)"

definition displacement :: "mem \<Rightarrow> dis \<Rightarrow> dis" where
  "displacement m d =
    (let c = m (d_p d);
         (d1, disp_size) = sib_byte c (test_imm (d\<lparr>d_c := c, d_p := d_p d + 1\<rparr>))
     in load_disp m disp_size (d1\<lparr>d_p := d_p d1 - 1\<rparr>))"

definition modrm_part :: "mem \<Rightarrow> dis \<Rightarrow> dis option" where
  "modrm_part m d =
    (if has (d_cflags d) C_MODRM
     then do {
       d \<leftarrow> fpu_check (modrm_byte m d);
       d \<leftarrow> lock_check d;
       (err, m_mod) \<leftarrow> operand_check d;
       let d = d\<lparr>d_mod := m_mod\<rparr>;
       Some (displacement m (if err then flag (F_ERROR OR F_ERROR_OPERAND) d else d))
     }
     else Some (if has (d_pref d) PRE_LOCK then flag (F_ERROR OR F_ERROR_LOCK) d else d))"

section \<open>Immediates\<close>

definition set_imm8 :: "mem \<Rightarrow> u32 \<Rightarrow> dis \<Rightarrow> dis" where
  "set_imm8 m f d =
    (let d = flag f d in
     d\<lparr>d_hs := (d_hs d)\<lparr>imm := (imm (d_hs d) AND NOT 0xff) OR ucast (m (d_p d))\<rparr>, d_p := d_p d + 1\<rparr>)"

definition set_imm16 :: "mem \<Rightarrow> u32 \<Rightarrow> dis \<Rightarrow> dis" where
  "set_imm16 m f d =
    (let d = flag f d in
     d\<lparr>d_hs := (d_hs d)\<lparr>imm := (imm (d_hs d) AND NOT 0xffff) OR ucast (rd16 m (d_p d))\<rparr>, d_p := d_p d + 2\<rparr>)"

definition set_imm32 :: "mem \<Rightarrow> u32 \<Rightarrow> dis \<Rightarrow> dis" where
  "set_imm32 m f d =
    (let d = flag f d in
     d\<lparr>d_hs := (d_hs d)\<lparr>imm := (imm (d_hs d) AND NOT 0xffffffff) OR ucast (rd32 m (d_p d))\<rparr>, d_p := d_p d + 4\<rparr>)"

definition set_imm64 :: "mem \<Rightarrow> u32 \<Rightarrow> dis \<Rightarrow> dis" where
  "set_imm64 m f d =
    (let d = flag f d in d\<lparr>d_hs := (d_hs d)\<lparr>imm := rd64 m (d_p d)\<rparr>, d_p := d_p d + 8\<rparr>)"

text \<open>From the test of \<open>C_IMM16\<close> on; \<open>jump\<close> is the entry at \<open>imm16_ok\<close>.\<close>

definition imm_rest :: "mem \<Rightarrow> bool \<Rightarrow> dis \<Rightarrow> dis" where
  "imm_rest m jump d =
    (let d = (if jump \<or> has (d_cflags d) C_IMM16 then set_imm16 m F_IMM16 d else d);
         d = (if has (d_cflags d) C_IMM8 then set_imm8 m F_IMM8 d else d)
     in if has (d_cflags d) C_REL32 then set_imm32 m (F_IMM32 OR F_RELATIVE) d
        else if has (d_cflags d) C_REL8 then set_imm8 m (F_IMM8 OR F_RELATIVE) d
        else d)"

definition immediates :: "mem \<Rightarrow> dis \<Rightarrow> dis" where
  "immediates m d =
    (if has (d_cflags d) C_IMM_P66
     then if has (d_cflags d) C_REL32
       then if has (d_pref d) PRE_66 then set_imm16 m (F_IMM16 OR F_RELATIVE) d
         else set_imm32 m (F_IMM32 OR F_RELATIVE) d
       else if d_op64 d \<noteq> 0 then imm_rest m False (set_imm64 m F_IMM64 d)
       else if \<not> has (d_pref d) PRE_66 then imm_rest m False (set_imm32 m F_IMM32 d)
       else imm_rest m True d
     else imm_rest m False d)"

section \<open>The whole function\<close>

definition disasm_done :: "dis \<Rightarrow> hde64s" where
  "disasm_done d =
    (let len = word_of_nat (d_p d) :: u8 in
     if 15 < len then (d_hs d)\<lparr>hs_flags := hs_flags (d_hs d) OR (F_ERROR OR F_ERROR_LENGTH), hs_len := 15\<rparr>
     else (d_hs d)\<lparr>hs_len := len\<rparr>)"

definition hde64_disasm :: "mem \<Rightarrow> hde64s option" where
  "hde64_disasm code =
    do {
      let d = \<lparr>d_hs = hs_zero, d_p = 0, d_c = 0, d_pref = 0, d_ht = 0, d_cflags = 0, d_opcode = 0, d_x = 0,
               d_mod = 0, d_reg = 0, d_rm = 0, d_op64 = 0\<rparr>;
      d \<leftarrow> opcode_flags code (pref_done (prefix_loop code 16 d));
      d \<leftarrow> group_flags d;
      d \<leftarrow> prefix_check d;
      d \<leftarrow> modrm_part code d;
      Some (disasm_done (immediates code d))
    }"

section \<open>Tables, fields and flags\<close>

lemma length_table: "length hde64_table = 529"
  by (simp add: hde64_table_def)

lemma table_Some: "i < 529 \<Longrightarrow> \<exists>v. table i = Some v"
  by (simp add: table_def length_table)

lemma unat_u8_less: "unat (b :: u8) < 256"
  using unsigned_less [of b, where 'a = nat] by simp

lemma prefix_entries: "k < 64 \<Longrightarrow> unat (hde64_table ! (DELTA_PREFIXES + k)) \<le> 113"
proof -
  assume "k < 64"
  have "list_all (\<lambda>v. unat v \<le> 113) (take 64 (drop DELTA_PREFIXES hde64_table))"
    by (simp add: hde64_table_def DELTA_PREFIXES_def)
  then have "\<forall>i<64. unat (take 64 (drop DELTA_PREFIXES hde64_table) ! i) \<le> 113"
    by (auto simp: list_all_length length_table DELTA_PREFIXES_def)
  then show ?thesis using \<open>k < 64\<close> by (simp add: length_table DELTA_PREFIXES_def)
qed

lemma table2_Some:
  assumes "ht \<le> DELTA_OPCODES \<or> ht = DELTA_PREFIXES"
  shows "\<exists>v. table2 ht op = Some v"
proof -
  let ?k = "unat op div 4"
  have k: "?k < 64" "unat op mod 4 < 4" using unat_u8_less [of op] by (auto simp: div_less_iff_less_mult)
  then have "ht + ?k < 529" using assms by (auto simp: delta_defs)
  then have t: "table (ht + ?k) = Some (hde64_table ! (ht + ?k))" by (simp add: table_def length_table)
  have "ht + (unat (hde64_table ! (ht + ?k)) + unat op mod 4) < 529"
    using assms prefix_entries [OF k(1)] k(2) unat_u8_less [of "hde64_table ! (ht + ?k)"] by (auto simp: delta_defs)
  then show ?thesis using table_Some t by (simp add: table2_def)
qed

lemma lock_ok_Some: "ht + 2 * k \<le> 529 \<Longrightarrow> \<exists>v. lock_ok ht (ht + 2 * k) op r = Some v"
proof (induction k arbitrary: ht)
  case (Suc k)
  have e: "ht + 2 * Suc k = (ht + 2) + 2 * k" by simp
  obtain v w where "table ht = Some v" "table (ht + 1) = Some w"
    using Suc.prems table_Some [of ht] table_Some [of "ht + 1"] by auto
  then show ?case using Suc.IH [of "ht + 2"] Suc.prems unfolding e by (subst lock_ok.simps) auto
qed (auto simp: lock_ok.simps)

lemma only_mem_Some: "ht + 3 * k \<le> 529 \<Longrightarrow> \<exists>v. only_mem ht (ht + 3 * k) op pr r = Some v"
proof (induction k arbitrary: ht)
  case (Suc k)
  have e: "ht + 3 * Suc k = (ht + 3) + 3 * k" by simp
  obtain v w z where "table ht = Some v" "table (ht + 1) = Some w" "table (ht + 2) = Some z"
    using Suc.prems table_Some [of ht] table_Some [of "ht + 1"] table_Some [of "ht + 2"] by auto
  then show ?case using Suc.IH [of "ht + 3"] Suc.prems unfolding e by (subst only_mem.simps) auto
qed (auto simp: only_mem.simps)

lemma flag_sel [simp]:
  "d_p (flag f d) = d_p d" "d_c (flag f d) = d_c d" "d_pref (flag f d) = d_pref d" "d_ht (flag f d) = d_ht d"
  "d_cflags (flag f d) = d_cflags d" "d_opcode (flag f d) = d_opcode d" "d_x (flag f d) = d_x d"
  "d_mod (flag f d) = d_mod d" "d_reg (flag f d) = d_reg d" "d_rm (flag f d) = d_rm d" "d_op64 (flag f d) = d_op64 d"
  "d_hs (flag f d) = (d_hs d)\<lparr>hs_flags := hs_flags (d_hs d) OR f\<rparr>"
  by (simp_all add: flag_def)

text \<open>Well-formed results: the fields of REX, ModRM and SIB are in range and put together give the bytes,
  and every specific error comes with the general one.\<close>

definition hs_fields :: "hde64s \<Rightarrow> bool" where
  "hs_fields hs \<longleftrightarrow> rex_w hs \<le> 1 \<and> rex_r hs \<le> 1 \<and> rex_x hs \<le> 1 \<and> rex_b hs \<le> 1 \<and>
     modrm_mod hs \<le> 3 \<and> modrm_reg hs \<le> 7 \<and> modrm_rm hs \<le> 7 \<and>
     modrm hs = push_bit 6 (modrm_mod hs) OR push_bit 3 (modrm_reg hs) OR modrm_rm hs \<and>
     sib_scale hs \<le> 3 \<and> sib_index hs \<le> 7 \<and> sib_base hs \<le> 7 \<and>
     sib hs = push_bit 6 (sib_scale hs) OR push_bit 3 (sib_index hs) OR sib_base hs"

definition err_flags :: "u32 \<Rightarrow> bool" where
  "err_flags fl \<longleftrightarrow> (bit fl 13 \<or> bit fl 14 \<or> bit fl 15 \<or> bit fl 16 \<longrightarrow> bit fl 12)"

lemma byte_fields:
  fixes c :: u8
  shows "drop_bit 6 c \<le> 3" "drop_bit 3 (c AND 0x3f) \<le> 7" "c AND 7 \<le> 7"
    "push_bit 6 (drop_bit 6 c) OR push_bit 3 (drop_bit 3 (c AND 0x3f)) OR (c AND 7) = c"
    "drop_bit 3 (c AND 0xf) \<le> 1" "drop_bit 2 (c AND 7) \<le> 1" "drop_bit 1 (c AND 3) \<le> 1" "c AND 1 \<le> 1"
proof -
  have m: "0x3f = (mask 6 :: u8)" "7 = (mask 3 :: u8)" "0xf = (mask 4 :: u8)" "3 = (mask 2 :: u8)" "1 = (mask 1 :: u8)"
    by (simp_all add: mask_eq_exp_minus_1)
  have s: "unat (drop_bit n x) = unat x div 2 ^ n" for n and x :: u8
    by (simp only: unat_drop_bit_eq) (simp add: drop_bit_eq_div)
  have le: "unat x mod 64 div 8 < 8" "unat x mod 16 div 8 < 2" "unat x mod 8 div 4 < 2" "unat x mod 4 div 2 < 2" "unat x div 64 < 4" for x :: u8
    using unat_u8_less [of x] by (simp_all add: div_less_iff_less_mult)
  have am: "unat (c AND 0x3f) = unat c mod 64" "unat (c AND 7) = unat c mod 8" "unat (c AND 0xf) = unat c mod 16"
    "unat (c AND 3) = unat c mod 4" "unat (c AND 1) = unat c mod 2"
    unfolding m unat_and_mask by simp_all
  have "unat c mod 8 \<le> 7" "unat c mod 2 \<le> 1" using mod_less_divisor [of 8 "unat c"] mod_less_divisor [of 2 "unat c"] by linarith+
  then show "drop_bit 6 c \<le> 3" "drop_bit 3 (c AND 0x3f) \<le> 7" "c AND 7 \<le> 7"
    "drop_bit 3 (c AND 0xf) \<le> 1" "drop_bit 2 (c AND 7) \<le> 1" "drop_bit 1 (c AND 3) \<le> 1" "c AND 1 \<le> 1"
    using le [of c] unfolding word_le_nat_alt s am by simp_all
  show "push_bit 6 (drop_bit 6 c) OR push_bit 3 (drop_bit 3 (c AND 0x3f)) OR (c AND 7) = c"
    unfolding m
  proof (rule bit_word_eqI)
    fix n
    assume "n < LENGTH(8)"
    then consider "n < 3" | "3 \<le> n" "n < 6" | "6 \<le> n" "n < 8" by force
    then show "bit (push_bit 6 (drop_bit 6 c) OR push_bit 3 (drop_bit 3 (c AND mask 6)) OR (c AND mask 3)) n = bit c n"
      by cases (auto simp: bit_simps)
  qed
qed

lemma err_flags_or:
  assumes "err_flags fl"
  shows "err_flags (fl OR F_PREFIX_REX)" "err_flags (fl OR F_MODRM)" "err_flags (fl OR F_SIB)"
    "err_flags (fl OR F_DISP8)" "err_flags (fl OR F_DISP16)" "err_flags (fl OR F_DISP32)"
    "err_flags (fl OR F_IMM8)" "err_flags (fl OR F_IMM16)" "err_flags (fl OR F_IMM32)" "err_flags (fl OR F_IMM64)"
    "err_flags (fl OR (F_IMM8 OR F_RELATIVE))" "err_flags (fl OR (F_IMM16 OR F_RELATIVE))" "err_flags (fl OR (F_IMM32 OR F_RELATIVE))"
    "err_flags (fl OR (F_ERROR OR F_ERROR_OPCODE))" "err_flags (fl OR (F_ERROR OR F_ERROR_LOCK))"
    "err_flags (fl OR (F_ERROR OR F_ERROR_OPERAND))" "err_flags (fl OR (F_ERROR OR F_ERROR_LENGTH))"
  using assms by (simp_all add: err_flags_def f_defs bit_simps)
section \<open>The phases keep the invariant\<close>

text \<open>What holds between the phases: between one and \<open>k\<close> bytes have been read, the table pointer is that of
  one of the two opcode maps, and the result so far is well-formed.\<close>

definition dis_ok :: "nat \<Rightarrow> dis \<Rightarrow> bool" where
  "dis_ok k d \<longleftrightarrow> 1 \<le> d_p d \<and> d_p d \<le> k \<and> d_ht d \<le> DELTA_OPCODES \<and> hs_fields (d_hs d) \<and> err_flags (hs_flags (d_hs d))"

definition agree :: "mem \<Rightarrow> mem \<Rightarrow> bool" where
  "agree m m' \<longleftrightarrow> (\<forall>i<40. m' i = m i)"

lemma agreeD: "agree m m' \<Longrightarrow> i < 40 \<Longrightarrow> m' i = m i"
  by (simp add: agree_def)

lemma hs_fields_upd [simp]:
  "hs_fields (hs\<lparr>p_rep := v\<rparr>) = hs_fields hs" "hs_fields (hs\<lparr>p_lock := v\<rparr>) = hs_fields hs"
  "hs_fields (hs\<lparr>p_seg := v\<rparr>) = hs_fields hs" "hs_fields (hs\<lparr>p_66 := v\<rparr>) = hs_fields hs"
  "hs_fields (hs\<lparr>p_67 := v\<rparr>) = hs_fields hs" "hs_fields (hs\<lparr>hs_opcode := v\<rparr>) = hs_fields hs"
  "hs_fields (hs\<lparr>opcode2 := v\<rparr>) = hs_fields hs" "hs_fields (hs\<lparr>hs_flags := f\<rparr>) = hs_fields hs"
  "hs_fields (hs\<lparr>imm := i\<rparr>) = hs_fields hs" "hs_fields (hs\<lparr>disp := di\<rparr>) = hs_fields hs"
  "hs_fields (hs\<lparr>hs_len := v\<rparr>) = hs_fields hs"
  by (simp_all add: hs_fields_def)

lemma prefix_loop_inv:
  assumes "agree m m'" "d_p d + x \<le> 40" "hs_fields (d_hs d)"
  shows "prefix_loop m' x d = prefix_loop m x d" "d_p (prefix_loop m x d) \<le> d_p d + x" "d_p d \<le> d_p (prefix_loop m x d)"
    "0 < x \<Longrightarrow> d_p d < d_p (prefix_loop m x d)"
    "d_ht (prefix_loop m x d) = d_ht d" "hs_fields (d_hs (prefix_loop m x d))"
proof -
  have "prefix_loop m' x d = prefix_loop m x d \<and> d_p (prefix_loop m x d) \<le> d_p d + x \<and> d_p d \<le> d_p (prefix_loop m x d) \<and>
    (0 < x \<longrightarrow> d_p d < d_p (prefix_loop m x d)) \<and>
    d_ht (prefix_loop m x d) = d_ht d \<and> hs_fields (d_hs (prefix_loop m x d))"
    using assms(2,3)
  proof (induction x arbitrary: d)
    case (Suc x)
    have c: "m' (d_p d) = m (d_p d)" using assms(1) Suc.prems(1) by (auto intro: agreeD)
    show ?case
      unfolding prefix_loop.simps Let_def c
      using Suc.IH [where d = "d\<lparr>d_c := m (d_p d), d_p := d_p d + 1, d_hs := hs, d_pref := pr\<rparr>" for hs pr] Suc.prems
      by (auto simp: Suc_le_eq intro: less_imp_le)
  qed simp
  then show "prefix_loop m' x d = prefix_loop m x d" "d_p (prefix_loop m x d) \<le> d_p d + x" "d_p d \<le> d_p (prefix_loop m x d)"
    "0 < x \<Longrightarrow> d_p d < d_p (prefix_loop m x d)"
    "d_ht (prefix_loop m x d) = d_ht d" "hs_fields (d_hs (prefix_loop m x d))" by blast+
qed

lemma prefixes_ok:
  assumes "agree m m'" "d_p d = 0" "d_ht d = 0" "hs_fields (d_hs d)"
  shows "pref_done (prefix_loop m' 16 d) = pref_done (prefix_loop m 16 d)" "dis_ok 16 (pref_done (prefix_loop m 16 d))"
proof -
  note inv = prefix_loop_inv [of m m' d 16, OF assms(1) _ assms(4), unfolded assms(2), simplified]
  show "pref_done (prefix_loop m' 16 d) = pref_done (prefix_loop m 16 d)" by (simp only: inv)
  have "err_flags (push_bit 23 (ucast p))" for p :: u8 by (simp add: err_flags_def bit_simps)
  then show "dis_ok 16 (pref_done (prefix_loop m 16 d))"
    using inv assms(3) by (simp add: dis_ok_def pref_done_def Let_def) (simp add: err_flags_def)
qed

lemma flag_ok: "dis_ok k d \<Longrightarrow> err_flags (hs_flags (d_hs d) OR f) \<Longrightarrow> dis_ok k (flag f d)"
  by (simp add: dis_ok_def)

lemma error_flag_ok:
  assumes "dis_ok k d"
  shows "dis_ok k (flag (F_ERROR OR F_ERROR_OPCODE) d)" "dis_ok k (flag (F_ERROR OR F_ERROR_LOCK) d)"
    "dis_ok k (flag (F_ERROR OR F_ERROR_OPERAND) d)"
  using assms by (auto intro!: flag_ok err_flags_or simp: dis_ok_def)

lemma rex_prefix_ok:
  assumes "agree m m'" "dis_ok k d" "k < 40"
  shows "rex_prefix m' d = rex_prefix m d" "dis_ok (k + 1) (fst (rex_prefix m d))"
proof -
  have "m' (d_p d) = m (d_p d)" using assms by (auto intro!: agreeD simp: dis_ok_def)
  then show "rex_prefix m' d = rex_prefix m d" by (simp add: rex_prefix_def Let_def)
  have "hs_fields (hs\<lparr>rex_w := drop_bit 3 (c AND 0xf), rex_r := drop_bit 2 (c AND 7), rex_x := drop_bit 1 (c AND 3), rex_b := c AND 1\<rparr>)"
    if "hs_fields hs" for hs and c :: u8
    using that byte_fields [of c] by (simp add: hs_fields_def)
  then show "dis_ok (k + 1) (fst (rex_prefix m d))"
    using assms(2) by (simp add: rex_prefix_def Let_def dis_ok_def err_flags_or)
qed

lemma opcode_byte_ok:
  assumes "agree m m'" "dis_ok k d" "k < 40" "d_ht d = 0"
  shows "opcode_byte m' d = opcode_byte m d" "dis_ok (k + 1) (opcode_byte m d)"
proof -
  have "m' (d_p d) = m (d_p d)" using assms by (auto intro!: agreeD simp: dis_ok_def)
  then show "opcode_byte m' d = opcode_byte m d" by (simp add: opcode_byte_def Let_def)
  show "dis_ok (k + 1) (opcode_byte m d)"
    using assms(2,4) by (auto simp: opcode_byte_def Let_def dis_ok_def)
qed

lemma error_opcode_ok: "dis_ok k d \<Longrightarrow> dis_ok k (error_opcode d)"
  using error_flag_ok(1) [of k d] by (simp add: error_opcode_def dis_ok_def)

lemma opcode_flags_ok:
  assumes "agree m m'" "dis_ok k d" "k + 1 < 40" "d_ht d = 0"
  shows "opcode_flags m' d = opcode_flags m d" "\<exists>d'. opcode_flags m d = Some d' \<and> dis_ok (k + 2) d'"
proof -
  obtain d1 err where r: "rex_prefix m d = (d1, err)" by fastforce
  have k: "k < 40" using assms(3) by simp
  have r': "rex_prefix m' d = (d1, err)" "dis_ok (k + 1) d1" using rex_prefix_ok [OF assms(1,2) k] r by simp_all
  have h: "d_ht d1 = 0" using r assms(4) by (auto simp: rex_prefix_def Let_def split: if_splits)
  note o = opcode_byte_ok [OF assms(1) r'(2) assms(3) h]
  show "opcode_flags m' d = opcode_flags m d" unfolding opcode_flags_def r r' by (simp add: o)
  have "dis_ok (k + 2) (opcode_byte m d1)" using o(2) by simp
  moreover have "dis_ok (k + 2) d1" using r'(2) by (simp add: dis_ok_def)
  moreover obtain v where "table2 (d_ht (opcode_byte m d1)) (d_opcode (opcode_byte m d1)) = Some v"
    using table2_Some [of "d_ht (opcode_byte m d1)"] o(2) by (auto simp: dis_ok_def)
  ultimately show "\<exists>d'. opcode_flags m d = Some d' \<and> dis_ok (k + 2) d'"
    unfolding opcode_flags_def r using error_opcode_ok by (auto simp: Let_def) (auto simp: dis_ok_def)
qed
lemma group_flags_ok:
  assumes "dis_ok k d"
  shows "\<exists>d'. group_flags d = Some d' \<and> dis_ok k d'"
proof -
  have "unat (d_cflags d AND 0x7f) = unat (d_cflags d) mod 128"
    using unat_and_mask [of "d_cflags d" 7] by (simp add: mask_eq_exp_minus_1)
  then have "unat (d_cflags d AND 0x7f) < 128" by simp
  then have i: "d_ht d + unat (d_cflags d AND 0x7f) + 1 < 529" using assms by (simp add: dis_ok_def DELTA_OPCODES_def)
  then obtain lo hi where "table (d_ht d + unat (d_cflags d AND 0x7f)) = Some lo"
    "table (d_ht d + unat (d_cflags d AND 0x7f) + 1) = Some hi"
    using table_Some [of "d_ht d + unat (d_cflags d AND 0x7f)"] table_Some [of "d_ht d + unat (d_cflags d AND 0x7f) + 1"]
    by auto
  then show ?thesis using assms by (simp add: group_flags_def dis_ok_def)
qed

lemma prefix_check_ok:
  assumes "dis_ok k d"
  shows "\<exists>d'. prefix_check d = Some d' \<and> dis_ok k d'"
  using assms error_flag_ok(1) [OF assms] table2_Some [of DELTA_PREFIXES "d_opcode d"]
  by (auto simp: prefix_check_def)

lemma modrm_byte_ok:
  assumes "agree m m'" "dis_ok k d" "k < 40"
  shows "modrm_byte m' d = modrm_byte m d" "dis_ok (k + 1) (modrm_byte m d)" "d_reg (modrm_byte m d) \<le> 7"
proof -
  have "m' (d_p d) = m (d_p d)" using assms by (auto intro!: agreeD simp: dis_ok_def)
  then show "modrm_byte m' d = modrm_byte m d" by (simp add: modrm_byte_def Let_def)
  have f: "hs_fields (hs\<lparr>modrm := c, modrm_mod := drop_bit 6 c, modrm_rm := c AND 7, modrm_reg := drop_bit 3 c AND 7\<rparr>)"
    if "hs_fields hs" for hs and c :: u8
    using that byte_fields [of c] by (simp add: hs_fields_def)
  show "dis_ok (k + 1) (modrm_byte m d)"
    using assms(2) by (simp add: modrm_byte_def Let_def dis_ok_def err_flags_or f)
  show "d_reg (modrm_byte m d) \<le> 7" using byte_fields(2) [of "m (d_p d)"] by (simp add: modrm_byte_def Let_def)
qed

lemma fpu_check_ok:
  assumes "dis_ok k d" "d_reg d \<le> 7"
  shows "\<exists>d'. fpu_check d = Some d' \<and> dis_ok k d'"
proof (cases "opcode2 (d_hs d) = 0 \<and> 0xd9 \<le> d_opcode d \<and> d_opcode d \<le> 0xdf")
  case True
  then have t: "unat (d_opcode d - 0xd9) \<le> 6"
    unfolding word_le_nat_alt by (subst unat_sub) (auto simp: word_le_nat_alt)
  then have "DELTA_FPU_MODRM + unat (d_opcode d - 0xd9) * 8 + unat (d_reg d) < 529" "DELTA_FPU_REG + unat (d_opcode d - 0xd9) < 529"
    using assms(2) by (simp_all add: delta_defs word_le_nat_alt)
  then obtain v w where "table (DELTA_FPU_MODRM + unat (d_opcode d - 0xd9) * 8 + unat (d_reg d)) = Some v"
    "table (DELTA_FPU_REG + unat (d_opcode d - 0xd9)) = Some w" using table_Some by metis
  then show ?thesis using True assms(1) error_flag_ok(1) [OF assms(1)] by (auto simp: fpu_check_def Let_def)
qed (use assms(1) in \<open>auto simp: fpu_check_def\<close>)

lemma lock_check_ok:
  assumes "dis_ok k d"
  shows "\<exists>d'. lock_check d = Some d' \<and> dis_ok k d'"
proof -
  have "\<exists>v. lock_ok DELTA_OP2_LOCK_OK DELTA_OP_ONLY_MEM op r = Some v" "\<exists>v. lock_ok DELTA_OP_LOCK_OK DELTA_OP2_LOCK_OK op r = Some v" for op r
    using lock_ok_Some [of DELTA_OP2_LOCK_OK 9 op r] lock_ok_Some [of DELTA_OP_LOCK_OK 12 op r] by (simp_all add: delta_defs)
  then obtain v w where "lock_ok DELTA_OP2_LOCK_OK DELTA_OP_ONLY_MEM (d_opcode d) (d_reg d) = Some v"
    "lock_ok DELTA_OP_LOCK_OK DELTA_OP2_LOCK_OK (d_opcode d AND (- 2)) (d_reg d) = Some w" by blast
  then show ?thesis using assms error_flag_ok(2) [OF assms] by (simp add: lock_check_def)
qed

lemma operand_check_ok: "\<exists>r. operand_check d = Some r"
proof -
  have "\<exists>v. only_mem DELTA_OP2_ONLY_MEM (length hde64_table) op pr r = Some v" "\<exists>v. only_mem DELTA_OP_ONLY_MEM DELTA_OP2_ONLY_MEM op pr r = Some v" for op pr r
    using only_mem_Some [of DELTA_OP2_ONLY_MEM 14 op pr r] only_mem_Some [of DELTA_OP_ONLY_MEM 5 op pr r]
    by (simp_all add: delta_defs length_table)
  then show ?thesis by (auto simp: operand_check_def Let_def)
qed

lemma rd_agree:
  assumes "agree m m'"
  shows "p + 1 < 40 \<Longrightarrow> rd16 m' p = rd16 m p" "p + 3 < 40 \<Longrightarrow> rd32 m' p = rd32 m p" "p + 7 < 40 \<Longrightarrow> rd64 m' p = rd64 m p"
  using assms by (simp_all add: rd16_def rd32_def rd64_def agree_def)

lemma disp_size_le: "disp_size_of d \<le> 4"
  by (simp add: disp_size_of_def)

lemma sib_byte_ok:
  assumes "dis_ok k d" "sib_byte c d = (d1, disp_size)"
  shows "dis_ok (k + 1) d1" "disp_size \<le> 4" "d_p d \<le> d_p d1"
proof -
  have f: "hs_fields (hs\<lparr>sib := c, sib_scale := drop_bit 6 c, sib_index := drop_bit 3 c AND 7, sib_base := b\<rparr>)"
    if "hs_fields hs" "c AND 7 = b" for hs and b c :: u8
    using that byte_fields [of c] by (simp add: hs_fields_def)
  show "dis_ok (k + 1) d1" "disp_size \<le> 4" "d_p d \<le> d_p d1"
    using assms disp_size_le [of d] by (auto simp: sib_byte_def Let_def dis_ok_def err_flags_or f split: if_splits)
qed

lemma load_disp_ok:
  assumes "agree m m'" "dis_ok k d" "disp_size \<le> 4" "k + 4 \<le> 40"
  shows "load_disp m' disp_size d = load_disp m disp_size d" "dis_ok (k + 4) (load_disp m disp_size d)"
proof -
  have "disp_size = 1 \<Longrightarrow> m' (d_p d) = m (d_p d)" "disp_size = 2 \<Longrightarrow> rd16 m' (d_p d) = rd16 m (d_p d)"
    "disp_size = 4 \<Longrightarrow> rd32 m' (d_p d) = rd32 m (d_p d)"
    using assms by (auto intro!: rd_agree agreeD simp: dis_ok_def)
  then show "load_disp m' disp_size d = load_disp m disp_size d" by (simp add: load_disp_def Let_def)
  show "dis_ok (k + 4) (load_disp m disp_size d)"
    using assms(2,3) by (auto simp: load_disp_def Let_def dis_ok_def err_flags_or)
qed

lemma displacement_ok:
  assumes "agree m m'" "dis_ok k d" "k + 5 \<le> 40"
  shows "displacement m' d = displacement m d" "dis_ok (k + 5) (displacement m d)"
proof -
  let ?c = "m (d_p d)"
  let ?d0 = "test_imm (d\<lparr>d_c := ?c, d_p := d_p d + 1\<rparr>)"
  have c: "m' (d_p d) = ?c" using assms by (auto intro!: agreeD simp: dis_ok_def)
  have d0: "dis_ok (k + 1) ?d0" "d_p ?d0 = d_p d + 1" using assms(2) by (simp_all add: test_imm_def dis_ok_def)
  obtain d1 disp_size where s: "sib_byte ?c ?d0 = (d1, disp_size)" by fastforce
  have "dis_ok (k + 1) (d1\<lparr>d_p := d_p d1 - 1\<rparr>)"
    using sib_byte_ok [OF d0(1) s] d0(2) assms(2) by (auto simp: dis_ok_def)
  from load_disp_ok [OF assms(1) this sib_byte_ok(2) [OF d0(1) s]] assms(3)
  show "displacement m' d = displacement m d" "dis_ok (k + 5) (displacement m d)"
    unfolding displacement_def c Let_def s prod.case by (simp_all add: add.commute)
qed

lemma modrm_part_ok:
  assumes "agree m m'" "dis_ok k d" "k + 6 \<le> 40"
  shows "modrm_part m' d = modrm_part m d \<and> (\<exists>d'. modrm_part m d = Some d' \<and> dis_ok (k + 6) d')"
proof (cases "has (d_cflags d) C_MODRM")
  case True
  have k: "k < 40" using assms(3) by simp
  note b = modrm_byte_ok [OF assms(1,2) k]
  obtain d1 where d1: "fpu_check (modrm_byte m d) = Some d1" "dis_ok (k + 1) d1"
    using fpu_check_ok [OF b(2,3)] by blast
  obtain d2 where d2: "lock_check d1 = Some d2" "dis_ok (k + 1) d2" using lock_check_ok [OF d1(2)] by blast
  obtain e mo where o: "operand_check d2 = Some (e, mo)" using operand_check_ok [of d2] by auto
  let ?d = "if e then flag (F_ERROR OR F_ERROR_OPERAND) (d2\<lparr>d_mod := mo\<rparr>) else d2\<lparr>d_mod := mo\<rparr>"
  have "dis_ok (k + 1) (d2\<lparr>d_mod := mo\<rparr>)" using d2(2) by (simp add: dis_ok_def)
  then have "dis_ok (k + 1) ?d" using error_flag_ok(3) by simp
  from displacement_ok [OF assms(1) this] assms(3)
  have "displacement m' ?d = displacement m ?d" "dis_ok (k + 6) (displacement m ?d)" by (simp_all add: add.commute)
  then show ?thesis using True b(1) d1(1) d2(1) o by (simp add: modrm_part_def Let_def)
next
  case False
  have "dis_ok (k + 6) (if has (d_pref d) PRE_LOCK then flag (F_ERROR OR F_ERROR_LOCK) d else d)"
    using assms(2) error_flag_ok(2) [OF assms(2)] by (simp add: dis_ok_def)
  then show ?thesis using False by (simp add: modrm_part_def)
qed

lemma set_imm_ok:
  assumes "agree m m'" "dis_ok k d" "err_flags (hs_flags (d_hs d) OR f)"
  shows "k + 1 \<le> 40 \<Longrightarrow> set_imm8 m' f d = set_imm8 m f d \<and> dis_ok (k + 1) (set_imm8 m f d)"
    "k + 2 \<le> 40 \<Longrightarrow> set_imm16 m' f d = set_imm16 m f d \<and> dis_ok (k + 2) (set_imm16 m f d)"
    "k + 4 \<le> 40 \<Longrightarrow> set_imm32 m' f d = set_imm32 m f d \<and> dis_ok (k + 4) (set_imm32 m f d)"
    "k + 8 \<le> 40 \<Longrightarrow> set_imm64 m' f d = set_imm64 m f d \<and> dis_ok (k + 8) (set_imm64 m f d)"
proof -
  have p: "d_p d \<le> k" using assms(2) by (simp add: dis_ok_def)
  show "k + 1 \<le> 40 \<Longrightarrow> set_imm8 m' f d = set_imm8 m f d \<and> dis_ok (k + 1) (set_imm8 m f d)"
    using assms p agreeD [OF assms(1), of "d_p d"] by (simp add: set_imm8_def dis_ok_def Let_def)
  show "k + 2 \<le> 40 \<Longrightarrow> set_imm16 m' f d = set_imm16 m f d \<and> dis_ok (k + 2) (set_imm16 m f d)"
    using assms p rd_agree(1) [OF assms(1), of "d_p d"] by (simp add: set_imm16_def dis_ok_def Let_def)
  show "k + 4 \<le> 40 \<Longrightarrow> set_imm32 m' f d = set_imm32 m f d \<and> dis_ok (k + 4) (set_imm32 m f d)"
    using assms p rd_agree(2) [OF assms(1), of "d_p d"] by (simp add: set_imm32_def dis_ok_def Let_def)
  show "k + 8 \<le> 40 \<Longrightarrow> set_imm64 m' f d = set_imm64 m f d \<and> dis_ok (k + 8) (set_imm64 m f d)"
    using assms p rd_agree(3) [OF assms(1), of "d_p d"] by (simp add: set_imm64_def dis_ok_def Let_def)
qed

lemma dis_ok_mono: "dis_ok k d \<Longrightarrow> k \<le> l \<Longrightarrow> dis_ok l d"
  by (simp add: dis_ok_def)

lemma dis_ok_err: "dis_ok k d \<Longrightarrow> err_flags (hs_flags (d_hs d))"
  by (simp add: dis_ok_def)

lemma imm_rest_ok:
  assumes "agree m m'" "dis_ok k d" "k + 7 \<le> 40"
  shows "imm_rest m' j d = imm_rest m j d \<and> dis_ok (k + 7) (imm_rest m j d)"
proof -
  define d1 where "d1 = (if j \<or> has (d_cflags d) C_IMM16 then set_imm16 m F_IMM16 d else d)"
  have 1: "(if j \<or> has (d_cflags d) C_IMM16 then set_imm16 m' F_IMM16 d else d) = d1" "dis_ok (k + 2) d1"
    using set_imm_ok(2) [OF assms(1,2) err_flags_or(8) [OF dis_ok_err [OF assms(2)]]] assms dis_ok_mono [OF assms(2), of "k + 2"]
    by (simp_all add: d1_def)
  define d2 where "d2 = (if has (d_cflags d1) C_IMM8 then set_imm8 m F_IMM8 d1 else d1)"
  have 2: "(if has (d_cflags d1) C_IMM8 then set_imm8 m' F_IMM8 d1 else d1) = d2" "dis_ok (k + 3) d2"
    using set_imm_ok(1) [OF assms(1) 1(2) err_flags_or(7) [OF dis_ok_err [OF 1(2)]]] assms(3) dis_ok_mono [OF 1(2), of "k + 3"]
    by (simp_all add: d2_def numeral_3_eq_3)
  show ?thesis
    using set_imm_ok(3) [OF assms(1) 2(2) err_flags_or(13) [OF dis_ok_err [OF 2(2)]]]
      set_imm_ok(1) [OF assms(1) 2(2) err_flags_or(11) [OF dis_ok_err [OF 2(2)]]] assms(3) dis_ok_mono [OF 2(2), of "k + 7"]
      dis_ok_mono [of "k + 4" _ "k + 7"]
    unfolding imm_rest_def Let_def d1_def [symmetric] 1(1) d2_def [symmetric] 2(1) by (simp add: add.commute)
qed

lemma immediates_ok:
  assumes "agree m m'" "dis_ok k d" "k + 15 \<le> 40"
  shows "immediates m' d = immediates m d \<and> dis_ok (k + 15) (immediates m d)"
proof -
  note e = dis_ok_err [OF assms(2)]
  note s = set_imm_ok(2) [OF assms(1,2) err_flags_or(12) [OF e]] set_imm_ok(3) [OF assms(1,2) err_flags_or(13) [OF e]]
    set_imm_ok(4) [OF assms(1,2) err_flags_or(10) [OF e]] set_imm_ok(3) [OF assms(1,2) err_flags_or(9) [OF e]]
  have r: "imm_rest m' j d' = imm_rest m j d' \<and> dis_ok (k + 15) (imm_rest m j d')" if "dis_ok (k + 8) d'" for j d'
    using imm_rest_ok [OF assms(1) that] assms(3) by (simp add: add.commute)
  have "dis_ok (k + 8) (set_imm64 m F_IMM64 d)" "dis_ok (k + 8) (set_imm32 m F_IMM32 d)" "dis_ok (k + 8) d"
    "dis_ok (k + 15) (set_imm16 m (F_IMM16 OR F_RELATIVE) d)" "dis_ok (k + 15) (set_imm32 m (F_IMM32 OR F_RELATIVE) d)"
    using s assms(2,3) by (auto intro: dis_ok_mono)
  then show ?thesis using s r assms(3) unfolding immediates_def by simp
qed
section \<open>Correctness of the disassembler\<close>

abbreviation dis_init :: dis where
  "dis_init \<equiv> \<lparr>d_hs = hs_zero, d_p = 0, d_c = 0, d_pref = 0, d_ht = 0, d_cflags = 0, d_opcode = 0, d_x = 0,
     d_mod = 0, d_reg = 0, d_rm = 0, d_op64 = 0\<rparr>"

definition hs_wf :: "hde64s \<Rightarrow> bool" where
  "hs_wf hs \<longleftrightarrow> 1 \<le> hs_len hs \<and> hs_len hs \<le> 15 \<and> hs_fields hs \<and> err_flags (hs_flags hs)"

lemma disasm_done_wf:
  assumes "dis_ok 39 d"
  shows "hs_wf (disasm_done d)"
proof -
  have "unat (word_of_nat (d_p d) :: u8) = d_p d" using assms by (simp add: dis_ok_def unat_of_nat)
  then have "1 \<le> (word_of_nat (d_p d) :: u8)" using assms by (simp add: dis_ok_def word_le_nat_alt)
  then show ?thesis using assms err_flags_or [OF dis_ok_err [OF assms]]
    by (auto simp: disasm_done_def hs_wf_def dis_ok_def Let_def not_less)
qed

lemma hde64_disasm_spec:
  assumes "agree code code'"
  shows "\<exists>hs. hde64_disasm code = Some hs \<and> hs_wf hs \<and> hde64_disasm code' = Some hs"
proof -
  have f: "hs_fields hs_zero" by (simp add: hs_fields_def hs_zero_def)
  have ht: "d_ht (prefix_loop code 16 dis_init) = 0"
    using prefix_loop_inv(5) [of code code' dis_init 16] assms f by simp
  define d0 where "d0 = pref_done (prefix_loop code 16 dis_init)"
  have d0: "pref_done (prefix_loop code' 16 dis_init) = d0" "dis_ok 16 d0" "d_ht d0 = 0"
    using prefixes_ok [OF assms, of dis_init] f ht by (simp_all add: d0_def pref_done_def Let_def)
  obtain d1 where d1: "opcode_flags code d0 = Some d1" "opcode_flags code' d0 = Some d1" "dis_ok 18 d1"
    using opcode_flags_ok [OF assms d0(2) _ d0(3)] by auto
  obtain d2 where d2: "group_flags d1 = Some d2" "dis_ok 18 d2" using group_flags_ok [OF d1(3)] by blast
  obtain d3 where d3: "prefix_check d2 = Some d3" "dis_ok 18 d3" using prefix_check_ok [OF d2(2)] by blast
  obtain d4 where d4: "modrm_part code d3 = Some d4" "modrm_part code' d3 = Some d4" "dis_ok 24 d4"
    using modrm_part_ok [OF assms d3(2)] by auto
  have d5: "immediates code' d4 = immediates code d4" "dis_ok 39 (immediates code d4)"
    using immediates_ok [OF assms d4(3)] by simp_all
  show ?thesis
    using d0(1) d1 d2(1) d3(1) d4(1,2) d5(1) disasm_done_wf [OF d5(2)]
    unfolding hde64_disasm_def Let_def d0_def [symmetric] by simp
qed

text \<open>C39. For arbitrary bytes the disassembler stays within \<open>hde64_table\<close> and returns: the length is
  between 1 and 15, the REX, ModRM and SIB fields are in range and are those of the bytes
  reported, every specific error flag comes with \<open>F_ERROR\<close>, and the result depends on the first 40
  bytes of the code only.\<close>

theorem hde64_disasm_well_formed:
  "\<exists>hs. hde64_disasm code = Some hs \<and> hs_wf hs \<and>
    (\<forall>code'. (\<forall>i<40. code' i = code i) \<longrightarrow> hde64_disasm code' = Some hs)"
proof -
  obtain hs where "hde64_disasm code = Some hs" "hs_wf hs"
    using hde64_disasm_spec [of code code] by (auto simp: agree_def)
  then show ?thesis using hde64_disasm_spec [of code] by (auto simp: agree_def)
qed

theorem hde64_disasm_well_formed_witness:
  "hde64_disasm (\<lambda>i. if i < 100 then 0x90 else 1) = hde64_disasm (\<lambda>i. 0x90)"
  using hde64_disasm_well_formed [of "\<lambda>i. 0x90"] by auto

text \<open>Reference for the arithmetic instructions: one opcode byte, then the ModRM byte, SIB
  byte and displacement of 64-bit addressing.\<close>

definition x86_has_sib :: "u8 \<Rightarrow> bool" where
  "x86_has_sib mr \<longleftrightarrow> unat mr div 64 \<noteq> 3 \<and> unat mr mod 8 = 4"

definition x86_disp_bytes :: "u8 \<Rightarrow> u8 \<Rightarrow> nat" where
  "x86_disp_bytes mr sb =
    (if unat mr div 64 = 1 then 1
     else if unat mr div 64 = 2 then 4
     else if unat mr div 64 = 0 \<and>
       (unat mr mod 8 = 5 \<or> unat mr mod 8 = 4 \<and> unat sb mod 8 = 5) then 4
     else 0)"

lemma alu_flags:
  assumes "unat op < 64" "unat op mod 8 < 4"
  shows "table2 0 op = Some C_MODRM"
proof -
  have e: "\<forall>k<8. hde64_table ! (2 * k) = 0xa5" "\<forall>j<4. hde64_table ! (165 + j) = 1"
    by (simp_all add: hde64_table_def All_less_Suc numeral_eq_Suc)
  have "unat op div 4 = 2 * (unat op div 8)"
  proof -
    define q r where "q = unat op div 8" and "r = unat op mod 8"
    then have "unat op = 4 * (2 * q) + r" "r < 4" using assms(2) by simp_all
    then show ?thesis unfolding q_def [symmetric] by simp
  qed
  moreover have "unat op div 8 < 8" using assms(1) by (simp add: div_less_iff_less_mult)
  moreover have "unat op div 4 < 529" "165 + unat op mod 4 < 529" using assms(1) by (simp_all add: div_less_iff_less_mult)
  ultimately show ?thesis using e by (simp add: table2_def table_def length_table C_MODRM_def)
qed
definition alu_start :: "u8 \<Rightarrow> dis" where
  "alu_start op = dis_init\<lparr>d_p := 1, d_c := op, d_pref := PRE_NONE, d_opcode := op, d_cflags := C_MODRM,
     d_hs := hs_zero\<lparr>hs_opcode := op\<rparr>\<rparr>"

lemma alu_opcode_flags:
  assumes "unat (code 0) < 64" "unat (code 0) mod 8 < 4"
  shows "opcode_flags code (pref_done (prefix_loop code 16 dis_init)) = Some (alu_start (code 0))"
proof -
  let ?op = "code 0"
  have ne: "?op \<noteq> 0xf3" "?op \<noteq> 0xf2" "?op \<noteq> 0xf0" "?op \<notin> {0x26, 0x2e, 0x36, 0x3e, 0x64, 0x65}" "?op \<noteq> 0x66" "?op \<noteq> 0x67"
    "?op \<noteq> 0x0f" using assms by (auto simp: word_unat_eq_iff)
  have le: "\<not> 0xa0 \<le> ?op" using assms(1) by (simp add: word_le_nat_alt)
  have rex: "?op AND 0xf0 \<noteq> 0x40"
  proof
    assume "?op AND 0xf0 = 0x40"
    moreover have "0xf0 = (NOT (mask 4) :: u8)" by (simp add: mask_eq_exp_minus_1)
    ultimately have "unat (?op AND NOT (mask 4)) = 64" by simp
    then show False using assms(1) unfolding unat_and_not_mask by simp
  qed
  have "prefix_loop code 16 dis_init = dis_init\<lparr>d_c := ?op, d_p := 1\<rparr>"
  proof -
    have "prefix_loop code (Suc 15) dis_init = dis_init\<lparr>d_c := ?op, d_p := 1\<rparr>"
      unfolding prefix_loop.simps Let_def using ne by simp
    then show ?thesis by simp
  qed
  then have "pref_done (prefix_loop code 16 dis_init) = dis_init\<lparr>d_c := ?op, d_p := 1, d_pref := PRE_NONE\<rparr>"
    by (simp add: pref_done_def Let_def hs_zero_def)
  then show ?thesis
    using ne(7) le rex alu_flags [OF assms]
    by (simp add: opcode_flags_def rex_prefix_def opcode_byte_def Let_def alu_start_def C_MODRM_def C_ERROR_def)
qed

lemma alu_only_mem:
  assumes "\<forall>i<k. v \<noteq> hde64_table ! (ht + 3 * i)" "ht + 3 * k \<le> 529"
  shows "only_mem ht (ht + 3 * k) v pr r = Some False"
  using assms
proof (induction k arbitrary: ht)
  case (Suc k)
  have e: "ht + 3 * Suc k = (ht + 3) + 3 * k" by simp
  have "\<forall>i<k. v \<noteq> hde64_table ! (ht + 3 + 3 * i)"
    using Suc.prems(1) by (metis Suc_less_eq add.assoc mult_Suc_right)
  moreover have "table ht = Some (hde64_table ! ht)" "v \<noteq> hde64_table ! ht"
    using Suc.prems by (force simp: table_def length_table)+
  ultimately show ?case using Suc.IH [of "ht + 3"] Suc.prems(2) unfolding e by (subst only_mem.simps) auto
qed (simp add: only_mem.simps)

lemma alu_operand_check:
  assumes "unat (d_opcode d) < 64" "opcode2 (d_hs d) = 0"
  shows "operand_check d = Some (False, d_mod d)"
proof -
  have v: "hde64_table ! 472 = 0x62" "hde64_table ! 475 = 0x8d" "hde64_table ! 478 = 0xc4" "hde64_table ! 481 = 0xc5"
    "hde64_table ! 484 = 0xff" by (simp_all add: hde64_table_def)
  have "64 \<le> unat (hde64_table ! (DELTA_OP_ONLY_MEM + 3 * i))" if i: "i < 5" for i
  proof -
    consider "i = 0" | "i = 1" | "i = 2" | "i = 3" | "i = 4" using i by linarith
    then show ?thesis by cases (simp_all add: DELTA_OP_ONLY_MEM_def v)
  qed
  then have "\<forall>i<5. d_opcode d \<noteq> hde64_table ! (DELTA_OP_ONLY_MEM + 3 * i)" using assms(1) by force
  from alu_only_mem [OF this] have "only_mem DELTA_OP_ONLY_MEM DELTA_OP2_ONLY_MEM (d_opcode d) (d_pref d) (d_reg d) = Some False"
    by (simp add: delta_defs)
  moreover have "d_opcode d \<noteq> 0x8c" "d_opcode d \<noteq> 0x8e" using assms(1) by (auto simp: word_unat_eq_iff)
  ultimately show ?thesis using assms(2) by (simp add: operand_check_def Let_def)
qed

lemma modrm_part_alu:
  assumes "unat op < 64"
  shows "modrm_part m (alu_start op) = Some (displacement m (modrm_byte m (alu_start op)))"
proof -
  let ?d = "modrm_byte m (alu_start op)"
  have d: "d_opcode ?d = op" "d_pref ?d = PRE_NONE" "opcode2 (d_hs ?d) = 0" "d_mod ?d = drop_bit 6 (m 1)"
    by (simp_all add: modrm_byte_def alu_start_def Let_def hs_zero_def)
  have "\<not> 0xd9 \<le> op" using assms by (simp add: word_le_nat_alt)
  then have "fpu_check ?d = Some ?d" "lock_check ?d = Some ?d" "operand_check ?d = Some (False, d_mod ?d)"
    using d alu_operand_check [of ?d] assms by (simp_all add: fpu_check_def lock_check_def has_def c_defs)
  then show ?thesis by (simp add: modrm_part_def alu_start_def has_def C_MODRM_def) 
qed

lemma alu_fields:
  fixes c s :: u8
  shows "(drop_bit 6 c = 3) = (unat c div 64 = 3)" "(drop_bit 6 c = 0) = (unat c div 64 = 0)" "(drop_bit 6 c = 1) = (unat c div 64 = 1)"
    "(drop_bit 6 c = 2) = (unat c div 64 = 2)" "(c AND 7 = 4) = (unat c mod 8 = 4)" "(c AND 7 = 5) = (unat c mod 8 = 5)"
    "(drop_bit 6 c AND 1 = 0) = (unat c div 64 mod 2 = 0)"
proof -
  have d: "unat (drop_bit 6 c) = unat c div 64" by (simp only: unat_drop_bit_eq) (simp add: drop_bit_eq_div)
  have m: "unat (c AND 7) = unat c mod 8" "unat (drop_bit 6 c AND 1) = unat c div 64 mod 2"
    using unat_and_mask [of c 3] unat_and_mask [of "drop_bit 6 c" 1] d by (simp_all add: mask_eq_exp_minus_1)
  show "(drop_bit 6 c = 3) = (unat c div 64 = 3)" "(drop_bit 6 c = 0) = (unat c div 64 = 0)" "(drop_bit 6 c = 1) = (unat c div 64 = 1)"
    "(drop_bit 6 c = 2) = (unat c div 64 = 2)" "(c AND 7 = 4) = (unat c mod 8 = 4)" "(c AND 7 = 5) = (unat c mod 8 = 5)"
    "(drop_bit 6 c AND 1 = 0) = (unat c div 64 mod 2 = 0)"
    unfolding word_unat_eq_iff d m by simp_all
qed

lemma alu_displacement:
  fixes m :: mem and op :: u8
  assumes "unat op < 64"
  defines "d \<equiv> displacement m (modrm_byte m (alu_start op))"
  shows "d_p d = 2 + (if x86_has_sib (m 1) then 1 else 0) + x86_disp_bytes (m 1) (m 2)"
    "d_cflags d = C_MODRM" "\<not> bit (hs_flags (d_hs d)) 12"
proof -
  let ?d = "modrm_byte m (alu_start op)"
  let ?e = "?d\<lparr>d_c := m 2, d_p := 3\<rparr>"
  have b: "d_opcode ?d = op" "d_pref ?d = PRE_NONE" "d_p ?d = 2" "d_mod ?d = drop_bit 6 (m 1)" "d_rm ?d = m 1 AND 7"
    "d_cflags ?d = C_MODRM" "hs_flags (d_hs ?d) = F_MODRM"
    by (simp_all add: modrm_byte_def alu_start_def Let_def hs_zero_def)
  have "unat op \<noteq> 0xf6" "unat op \<noteq> 0xf7" using assms(1) by simp_all
  then have "op \<noteq> 0xf6" "op \<noteq> 0xf7" by auto
  then have t: "test_imm ?e = ?e" using b by (simp add: test_imm_def)
  have sz: "disp_size_of ?e = (if unat (m 1) div 64 = 0 then if unat (m 1) mod 8 = 5 then 4 else 0
      else if unat (m 1) div 64 = 1 then 1 else if unat (m 1) div 64 = 2 then 4 else 0)"
    using b by (simp add: disp_size_of_def has_def c_defs alu_fields)
  have lt: "unat (m 1) div 64 < 4" using unat_u8_less [of "m 1"] by (simp add: div_less_iff_less_mult)
  have q: "unat (m 1) div 64 = 0 \<or> unat (m 1) div 64 = 1 \<or> unat (m 1) div 64 = 2 \<or> unat (m 1) div 64 = 3" using lt by linarith
  obtain d1 s1 where s1: "sib_byte (m 2) ?e = (d1, s1)" by fastforce
  have d1: "d_p d1 = 3 + (if x86_has_sib (m 1) then 1 else 0)" "d_cflags d1 = C_MODRM" "\<not> bit (hs_flags (d_hs d1)) 12"
    using s1 b by (auto simp: sib_byte_def x86_has_sib_def alu_fields Let_def bit_simps f_defs split: if_splits)
  have sz1: "s1 = x86_disp_bytes (m 1) (m 2)"
    using s1 b sz q by (auto simp: sib_byte_def x86_disp_bytes_def alu_fields Let_def split: if_splits)
  have d: "d = load_disp m s1 (d1\<lparr>d_p := d_p d1 - 1\<rparr>)"
    unfolding d_def displacement_def Let_def using b(3) t s1 by simp
  show "d_p d = 2 + (if x86_has_sib (m 1) then 1 else 0) + x86_disp_bytes (m 1) (m 2)"
    "d_cflags d = C_MODRM" "\<not> bit (hs_flags (d_hs d)) 12"
    unfolding d load_disp_def Let_def using d1 sz1 by (simp_all add: bit_simps f_defs)
qed

lemma x86_disp_bytes_le: "x86_disp_bytes a b \<le> 4"
  by (simp add: x86_disp_bytes_def)

text \<open>The arithmetic instructions between memory and registers (\<open>ADD\<close>, \<open>OR\<close>, \<open>ADC\<close>, \<open>SBB\<close>, \<open>AND\<close>,
  \<open>SUB\<close>, \<open>XOR\<close>, \<open>CMP\<close>: opcodes below 0x40 whose low three bits are below 4): for every ModRM and SIB byte
  the length is that of the processor manual, the opcode and ModRM bytes, the SIB byte if there is one, and the
  displacement; no error is reported.\<close>

theorem hde64_arithmetic_length:
  assumes "unat (code 0) < 64" "unat (code 0) mod 8 < 4"
  shows "\<exists>hs. hde64_disasm code = Some hs \<and>
    unat (hs_len hs) = 2 + (if x86_has_sib (code 1) then 1 else 0) + x86_disp_bytes (code 1) (code 2) \<and>
    hs_flags hs AND F_ERROR = 0"
proof -
  let ?d = "displacement code (modrm_byte code (alu_start (code 0)))"
  note a = alu_displacement [OF assms(1), of code]
  have g: "group_flags (alu_start (code 0)) = Some (alu_start (code 0))" "prefix_check (alu_start (code 0)) = Some (alu_start (code 0))"
    by (simp_all add: group_flags_def prefix_check_def alu_start_def has_def c_defs hs_zero_def)
  have i: "immediates code ?d = ?d"
    using a(2) by (simp add: immediates_def imm_rest_def has_def c_defs Let_def)
  have "d_p ?d \<le> 7" using a(1) x86_disp_bytes_le [of "code 1" "code 2"] by simp
  then have l: "unat (word_of_nat (d_p ?d) :: u8) = d_p ?d" "\<not> 15 < (word_of_nat (d_p ?d) :: u8)"
    by (simp_all add: unat_of_nat word_less_nat_alt)
  have "hs_flags (d_hs ?d) AND F_ERROR = 0"
    using a(3) by (intro bit_word_eqI) (auto simp: bit_simps F_ERROR_def numeral_eq_Suc less_Suc_eq)
  moreover have "hde64_disasm code = Some (disasm_done ?d)"
    unfolding hde64_disasm_def Let_def using alu_opcode_flags [of code, OF assms] g modrm_part_alu [OF assms(1), of code] i by simp
  ultimately show ?thesis using l a(1) by (simp add: disasm_done_def Let_def)
qed

theorem hde64_arithmetic_length_witness:
  "\<exists>hs. hde64_disasm (\<lambda>i. if i = 0 then 0x03 else if i = 1 then 0x44 else if i = 2 then 0x24 else 0x08) = Some hs \<and>
    unat (hs_len hs) = 4 \<and> hs_flags hs AND F_ERROR = 0"
  using hde64_arithmetic_length [of "\<lambda>i. if i = 0 then 0x03 else if i = 1 then 0x44 else if i = 2 then 0x24 else 0x08"]
  by (simp add: x86_has_sib_def x86_disp_bytes_def)
end
