(* ===== verification/Hde64Local.thy ===== *)
theory Hde64Local
  imports Hde64
begin

text \<open>
  More on the disassembler of \<open>Hde64\<close>, for its client, the inline hooking of \<open>SubstrateX86\<close>: the result
  depends on the bytes of the instruction only, and the results for the branches and for the loads relative
  to the instruction pointer, which the client relocates.
\<close>

section \<open>The result depends on the bytes of the instruction only\<close>

text \<open>Every phase reads bytes below the read pointer that it leaves behind, with one exception: the byte
  after ModRM is read ahead even when it is no SIB byte, and then only stays in \<open>d_c\<close>.\<close>

definition agree_to :: "nat \<Rightarrow> mem \<Rightarrow> mem \<Rightarrow> bool" where
  "agree_to n m m' \<longleftrightarrow> (\<forall>i<n. m' i = m i)"

lemma agree_toD: "agree_to n m m' \<Longrightarrow> i < n \<Longrightarrow> m' i = m i"
  by (simp add: agree_to_def)

lemma agree_to_mono: "agree_to n m m' \<Longrightarrow> k \<le> n \<Longrightarrow> agree_to k m m'"
  by (simp add: agree_to_def)

lemma rd_agree_to:
  assumes "agree_to n m m'"
  shows "p + 1 < n \<Longrightarrow> rd16 m' p = rd16 m p" "p + 3 < n \<Longrightarrow> rd32 m' p = rd32 m p" "p + 7 < n \<Longrightarrow> rd64 m' p = rd64 m p"
  using assms by (simp_all add: rd16_def rd32_def rd64_def agree_to_def)

lemma prefix_loop_mono: "d_p d \<le> d_p (prefix_loop m x d)"
proof (induction x arbitrary: d)
  case (Suc x)
  have "d_p d \<le> d_p (prefix_loop m x (d\<lparr>d_c := c, d_p := d_p d + 1, d_hs := hs, d_pref := pr\<rparr>))" for c hs pr
    using Suc.IH [of "d\<lparr>d_c := c, d_p := d_p d + 1, d_hs := hs, d_pref := pr\<rparr>"] by simp
  then show ?case by (simp add: Let_def)
qed simp

lemma prefix_loop_local:
  "agree_to (d_p (prefix_loop m x d)) m m' \<Longrightarrow> prefix_loop m' x d = prefix_loop m x d"
proof (induction x arbitrary: d)
  case (Suc x)
  have "d_p d < d_p (prefix_loop m (Suc x) d)"
    using prefix_loop_mono [of "d\<lparr>d_c := m (d_p d), d_p := d_p d + 1, d_hs := hs, d_pref := pr\<rparr>" m x for hs pr]
    by (auto simp: Let_def Suc_le_eq)
  then have c: "m' (d_p d) = m (d_p d)" using Suc.prems by (rule agree_toD [rotated])
  show ?case
    using Suc.prems unfolding prefix_loop.simps Let_def c by (auto intro!: Suc.IH split: if_splits)
qed simp

lemma rex_opcode_local:
  "m' (d_p d) = m (d_p d) \<Longrightarrow> rex_prefix m' d = rex_prefix m d"
  "m' (d_p d) = m (d_p d) \<Longrightarrow> opcode_byte m' d = opcode_byte m d"
  "d_c d AND 0xf0 \<noteq> 0x40 \<Longrightarrow> rex_prefix m' d = rex_prefix m d"
  "d_c d \<noteq> 0x0f \<Longrightarrow> opcode_byte m' d = opcode_byte m d"
  by (simp_all add: rex_prefix_def opcode_byte_def Let_def)

lemma opcode_flags_local:
  assumes "opcode_flags m d = Some d'" "agree_to (d_p d') m m'"
  shows "opcode_flags m' d = Some d'" "d_p d \<le> d_p d'"
proof -
  have p: "d_p (error_opcode e) = d_p e" for e by (simp add: error_opcode_def)
  obtain e err where r: "rex_prefix m d = (e, err)" by fastforce
  let ?o = "opcode_byte m e"
  have de: "d_p d \<le> d_p e" using r by (auto simp: rex_prefix_def Let_def split: if_splits)
  have eo: "d_p e \<le> d_p ?o" "d_c e = 0x0f \<Longrightarrow> d_p e < d_p ?o" by (simp_all add: opcode_byte_def Let_def)
  have d': "d_p d' = (if err then d_p e else d_p ?o)"
    using assms(1) unfolding opcode_flags_def r by (auto simp: p Let_def split: if_splits bind_splits)
  have ed: "d_p e \<le> d_p d'" using d' eo(1) by simp
  have r': "rex_prefix m' d = (e, err)"
  proof (cases "d_c d AND 0xf0 = 0x40")
    case True
    then have "d_p d < d_p e" using r by (auto simp: rex_prefix_def Let_def split: if_splits)
    then have "m' (d_p d) = m (d_p d)" using assms(2) ed by (auto intro: agree_toD)
    then have "rex_prefix m' d = rex_prefix m d" by (rule rex_opcode_local(1))
    then show ?thesis using r by simp
  next
    case False
    then have "rex_prefix m' d = rex_prefix m d" by (rule rex_opcode_local(3))
    then show ?thesis using r by simp
  qed
  have "opcode_byte m' e = ?o" if "\<not> err"
  proof (cases "d_c e = 0x0f")
    case True
    then have "m' (d_p e) = m (d_p e)" using assms(2) eo(2) d' that by (auto intro: agree_toD)
    then show ?thesis by (rule rex_opcode_local(2))
  qed (rule rex_opcode_local(4))
  then show "opcode_flags m' d = Some d'" using assms(1) unfolding opcode_flags_def r r' by (auto split: if_splits)
  show "d_p d \<le> d_p d'" using de ed by simp
qed

text \<open>Phases that do not read code leave the pointer alone.\<close>

lemma check_pointers:
  "group_flags d = Some d' \<Longrightarrow> d_p d' = d_p d" "prefix_check d = Some d' \<Longrightarrow> d_p d' = d_p d"
  "fpu_check d = Some d' \<Longrightarrow> d_p d' = d_p d" "lock_check d = Some d' \<Longrightarrow> d_p d' = d_p d"
  by (auto simp: group_flags_def prefix_check_def fpu_check_def lock_check_def Let_def split: if_splits bind_splits)

lemma load_disp_p [simp]: "d_p (load_disp m n d) = d_p d + n"
  by (simp add: load_disp_def Let_def)

lemma load_disp_local:
  assumes "agree_to (d_p d + n) m m'"
  shows "load_disp m' n d = load_disp m n d"
proof -
  have "n = 1 \<Longrightarrow> m' (d_p d) = m (d_p d)" "n = 2 \<Longrightarrow> rd16 m' (d_p d) = rd16 m (d_p d)" "n = 4 \<Longrightarrow> rd32 m' (d_p d) = rd32 m (d_p d)"
    using assms by (auto intro: rd_agree_to agree_toD)
  then show ?thesis by (simp add: load_disp_def Let_def)
qed

lemma load_disp_c: "load_disp m n (d\<lparr>d_c := c\<rparr>) = (load_disp m n d)\<lparr>d_c := c\<rparr>"
  by (simp add: load_disp_def Let_def flag_def)

lemma test_imm_c: "test_imm (d\<lparr>d_c := c, d_p := p\<rparr>) = (test_imm d)\<lparr>d_c := c, d_p := p\<rparr>"
  by (simp add: test_imm_def)

lemma test_imm_fields [simp]:
  "d_p (test_imm d) = d_p d" "d_mod (test_imm d) = d_mod d" "d_rm (test_imm d) = d_rm d" "d_pref (test_imm d) = d_pref d"
  by (simp_all add: test_imm_def)

lemma sib_byte_none: "\<not> (d_mod d \<noteq> 3 \<and> d_rm d = 4) \<Longrightarrow> sib_byte c d = (d, disp_size_of d)"
  by (simp only: sib_byte_def if_False)

lemma disp_size_c: "disp_size_of (d\<lparr>d_c := c, d_p := p\<rparr>) = disp_size_of d"
  by (simp add: disp_size_of_def)

lemma test_imm_back: "(test_imm d)\<lparr>d_c := c, d_p := d_p d\<rparr> = (test_imm d)\<lparr>d_c := c\<rparr>"
  by (simp add: test_imm_def)

lemma displacement_none:
  assumes "\<not> (d_mod d \<noteq> 3 \<and> d_rm d = 4)"
  shows "displacement k d = (load_disp k (disp_size_of (test_imm d)) (test_imm d))\<lparr>d_c := k (d_p d)\<rparr>"
proof -
  let ?d = "(test_imm d)\<lparr>d_c := k (d_p d), d_p := d_p d + 1\<rparr>"
  note n = disp_size_c [where d = "test_imm d" and c = "k (d_p d)" and p = "d_p d + 1"]
  have s: "sib_byte (k (d_p d)) ?d = (?d, disp_size_of (test_imm d))"
    unfolding n [symmetric] by (rule sib_byte_none) (use assms in simp)
  have "?d\<lparr>d_p := d_p ?d - 1\<rparr> = (test_imm d)\<lparr>d_c := k (d_p d)\<rparr>" using test_imm_back [of d "k (d_p d)"] by simp
  then show ?thesis unfolding displacement_def Let_def test_imm_c s prod.case load_disp_c [symmetric] by (rule arg_cong)
qed

lemma displacement_local:
  assumes "agree_to (d_p (displacement m d)) m m'"
  shows "\<exists>c. displacement m' d = (displacement m d)\<lparr>d_c := c\<rparr>" "d_p d \<le> d_p (displacement m d)"
proof -
  show mono: "d_p d \<le> d_p (displacement m d)"
    by (simp add: displacement_def Let_def sib_byte_def)
  show "\<exists>c. displacement m' d = (displacement m d)\<lparr>d_c := c\<rparr>"
  proof (cases "d_mod d \<noteq> 3 \<and> d_rm d = 4")
    case True
    then have "d_p d < d_p (displacement m d)" by (simp add: displacement_def Let_def sib_byte_def)
    then have c: "m' (d_p d) = m (d_p d)" using assms by (auto intro: agree_toD)
    obtain d1 n where s: "sib_byte (m (d_p d)) (test_imm (d\<lparr>d_c := m (d_p d), d_p := d_p d + 1\<rparr>)) = (d1, n)" by fastforce
    have "displacement m' d = displacement m d"
      using assms unfolding displacement_def c Let_def s prod.case
      by (intro load_disp_local) simp
    then show ?thesis by (intro exI [of _ "d_c (displacement m d)"]) simp
  next
    case False
    let ?n = "disp_size_of (test_imm d)"
    note e = displacement_none [OF False]
    have "load_disp m' ?n (test_imm d) = load_disp m ?n (test_imm d)"
      by (rule load_disp_local) (use assms in \<open>simp add: e\<close>)
    then show ?thesis by (intro exI [of _ "m' (d_p d)"]) (simp add: e)
  qed
qed

lemma modrm_part_local:
  assumes "modrm_part m d = Some d'" "agree_to (d_p d') m m'"
  shows "\<exists>c. modrm_part m' d = Some (d'\<lparr>d_c := c\<rparr>)" "d_p d \<le> d_p d'"
proof -
  have "(\<exists>c. modrm_part m' d = Some (d'\<lparr>d_c := c\<rparr>)) \<and> d_p d \<le> d_p d'"
  proof (cases "has (d_cflags d) C_MODRM")
    case True
    obtain d1 where d1: "fpu_check (modrm_byte m d) = Some d1" using assms(1) True by (auto simp: modrm_part_def split: bind_splits)
    obtain d2 where d2: "lock_check d1 = Some d2" using assms(1) True d1 by (auto simp: modrm_part_def split: bind_splits)
    obtain e mo where o: "operand_check d2 = Some (e, mo)" using assms(1) True d1 d2 by (auto simp: modrm_part_def split: bind_splits)
    let ?d = "if e then flag (F_ERROR OR F_ERROR_OPERAND) (d2\<lparr>d_mod := mo\<rparr>) else d2\<lparr>d_mod := mo\<rparr>"
    have d': "d' = displacement m ?d" using assms(1) True d1 d2 o by (simp add: modrm_part_def Let_def)
    have "d_p ?d = d_p d + 1" using check_pointers(3) [OF d1] check_pointers(4) [OF d2] by (simp add: modrm_byte_def Let_def)
    then have p: "d_p d < d_p d'" using displacement_local(2) [of m ?d m] d' by (simp add: agree_to_def)
    then have "m' (d_p d) = m (d_p d)" using assms(2) by (auto intro: agree_toD)
    then have "modrm_byte m' d = modrm_byte m d" by (simp add: modrm_byte_def Let_def)
    then show ?thesis
      using p True d1 d2 o displacement_local(1) [of m ?d m'] assms(2) unfolding d'
      by (simp add: modrm_part_def Let_def less_imp_le split: if_splits)
  next
    case False
    then have d': "d' = (if has (d_pref d) PRE_LOCK then flag (F_ERROR OR F_ERROR_LOCK) d else d)"
      using assms(1) by (simp add: modrm_part_def)
    have "modrm_part m' d = Some (d'\<lparr>d_c := d_c d'\<rparr>)" using False d' by (simp add: modrm_part_def)
    then have "\<exists>c. modrm_part m' d = Some (d'\<lparr>d_c := c\<rparr>)" by blast
    moreover have "d_p d \<le> d_p d'" using d' by simp
    ultimately show ?thesis ..
  qed
  then show "\<exists>c. modrm_part m' d = Some (d'\<lparr>d_c := c\<rparr>)" "d_p d \<le> d_p d'" by simp_all
qed

lemma set_imm_local:
  shows "agree_to (d_p d + 1) m m' \<Longrightarrow> set_imm8 m' f d = set_imm8 m f d"
    "agree_to (d_p d + 2) m m' \<Longrightarrow> set_imm16 m' f d = set_imm16 m f d"
    "agree_to (d_p d + 4) m m' \<Longrightarrow> set_imm32 m' f d = set_imm32 m f d"
    "agree_to (d_p d + 8) m m' \<Longrightarrow> set_imm64 m' f d = set_imm64 m f d"
  using rd_agree_to [of _ m m' "d_p d"]
  by (simp_all add: set_imm8_def set_imm16_def set_imm32_def set_imm64_def Let_def agree_to_def)

lemma set_imm_p [simp]:
  "d_p (set_imm8 m f d) = d_p d + 1" "d_p (set_imm16 m f d) = d_p d + 2"
  "d_p (set_imm32 m f d) = d_p d + 4" "d_p (set_imm64 m f d) = d_p d + 8"
  by (simp_all add: set_imm8_def set_imm16_def set_imm32_def set_imm64_def Let_def)

lemma set_imm_c:
  "set_imm8 m f (d\<lparr>d_c := c\<rparr>) = (set_imm8 m f d)\<lparr>d_c := c\<rparr>"
  "set_imm16 m f (d\<lparr>d_c := c\<rparr>) = (set_imm16 m f d)\<lparr>d_c := c\<rparr>"
  "set_imm32 m f (d\<lparr>d_c := c\<rparr>) = (set_imm32 m f d)\<lparr>d_c := c\<rparr>"
  "set_imm64 m f (d\<lparr>d_c := c\<rparr>) = (set_imm64 m f d)\<lparr>d_c := c\<rparr>"
  by (simp_all add: set_imm8_def set_imm16_def set_imm32_def set_imm64_def Let_def flag_def)

lemma imm_rest_local:
  "agree_to (d_p (imm_rest m j d)) m m' \<Longrightarrow> imm_rest m' j d = imm_rest m j d"
  "d_p d \<le> d_p (imm_rest m j d)"
proof -
  define d1 where "d1 = (if j \<or> has (d_cflags d) C_IMM16 then set_imm16 m F_IMM16 d else d)"
  define d2 where "d2 = (if has (d_cflags d1) C_IMM8 then set_imm8 m F_IMM8 d1 else d1)"
  have e: "imm_rest m j d = (if has (d_cflags d2) C_REL32 then set_imm32 m (F_IMM32 OR F_RELATIVE) d2
        else if has (d_cflags d2) C_REL8 then set_imm8 m (F_IMM8 OR F_RELATIVE) d2 else d2)"
    by (simp only: imm_rest_def Let_def d1_def d2_def)
  have p: "d_p d \<le> d_p d1" "d_p d1 \<le> d_p d2" "d_p d2 \<le> d_p (imm_rest m j d)"
    by (simp_all add: d1_def d2_def e)
  then show "d_p d \<le> d_p (imm_rest m j d)" by simp
  assume a: "agree_to (d_p (imm_rest m j d)) m m'"
  have 1: "(if j \<or> has (d_cflags d) C_IMM16 then set_imm16 m' F_IMM16 d else d) = d1"
    using agree_to_mono [OF a, of "d_p d1"] p set_imm_local(2) [of d m m'] by (simp add: d1_def split: if_splits)
  have 2: "(if has (d_cflags d1) C_IMM8 then set_imm8 m' F_IMM8 d1 else d1) = d2"
    using agree_to_mono [OF a, of "d_p d2"] p set_imm_local(1) [of d1 m m'] by (simp add: d2_def split: if_splits)
  show "imm_rest m' j d = imm_rest m j d"
    using a set_imm_local(1,3) [of d2 m m'] unfolding e unfolding imm_rest_def Let_def 1 2 by (simp split: if_splits)
qed

lemma imm_rest_c: "imm_rest m j (d\<lparr>d_c := c\<rparr>) = (imm_rest m j d)\<lparr>d_c := c\<rparr>"
  by (simp add: imm_rest_def Let_def set_imm_c)

lemma immediates_c: "immediates m (d\<lparr>d_c := c\<rparr>) = (immediates m d)\<lparr>d_c := c\<rparr>"
  by (simp add: immediates_def set_imm_c imm_rest_c)

lemma immediates_local:
  "agree_to (d_p (immediates m d)) m m' \<Longrightarrow> immediates m' d = immediates m d"
  "d_p d \<le> d_p (immediates m d)"
proof -
  have r: "d_p d \<le> d_p e \<Longrightarrow> d_p d \<le> d_p (imm_rest m j e)" for e j
    by (erule le_trans) (rule imm_rest_local(2))
  show "d_p d \<le> d_p (immediates m d)" by (simp add: immediates_def r)
  have s: "imm_rest m' j (g m') = imm_rest m j (g m)"
    if "agree_to (d_p (imm_rest m j (g m))) m m'" "agree_to (d_p (g m)) m m' \<Longrightarrow> g m' = g m" for j and g :: "mem \<Rightarrow> dis"
    using that imm_rest_local [where d = "g m"] agree_to_mono by metis
  show "agree_to (d_p (immediates m d)) m m' \<Longrightarrow> immediates m' d = immediates m d"
    using set_imm_local(2-4) [of d m m'] imm_rest_local(1) [where d = d and m = m and m' = m']
      s [of False "\<lambda>m. set_imm64 m F_IMM64 d"] s [of False "\<lambda>m. set_imm32 m F_IMM32 d"]
    unfolding immediates_def by (simp split: if_splits)
qed

lemma disasm_done_c: "disasm_done (d\<lparr>d_c := c\<rparr>) = disasm_done d"
  by (simp add: disasm_done_def Let_def)

text \<open>The flag \<open>F_ERROR_LENGTH\<close> is the only sign of more bytes than the reported length.\<close>

lemma disasm_done_length:
  assumes "dis_ok 39 d" "hs_flags (disasm_done d) AND F_ERROR_LENGTH = 0"
  shows "d_p d = unat (hs_len (disasm_done d))"
proof -
  have u: "unat (word_of_nat (d_p d) :: u8) = d_p d" using assms(1) by (simp add: dis_ok_def unat_of_nat)
  have "bit (hs_flags (d_hs d) OR (F_ERROR OR F_ERROR_LENGTH)) 14" "bit F_ERROR_LENGTH 14"
    by (simp_all add: f_defs bit_simps)
  then have "(hs_flags (d_hs d) OR (F_ERROR OR F_ERROR_LENGTH)) AND F_ERROR_LENGTH \<noteq> 0"
    by (metis bit_0_eq bit_and_iff bot_apply bot_bool_def)
  then show ?thesis using assms(2) u by (auto simp: disasm_done_def Let_def split: if_splits)
qed

lemma hde64_local_spec:
  assumes "hde64_disasm m = Some hs" "hs_flags hs AND F_ERROR_LENGTH = 0" "\<And>i. i < unat (hs_len hs) \<Longrightarrow> m' i = m i"
  shows "hde64_disasm m' = Some hs"
proof -
  have ag: "agree m m" by (simp add: agree_def)
  have f: "hs_fields hs_zero" by (simp add: hs_fields_def hs_zero_def)
  have ht: "d_ht (prefix_loop m 16 dis_init) = 0" using prefix_loop_inv(5) [OF ag, of dis_init 16] f by simp
  define d0 where "d0 = pref_done (prefix_loop m 16 dis_init)"
  have d0: "dis_ok 16 d0" "d_ht d0 = 0" using prefixes_ok [OF ag, of dis_init] f ht by (simp_all add: d0_def pref_done_def Let_def)
  obtain d1 where d1: "opcode_flags m d0 = Some d1" "dis_ok 18 d1" using opcode_flags_ok [OF ag d0(1) _ d0(2)] by auto
  obtain d2 where d2: "group_flags d1 = Some d2" "dis_ok 18 d2" using group_flags_ok [OF d1(2)] by blast
  obtain d3 where d3: "prefix_check d2 = Some d3" "dis_ok 18 d3" using prefix_check_ok [OF d2(2)] by blast
  obtain d4 where d4: "modrm_part m d3 = Some d4" "dis_ok 24 d4" using modrm_part_ok [OF ag d3(2)] by auto
  have d5: "dis_ok 39 (immediates m d4)" using immediates_ok [OF ag d4(2)] by simp
  have hs: "hs = disasm_done (immediates m d4)"
    using assms(1) d1(1) d2(1) d3(1) d4(1) unfolding hde64_disasm_def Let_def d0_def [symmetric] by simp
  have a: "agree_to (d_p (immediates m d4)) m m'"
    using assms(2,3) disasm_done_length [OF d5] unfolding hs by (simp add: agree_to_def)
  have p: "d_p d4 \<le> d_p (immediates m d4)" "d_p d3 \<le> d_p d4" "d_p d3 = d_p d1"
    "d_p d0 = d_p (prefix_loop m 16 dis_init)" "d_p d0 \<le> d_p d1"
    using immediates_local(2) modrm_part_local(2) [OF d4(1), of m] check_pointers(1) [OF d2(1)] check_pointers(2) [OF d3(1)]
      opcode_flags_local(2) [OF d1(1), of m] by (simp_all add: agree_to_def d0_def pref_done_def Let_def)
  have 0: "pref_done (prefix_loop m' 16 dis_init) = d0"
    unfolding d0_def by (subst prefix_loop_local [OF agree_to_mono [OF a]]) (use p in auto)
  have 1: "opcode_flags m' d0 = Some d1" by (rule opcode_flags_local(1) [OF d1(1) agree_to_mono [OF a]]) (use p in simp)
  obtain c where 4: "modrm_part m' d3 = Some (d4\<lparr>d_c := c\<rparr>)"
    using modrm_part_local(1) [OF d4(1) agree_to_mono [OF a p(1)]] by blast
  show ?thesis
    using 1 d2(1) d3(1) 4 immediates_local(1) [OF a]
    unfolding hde64_disasm_def Let_def 0 hs by (simp add: immediates_c disasm_done_c)
qed


section \<open>Branches and loads relative to the instruction pointer\<close>

definition plain_start :: "u8 \<Rightarrow> u8 \<Rightarrow> dis" where
  "plain_start f op = (alu_start op)\<lparr>d_cflags := f\<rparr>"

lemma plain_opcode_flags:
  assumes "code 0 \<notin> {0xf3, 0xf2, 0xf0, 0x26, 0x2e, 0x36, 0x3e, 0x64, 0x65, 0x66, 0x67, 0x0f, 0xa0, 0xa1, 0xa2, 0xa3}"
    "\<not> (0xa0 \<le> code 0 \<and> code 0 \<le> 0xa3)" "code 0 AND 0xf0 \<noteq> 0x40" "table2 0 (code 0) = Some f" "f \<noteq> C_ERROR"
  shows "opcode_flags code (pref_done (prefix_loop code 16 dis_init)) = Some (plain_start f (code 0))"
proof -
  have "prefix_loop code (Suc 15) dis_init = dis_init\<lparr>d_c := code 0, d_p := 1\<rparr>"
    unfolding prefix_loop.simps Let_def using assms(1) by simp
  then have "pref_done (prefix_loop code 16 dis_init) = dis_init\<lparr>d_c := code 0, d_p := 1, d_pref := PRE_NONE\<rparr>"
    by (simp add: pref_done_def Let_def hs_zero_def)
  then show ?thesis
    using assms
    by (simp add: opcode_flags_def rex_prefix_def opcode_byte_def Let_def alu_start_def plain_start_def)
qed

lemma high_nibble:
  fixes x :: u8
  shows "unat (x AND 0xf0) = unat x - unat x mod 16"
proof -
  have "0xf0 = (NOT (mask 4) :: u8)" by (simp add: mask_eq_exp_minus_1)
  then show ?thesis using unat_and_not_mask [of x 4] by (simp add: minus_mod_eq_div_mult)
qed

lemma short_branch_entry:
  fixes x :: u8
  assumes "x AND 0xf0 = 0x70"
  shows "table2 0 x = Some C_REL8" "unat x div 16 = 7"
proof -
  have "unat x - unat x mod 16 = 112" using high_nibble [of x] assms by simp
  then show d: "unat x div 16 = 7" using minus_mod_eq_div_mult [of "unat x" 16] by simp
  define q where "q = unat x div 4"
  have "q = 28 \<or> q = 29 \<or> q = 30 \<or> q = 31" using d unfolding q_def by linarith
  then have "hde64_table ! q = 161" by (auto simp: hde64_table_def)
  moreover have "\<forall>j<4. hde64_table ! (161 + j) = 0x20"
    by (simp add: hde64_table_def All_less_Suc numeral_eq_Suc)
  moreover have "q < 529" using \<open>q = 28 \<or> _\<close> by auto
  moreover have "161 + unat x mod 4 < 529" using mod_less_divisor [of 4 "unat x"] by linarith
  ultimately show "table2 0 x = Some C_REL8"
    unfolding q_def by (simp add: table2_def table_def length_table C_REL8_def)
qed

lemma branch_entries:
  "table2 0 0xe8 = Some (C_REL32 OR C_IMM_P66)" "table2 0 0xe9 = Some (C_REL32 OR C_IMM_P66)"
  "table2 0 0xeb = Some C_REL8" "table2 0 0xe3 = Some C_REL8" "table2 0 0x8b = Some C_MODRM"
  by (simp_all add: table2_def table_def length_table hde64_table_def C_REL32_def C_IMM_P66_def C_REL8_def C_MODRM_def)

lemma plain_no_group:
  assumes "\<not> has f C_GROUP" "\<not> has f C_MODRM"
  shows "group_flags (plain_start f op) = Some ((plain_start f op))" "prefix_check (plain_start f op) = Some (plain_start f op)"
    "modrm_part m (plain_start f op) = Some (plain_start f op)"
  using assms by (simp_all add: group_flags_def prefix_check_def modrm_part_def plain_start_def alu_start_def hs_zero_def)
    (simp_all add: has_def c_defs)

definition short_branch :: "u8 \<Rightarrow> bool" where
  "short_branch x \<longleftrightarrow> x = 0xeb \<or> x = 0xe3 \<or> x AND 0xf0 = 0x70"

definition near_branch :: "u8 \<Rightarrow> bool" where
  "near_branch x \<longleftrightarrow> x = 0xe8 \<or> x = 0xe9"

lemma branch_plain:
  assumes "short_branch (code 0) \<or> near_branch (code 0)"
  shows "code 0 \<notin> {0xf3, 0xf2, 0xf0, 0x26, 0x2e, 0x36, 0x3e, 0x64, 0x65, 0x66, 0x67, 0x0f, 0xa0, 0xa1, 0xa2, 0xa3}"
    "\<not> (0xa0 \<le> code 0 \<and> code 0 \<le> 0xa3)" "code 0 AND 0xf0 \<noteq> 0x40"
proof -
  have "unat (code 0) \<in> {0xe8, 0xe9, 0xeb, 0xe3} \<or> unat (code 0) div 16 = 7"
    using assms short_branch_entry(2) [of "code 0"] by (auto simp: short_branch_def near_branch_def)
  then show "code 0 \<notin> {0xf3, 0xf2, 0xf0, 0x26, 0x2e, 0x36, 0x3e, 0x64, 0x65, 0x66, 0x67, 0x0f, 0xa0, 0xa1, 0xa2, 0xa3}"
    "\<not> (0xa0 \<le> code 0 \<and> code 0 \<le> 0xa3)" by (auto simp: word_le_nat_alt)
  show "code 0 AND 0xf0 \<noteq> 0x40" using assms by (auto simp: short_branch_def near_branch_def)
qed

lemma short_branch_decode:
  assumes "short_branch (code 0)"
  shows "\<exists>hs. hde64_disasm code = Some hs \<and> hs_len hs = 2 \<and> modrm hs = 0 \<and> hs_flags hs AND F_ERROR_LENGTH = 0"
proof -
  have t: "table2 0 (code 0) = Some C_REL8"
    using assms short_branch_entry(1) [of "code 0"] branch_entries by (auto simp: short_branch_def)
  have n: "C_REL8 \<noteq> C_ERROR" by (simp add: c_defs)
  note o = plain_opcode_flags [of code, OF branch_plain [of code, OF disjI1, OF assms] t n]
  have g: "\<not> has C_REL8 C_GROUP" "\<not> has C_REL8 C_MODRM" by (simp_all add: has_def c_defs)
  let ?d = "set_imm8 code (F_IMM8 OR F_RELATIVE) (plain_start C_REL8 (code 0))"
  have i: "immediates code (plain_start C_REL8 (code 0)) = ?d"
    by (simp add: immediates_def imm_rest_def plain_start_def has_def c_defs Let_def)
  have "hde64_disasm code = Some (disasm_done ?d)"
    unfolding hde64_disasm_def Let_def using o plain_no_group [OF g] i by simp
  then show ?thesis
    by (simp add: disasm_done_def set_imm8_def plain_start_def alu_start_def hs_zero_def Let_def f_defs)
qed

lemma near_branch_decode:
  assumes "near_branch (code 0)"
  shows "\<exists>hs. hde64_disasm code = Some hs \<and> hs_len hs = 5 \<and> modrm hs = 0 \<and> hs_flags hs AND F_ERROR_LENGTH = 0"
proof -
  let ?f = "C_REL32 OR C_IMM_P66"
  have t: "table2 0 (code 0) = Some ?f"
    using assms branch_entries by (auto simp: near_branch_def)
  have n: "?f \<noteq> C_ERROR" by (simp add: c_defs)
  note o = plain_opcode_flags [of code, OF branch_plain [of code, OF disjI2, OF assms] t n]
  have g: "\<not> has ?f C_GROUP" "\<not> has ?f C_MODRM" by (simp_all add: has_def c_defs)
  let ?d = "set_imm32 code (F_IMM32 OR F_RELATIVE) (plain_start ?f (code 0))"
  have i: "immediates code (plain_start ?f (code 0)) = ?d"
    by (simp add: immediates_def plain_start_def alu_start_def has_def c_defs Let_def)
  have "hde64_disasm code = Some (disasm_done ?d)"
    unfolding hde64_disasm_def Let_def using o plain_no_group [OF g] i by simp
  then show ?thesis
    by (simp add: disasm_done_def set_imm32_def plain_start_def alu_start_def hs_zero_def Let_def f_defs)
qed

text \<open>\<open>mov r64, [rip + disp32]\<close>: REX.W, opcode, ModRM and displacement.\<close>

definition rip_load :: "mem \<Rightarrow> bool" where
  "rip_load code \<longleftrightarrow> (code 0 = 0x48 \<or> code 0 = 0x4c) \<and> code 1 = 0x8b \<and> code 2 AND 0xc7 = 5"

lemma rip_load_decode:
  assumes "rip_load code"
  shows "\<exists>hs. hde64_disasm code = Some hs \<and> hs_len hs = 7 \<and> modrm hs = code 2 \<and> hs_flags hs AND F_ERROR_LENGTH = 0 \<and>
    hs_opcode hs = 0x8b \<and> disp hs = rd32 code 3 \<and> modrm_reg hs = drop_bit 3 (code 2 AND 0x3f) \<and>
    rex_r hs = (if code 0 = 0x4c then 1 else 0)"
proof -
  have r: "code 0 = 0x48 \<or> code 0 = 0x4c" and b: "code 1 = 0x8b" and c: "code 2 AND 0xc7 = 5"
    using assms by (simp_all add: rip_load_def)
  have "prefix_loop code (Suc 15) dis_init = dis_init\<lparr>d_c := code 0, d_p := 1\<rparr>"
    unfolding prefix_loop.simps Let_def using r by auto
  then have p: "pref_done (prefix_loop code 16 dis_init) = dis_init\<lparr>d_c := code 0, d_p := 1, d_pref := PRE_NONE\<rparr>"
    by (simp add: pref_done_def Let_def hs_zero_def)
  define d1 where "d1 = dis_init\<lparr>d_c := 0x8b, d_p := 2, d_pref := PRE_NONE, d_opcode := 0x8b, d_cflags := C_MODRM,
    d_hs := hs_zero\<lparr>hs_flags := F_PREFIX_REX, rex_w := 1, rex_r := (if code 0 = 0x4c then 1 else 0), hs_opcode := 0x8b\<rparr>\<rparr>"
  have o: "opcode_flags code (pref_done (prefix_loop code 16 dis_init)) = Some d1"
    unfolding p using r b branch_entries(5)
    by (elim disjE) (simp_all add: opcode_flags_def rex_prefix_def opcode_byte_def Let_def d1_def flag_def hs_zero_def C_MODRM_def C_ERROR_def)
  have g: "group_flags d1 = Some d1" "prefix_check d1 = Some d1"
    by (simp_all add: d1_def group_flags_def prefix_check_def has_def c_defs hs_zero_def)
  have mr: "drop_bit 6 (code 2) = 0" "code 2 AND 7 = 5"
  proof -
    have "drop_bit 6 (code 2) = drop_bit 6 (code 2 AND 0xc7)"
    proof (rule bit_word_eqI)
      fix n :: nat
      consider "n = 0" | "n = 1" | "8 \<le> 6 + n" by linarith
      then show "bit (drop_bit 6 (code 2)) n = bit (drop_bit 6 (code 2 AND 0xc7)) n"
        by cases (use bit_imp_le_length [of "code 2" "6 + n"] in \<open>auto simp: bit_drop_bit_eq bit_and_iff\<close>)
    qed
    then show "drop_bit 6 (code 2) = 0" unfolding c by simp
    have "code 2 AND 7 = (code 2 AND 0xc7) AND 7" by (simp add: and.assoc)
    then show "code 2 AND 7 = 5" unfolding c by simp
  qed
  define d2 where "d2 = modrm_byte code d1"
  have m: "fpu_check d2 = Some d2" "lock_check d2 = Some d2" "operand_check d2 = Some (False, d_mod d2)"
    using mr by (simp_all add: d2_def d1_def modrm_byte_def Let_def fpu_check_def lock_check_def operand_check_def has_def c_defs hs_zero_def)
  define d3 where "d3 = displacement code d2"
  have mp: "modrm_part code d1 = Some d3"
    using m by (simp add: modrm_part_def d2_def [symmetric] d3_def) (simp add: d1_def has_def c_defs)
  have d2: "d_p d2 = 3" "d_mod d2 = 0" "d_rm d2 = 5" "d_pref d2 = PRE_NONE" "d_opcode d2 = 0x8b" "d_cflags d2 = C_MODRM"
    "modrm (d_hs d2) = code 2" "hs_opcode (d_hs d2) = 0x8b" "modrm_reg (d_hs d2) = drop_bit 3 (code 2 AND 0x3f)"
    "rex_r (d_hs d2) = (if code 0 = 0x4c then 1 else 0)" "hs_flags (d_hs d2) = F_PREFIX_REX OR F_MODRM"
    unfolding d2_def d1_def modrm_byte_def Let_def using mr by (simp_all add: hs_zero_def)
  have t: "test_imm d2 = d2" using d2(5) by (simp add: test_imm_def)
  have "disp_size_of d2 = 4" using d2 by (simp add: disp_size_of_def has_def c_defs)
  then have e: "d3 = (load_disp code 4 d2)\<lparr>d_c := code 3\<rparr>"
    unfolding d3_def using displacement_none [of d2 code] t d2 by simp
  have d3: "d_p d3 = 7" "d_cflags d3 = C_MODRM" "modrm (d_hs d3) = code 2" "hs_opcode (d_hs d3) = 0x8b" "disp (d_hs d3) = rd32 code 3"
    "modrm_reg (d_hs d3) = drop_bit 3 (code 2 AND 0x3f)" "rex_r (d_hs d3) = (if code 0 = 0x4c then 1 else 0)"
    "hs_flags (d_hs d3) = F_PREFIX_REX OR F_MODRM OR F_DISP32"
    unfolding e using d2 by (simp_all add: load_disp_def Let_def or.assoc)
  have i: "immediates code d3 = d3"
    using d3(2) by (simp add: immediates_def imm_rest_def has_def c_defs Let_def)
  have "hde64_disasm code = Some (disasm_done d3)"
    unfolding hde64_disasm_def Let_def using o g mp i by simp
  then show ?thesis using d3 by (simp add: disasm_done_def Let_def f_defs)
qed


text \<open>The decoded instruction is determined by its own bytes: unless the bytes are reported to be longer
  than an instruction may be, any code that starts with the same bytes decodes to the same result, whatever
  follows them. A copy of whole instructions therefore decodes as the original does.\<close>

theorem hde64_disasm_local:
  assumes "hde64_disasm m = Some hs" "hs_flags hs AND F_ERROR_LENGTH = 0" "\<And>i. i < unat (hs_len hs) \<Longrightarrow> m' i = m i"
  shows "hde64_disasm m' = Some hs"
  using assms by (rule hde64_local_spec)

theorem hde64_disasm_local_witness:
  "\<exists>hs. hde64_disasm (\<lambda>i. if i = 0 then 0xeb else 0x10) = Some hs \<and> hde64_disasm (\<lambda>i. if i = 0 then 0xeb else if i = 1 then 0x10 else 0xcc) = Some hs"
proof -
  obtain hs where h: "hde64_disasm (\<lambda>i. if i = 0 then 0xeb else 0x10) = Some hs" "hs_len hs = 2" "hs_flags hs AND F_ERROR_LENGTH = 0"
    using short_branch_decode [of "\<lambda>i. if i = 0 then 0xeb else 0x10"] by (auto simp: short_branch_def)
  then have "hde64_disasm (\<lambda>i. if i = 0 then 0xeb else if i = 1 then 0x10 else 0xcc) = Some hs"
    using hde64_disasm_local [OF h(1,3), of "\<lambda>i. if i = 0 then 0xeb else if i = 1 then 0x10 else 0xcc"] by simp
  then show ?thesis using h(1) by blast
qed

end
