(* ===== verification/SubstrateX86.thy ===== *)
theory SubstrateX86
  imports Hde64Local
begin

text \<open>
  The inline hooking of x86-64 code (\<open>SubstrateHook.cpp\<close>, the part for Intel processors, with the
  instruction writers of \<open>SubstrateX86.hpp\<close> and \<open>Buffer.hpp\<close>, compiled for 64 bits). Instructions are
  measured with the disassembler of \<open>Hde64\<close>. Code is memory of bytes at 64-bit addresses; sizes are
  natural numbers below 300. A writer is the list of the bytes that it writes; where it depends on the address
  it writes to, the address \<open>current\<close> is an argument.
\<close>

section \<open>SubstrateX86.hpp\<close>

definition bytes32 :: "u32 \<Rightarrow> u8 list" where
  "bytes32 w = [ucast w, ucast (drop_bit 8 w), ucast (drop_bit 16 w), ucast (drop_bit 24 w)]"

definition MSIs32BitOffset :: "u64 \<Rightarrow> u64 \<Rightarrow> bool" where
  "MSIs32BitOffset target source = (let offset = target - source in scast (ucast offset :: u32) = offset)"

definition MSSizeOfSkip :: nat where
  "MSSizeOfSkip = 5"

definition MSSizeOfPushPointer :: "u64 \<Rightarrow> nat" where
  "MSSizeOfPushPointer target = (if drop_bit 32 target = 0 then 5 else 13)"

definition MSSizeOfJump :: "bool \<Rightarrow> u64 \<Rightarrow> u64 \<Rightarrow> nat" where
  "MSSizeOfJump blind target source =
     (if \<not> blind \<and> MSIs32BitOffset target (source + 5) then MSSizeOfSkip else MSSizeOfPushPointer target + 1)"

text \<open>The size for a jump from an unknown place, the default of the last argument.\<close>

abbreviation blind_jump :: "u64 \<Rightarrow> nat" where
  "blind_jump target \<equiv> MSSizeOfJump True target 0"

definition MSWriteSkip :: "u64 \<Rightarrow> u8 list" where
  "MSWriteSkip n = 0xe9 # bytes32 (ucast n)"

definition MSPushPointer :: "u64 \<Rightarrow> u8 list" where
  "MSPushPointer target = 0x68 # bytes32 (ucast target) @
     (let high = ucast (drop_bit 32 target) :: u32 in
      if high \<noteq> 0 then [0xc7, 0x44, 0x24, 0x04] @ bytes32 high else [])"

definition MSWriteJump :: "u64 \<Rightarrow> u64 \<Rightarrow> u8 list" where
  "MSWriteJump current target =
     (if MSIs32BitOffset target (current + 5) then MSWriteSkip (target - (current + 5))
      else MSPushPointer target @ [0xc3])"

definition MSWritePop :: "u8 \<Rightarrow> u8 list" where
  "MSWritePop target =
     (if drop_bit 3 target \<noteq> 0 then [0x40 OR drop_bit 3 (target AND 0x08)] else []) @ [0x58 OR target AND 0x07]"

definition MSSizeOfPop :: "u8 \<Rightarrow> nat" where
  "MSSizeOfPop target = (if drop_bit 3 target \<noteq> 0 then 2 else 1)"

definition MSWriteMove64 :: "u8 \<Rightarrow> u8 \<Rightarrow> u8 list" where
  "MSWriteMove64 source target =
     [0x48 OR push_bit 2 (drop_bit 3 (target AND 0x08)) OR drop_bit 3 (source AND 0x08), 0x8b,
      push_bit 3 (target AND 0x07) OR source AND 0x07]"

definition MSSizeOfMove64 :: nat where
  "MSSizeOfMove64 = 3"

section \<open>Lengths and copies of single instructions\<close>

text \<open>\<open>b\<close> are the bytes of the backup from the instruction on, \<open>pc\<close> is the address the instruction had.\<close>

definition rel8 :: "mem \<Rightarrow> u64" where "rel8 b = scast (b 1)"
definition rel32 :: "mem \<Rightarrow> u64" where "rel32 b = scast (rd32 b 1)"

definition rip_relative :: "hde64s \<Rightarrow> bool" where
  "rip_relative h \<longleftrightarrow> modrm h AND 0xc7 = 0x05"

definition rip_destiny :: "u64 \<Rightarrow> hde64s \<Rightarrow> u64" where
  "rip_destiny pc h = pc + of_nat (unat (hs_len h)) + scast (disp h)"

definition rip_reg :: "hde64s \<Rightarrow> u8" where
  "rip_reg h = push_bit 3 (rex_r h) OR modrm_reg h"

text \<open>Where the code computes the target of a branch: \<open>pc\<close>, the decoded length and the offset.\<close>

definition branch_destiny :: "u64 \<Rightarrow> hde64s \<Rightarrow> u64 \<Rightarrow> u64" where
  "branch_destiny pc h relative = pc + of_nat (unat (hs_len h)) + relative"

definition length_step :: "u64 \<Rightarrow> mem \<Rightarrow> hde64s \<Rightarrow> nat \<Rightarrow> nat" where
  "length_step pc b h n =
     (let len = unat (hs_len h) in
      if rip_relative h
      then if hs_opcode h = 0x8b
        then n - len + MSSizeOfPushPointer (rip_destiny pc h) + MSSizeOfPop (rip_reg h) + MSSizeOfMove64
        else n
      else if b 0 = 0xe8
      then if rel32 b = 0 then n - len + MSSizeOfPushPointer (branch_destiny pc h 0)
        else n + MSSizeOfSkip + blind_jump (branch_destiny pc h (rel32 b))
      else if b 0 = 0xeb then n - len + blind_jump (branch_destiny pc h (rel8 b))
      else if b 0 = 0xe9 then n - len + blind_jump (branch_destiny pc h (rel32 b))
      else if b 0 = 0xe3 \<or> b 0 AND 0xf0 = 0x70
      then n + len + blind_jump (branch_destiny pc h (rel8 b))
      else n)"

definition code_bytes :: "mem \<Rightarrow> nat \<Rightarrow> u8 list" where
  "code_bytes b n = map b [0..<n]"

definition emit_step :: "u64 \<Rightarrow> u64 \<Rightarrow> mem \<Rightarrow> hde64s \<Rightarrow> u8 list" where
  "emit_step current pc b h =
     (let len = unat (hs_len h) in
      if rip_relative h
      then if hs_opcode h = 0x8b
        then MSPushPointer (rip_destiny pc h) @ MSWritePop (rip_reg h) @ MSWriteMove64 (rip_reg h) (rip_reg h)
        else code_bytes b len
      else if b 0 = 0xe8
      then if rel32 b = 0 then MSPushPointer (branch_destiny pc h 0)
        else let destiny = branch_destiny pc h (rel32 b);
                 jump = current + 5 + of_nat MSSizeOfSkip
             in 0xe8 # bytes32 (of_nat MSSizeOfSkip)
                @ MSWriteSkip (of_nat (MSSizeOfJump False destiny jump)) @ MSWriteJump jump destiny
      else if b 0 = 0xeb then MSWriteJump current (branch_destiny pc h (rel8 b))
      else if b 0 = 0xe9 then MSWriteJump current (branch_destiny pc h (rel32 b))
      else if b 0 = 0xe3 \<or> b 0 AND 0xf0 = 0x70
      then let destiny = branch_destiny pc h (rel8 b)
           in [b 0, 2, 0xeb, of_nat (MSSizeOfJump False destiny (current + 3 + 1))] @ MSWriteJump (current + 4) destiny
      else code_bytes b len)"

section \<open>The loops\<close>

definition tail_at :: "mem \<Rightarrow> nat \<Rightarrow> mem" where
  "tail_at m n = (\<lambda>i. m (n + i))"

text \<open>\<open>MSGetInstructionWidthIntel\<close>; it returns the length that the disassembler reports.\<close>

definition MSGetInstructionWidthIntel :: "mem \<Rightarrow> nat" where
  "MSGetInstructionWidthIntel b = (case hde64_disasm b of None \<Rightarrow> 0 | Some h \<Rightarrow> unat (hs_len h))"

function used_loop :: "mem \<Rightarrow> nat \<Rightarrow> nat \<Rightarrow> nat option" where
  "used_loop area required used =
     (if used < required
      then let width = MSGetInstructionWidthIntel (tail_at area used)
           in if width = 0 then None else used_loop area required (used + width)
      else Some used)"
  by pat_completeness auto

termination used_loop
  by (relation "measure (\<lambda>(area, required, used). required - used)") auto

declare used_loop.simps [simp del]

lemma width_pos: "w \<noteq> 0 \<Longrightarrow> 0 < unat w" for w :: u8
  by (simp add: unat_gt_0)

text \<open>The two loops over the backup end when \<open>offset\<close> meets \<open>used\<close>; \<open>None\<close> is a loop that has run past
  it or an instruction that cannot be measured.\<close>

function length_loop :: "u64 \<Rightarrow> mem \<Rightarrow> nat \<Rightarrow> nat \<Rightarrow> nat \<Rightarrow> nat option" where
  "length_loop area backup used offset n =
     (if offset = used then Some n
      else if used < offset then None
      else case hde64_disasm (tail_at backup offset) of None \<Rightarrow> None
        | Some h \<Rightarrow> if hs_len h = 0 then None
            else length_loop area backup used (offset + unat (hs_len h))
                   (length_step (area + of_nat offset) (tail_at backup offset) h n))"
  by pat_completeness auto

termination length_loop
  by (relation "measure (\<lambda>(area, backup, used, offset, n). used - offset)") (auto dest!: width_pos)

declare length_loop.simps [simp del]

function emit_loop :: "u64 \<Rightarrow> u64 \<Rightarrow> mem \<Rightarrow> nat \<Rightarrow> nat \<Rightarrow> u8 list option" where
  "emit_loop current area backup used offset =
     (if offset = used then Some (MSWriteJump current (area + of_nat used))
      else if used < offset then None
      else case hde64_disasm (tail_at backup offset) of None \<Rightarrow> None
        | Some h \<Rightarrow> if hs_len h = 0 then None
            else let bytes = emit_step current (area + of_nat offset) (tail_at backup offset) h
                 in map_option ((@) bytes)
                      (emit_loop (current + of_nat (length bytes)) area backup used (offset + unat (hs_len h))))"
  by pat_completeness auto

termination emit_loop
  by (relation "measure (\<lambda>(current, area, backup, used, offset). used - offset)") (auto dest!: width_pos)

declare emit_loop.simps [simp del]

section \<open>SubstrateHookFunction\<close>

record x86_state =
  xmem :: "u64 \<Rightarrow> u8"
  xrwx :: "u64 \<Rightarrow> bool"
  xmaps :: "(u64 \<times> nat) list"

text \<open>The system: page size, answers of \<open>mprotect\<close> and \<open>mmap\<close>, and the bytes that lie behind the
  array \<open>backup\<close> on the stack.\<close>

record x86_env =
  xe_page :: u64
  xe_mprotect_ok :: "u64 \<Rightarrow> u64 \<Rightarrow> bool"
  xe_mprotect_rx_ok :: "u64 \<Rightarrow> nat \<Rightarrow> bool"
  xe_mmap :: "(u64 \<times> nat) list \<Rightarrow> nat \<Rightarrow> u64 option"
  xe_stack :: "nat \<Rightarrow> u8"

definition code_at :: "(u64 \<Rightarrow> u8) \<Rightarrow> u64 \<Rightarrow> mem" where
  "code_at m a = (\<lambda>i. m (a + of_nat i))"

definition store_bytes :: "u64 \<Rightarrow> u8 list \<Rightarrow> (u64 \<Rightarrow> u8) \<Rightarrow> u64 \<Rightarrow> u8" where
  "store_bytes a bs m = (\<lambda>x. if unat (x - a) < length bs then bs ! unat (x - a) else m x)"

text \<open>A store through \<open>MSWrite\<close> faults (\<open>None\<close>) where the memory is not writable.\<close>

definition write_code :: "u64 \<Rightarrow> u8 list \<Rightarrow> x86_state \<Rightarrow> x86_state option" where
  "write_code a bs s =
     (if \<forall>i \<in> set [0..<length bs]. xrwx s (a + of_nat i) then Some (s\<lparr>xmem := store_bytes a bs (xmem s)\<rparr>) else None)"

text \<open>\<open>SubstrateHookMemory\<close> around the patch, as in \<open>Substrate\<close> for 32 bits.\<close>

definition page_base :: "x86_env \<Rightarrow> u64 \<Rightarrow> u64" where
  "page_base e a = a div xe_page e * xe_page e"

definition page_width :: "x86_env \<Rightarrow> u64 \<Rightarrow> u64 \<Rightarrow> u64" where
  "page_width e a n = ((a + n - 1) div xe_page e + 1) * xe_page e - page_base e a"

definition make_writable :: "x86_env \<Rightarrow> u64 \<Rightarrow> nat \<Rightarrow> x86_state \<Rightarrow> x86_state" where
  "make_writable e a n s =
     (let base = page_base e a; width = page_width e a (of_nat n) in
      if n = 0 \<or> \<not> xe_mprotect_ok e base width then s
      else s\<lparr>xrwx := (\<lambda>x. unat (x - base) < unat width \<or> xrwx s x)\<rparr>)"

definition intel_patch :: "u64 \<Rightarrow> u64 \<Rightarrow> nat \<Rightarrow> u8 list" where
  "intel_patch area target blank = MSWriteJump area target @ replicate blank 0x90"

definition backup_of :: "x86_env \<Rightarrow> x86_state \<Rightarrow> u64 \<Rightarrow> nat \<Rightarrow> mem" where
  "backup_of e s area used = (\<lambda>i. if i < used then xmem s (area + of_nat i) else xe_stack e (i - used))"

definition read64 :: "(u64 \<Rightarrow> u8) \<Rightarrow> u64 \<Rightarrow> u64" where
  "read64 m a = rd64 (code_at m a) 0"

text \<open>The first result is what is stored to \<open>*result\<close>, if anything is.\<close>

definition SubstrateHookFunctionIntel ::
  "x86_env \<Rightarrow> u64 \<Rightarrow> u64 \<Rightarrow> bool \<Rightarrow> x86_state \<Rightarrow> (u64 option \<times> x86_state) option" where
  "SubstrateHookFunctionIntel e symbol replace want_result s =
     (if symbol = 0 then Some (None, s)
      else let required = MSSizeOfJump False replace symbol in
      case used_loop (code_at (xmem s) symbol) required 0 of None \<Rightarrow> Some (None, s)
      | Some used \<Rightarrow>
         (let backup = backup_of e s symbol used;
              patch = (\<lambda>r s. map_option (Pair r)
                (write_code symbol (intel_patch symbol replace (used - required)) (make_writable e symbol used s)))
          in if \<not> want_result then patch None s
             else if backup 0 = 0xe9 then Some (Some (symbol + 5 + ucast (rd32 backup 1)), s)
             else if backup 0 = 0xff \<and> backup 1 = 0x25
             then Some (Some (read64 (xmem s) (symbol + 6 + ucast (rd32 backup 2))), s)
             else case length_loop symbol backup used 0 (used + blind_jump (symbol + of_nat used)) of None \<Rightarrow> None
               | Some len \<Rightarrow>
                 (case xe_mmap e (xmaps s) len of None \<Rightarrow> Some (Some 0, s)
                  | Some buffer \<Rightarrow>
                    (let s1 = s\<lparr>xmaps := (buffer, len) # xmaps s\<rparr> in
                     case emit_loop buffer symbol backup used 0 of None \<Rightarrow> None
                     | Some bytes \<Rightarrow>
                       if len < length bytes then None
                       else let s2 = s1\<lparr>xmem := store_bytes buffer bytes (xmem s1)\<rparr>
                            in if \<not> xe_mprotect_rx_ok e buffer len
                               then Some (Some 0, s2\<lparr>xmaps := removeAll (buffer, len) (xmaps s2)\<rparr>)
                               else patch (Some buffer) s2))))"

section \<open>Sizes\<close>

lemma length_bytes32 [simp]: "length (bytes32 w) = 4"
  by (simp add: bytes32_def)

lemma high_zero_iff: "(ucast (drop_bit 32 (t :: u64)) :: u32) = 0 \<longleftrightarrow> drop_bit 32 t = 0"
proof -
  have "unat (drop_bit 32 t) = unat t div 2 ^ 32" by (simp only: unat_drop_bit_eq) (simp add: drop_bit_eq_div)
  moreover have "unat t div 2 ^ 32 < 2 ^ 32" using unsigned_less [of t, where 'a = nat] by (simp add: div_less_iff_less_mult)
  ultimately have "unat (ucast (drop_bit 32 t) :: u32) = unat (drop_bit 32 t)" by (simp add: unsigned_ucast_eq take_bit_eq_mod del: unat_drop_bit_eq)
  then show ?thesis by (simp only: word_unat_eq_iff unat_0)
qed

lemma length_MSWriteSkip [simp]: "length (MSWriteSkip n) = 5"
  by (simp add: MSWriteSkip_def)

lemma length_MSPushPointer [simp]: "length (MSPushPointer t) = MSSizeOfPushPointer t"
  by (simp add: MSPushPointer_def MSSizeOfPushPointer_def Let_def high_zero_iff)

lemma length_MSWriteJump [simp]: "length (MSWriteJump c t) = MSSizeOfJump False t c"
  by (simp add: MSWriteJump_def MSSizeOfJump_def MSSizeOfSkip_def)

lemma size_of_push: "5 \<le> MSSizeOfPushPointer t" "MSSizeOfPushPointer t \<le> 13"
  by (simp_all add: MSSizeOfPushPointer_def)

lemma size_of_jump: "5 \<le> MSSizeOfJump bl t c" "MSSizeOfJump bl t c \<le> 14" "MSSizeOfJump False t c \<le> blind_jump t"
  using size_of_push [of t] by (simp_all add: MSSizeOfJump_def MSSizeOfSkip_def)

lemma length_MSWritePop [simp]: "length (MSWritePop r) = MSSizeOfPop r"
  by (simp add: MSWritePop_def MSSizeOfPop_def)

lemma length_MSWriteMove64 [simp]: "length (MSWriteMove64 r s) = MSSizeOfMove64"
  by (simp add: MSWriteMove64_def MSSizeOfMove64_def)

lemma length_code_bytes [simp]: "length (code_bytes b n) = n"
  by (simp add: code_bytes_def)

lemma branch_len:
  assumes "hde64_disasm b = Some h"
  shows "near_branch (b 0) \<Longrightarrow> hs_len h = 5 \<and> \<not> rip_relative h" "short_branch (b 0) \<Longrightarrow> hs_len h = 2 \<and> \<not> rip_relative h"
  using near_branch_decode [of b] short_branch_decode [of b] assms by (auto simp: rip_relative_def)

lemmas branch_defs = near_branch_def short_branch_def

text \<open>Every instruction takes at most the room that the length computation has counted for it.\<close>

lemma emit_step_fits:
  assumes "hde64_disasm b = Some h" "unat (hs_len h) \<le> n"
  shows "length (emit_step c pc b h) + (n - unat (hs_len h)) \<le> length_step pc b h n"
proof -
  note l = branch_len [OF assms(1), unfolded branch_defs]
  note d = length_step_def emit_step_def Let_def
  show ?thesis
  proof (cases "rip_relative h")
    case True
    then show ?thesis using assms(2) by (auto simp: d)
  next
    case False
    note j = size_of_jump(3)
    consider "b 0 = 0xe8" "rel32 b = 0" | "b 0 = 0xe8" "rel32 b \<noteq> 0" | "b 0 = 0xeb" | "b 0 = 0xe9"
      | "b 0 \<notin> {0xe8, 0xe9, 0xeb}" "b 0 = 0xe3 \<or> b 0 AND 0xf0 = 0x70"
      | "b 0 \<notin> {0xe8, 0xe9, 0xeb, 0xe3}" "b 0 AND 0xf0 \<noteq> 0x70" by auto
    then show ?thesis
    proof cases
      case 1
      then show ?thesis using False by (simp add: d)
    next
      case 2
      then show ?thesis
        using False l(1) assms(2) j [of "branch_destiny pc h (rel32 b)" "c + 5 + of_nat MSSizeOfSkip"]
        by (simp add: d MSSizeOfSkip_def)
    next
      case 3
      then show ?thesis using False j [of "branch_destiny pc h (rel8 b)" c] by (simp add: d)
    next
      case 4
      then show ?thesis using False j [of "branch_destiny pc h (rel32 b)" c] by (simp add: d)
    next
      case 5
      then have "unat (hs_len h) = 2" using l(2) by auto
      then show ?thesis
        using 5 False assms(2) j [of "branch_destiny pc h (rel8 b)" "c + 4"] by (simp add: d)
    next
      case 6
      then show ?thesis using False assms(2) by (simp add: d)
    qed
  qed
qed

lemma length_step_ge:
  assumes "hde64_disasm b = Some h" "unat (hs_len h) \<le> n"
  shows "n - unat (hs_len h) \<le> length_step pc b h n"
  using emit_step_fits [OF assms, of 0 pc] by simp

theorem emit_loop_fits:
  assumes "length_loop area b used off n = Some l" "emit_loop c area b used off = Some bytes"
    "used - off + blind_jump (area + of_nat used) \<le> n"
  shows "length bytes + (n - (used - off) - blind_jump (area + of_nat used)) \<le> l"
  using assms
proof (induction c area b used off arbitrary: n bytes rule: emit_loop.induct)
  case (1 c area b used off)
  let ?J = "blind_jump (area + of_nat used)"
  show ?case
  proof (cases "off = used")
    case True
    then show ?thesis using 1 size_of_jump(3) [of "area + of_nat used" c]
      by (auto simp: length_loop.simps [of area b used] emit_loop.simps [of c area b used])
  next
    case False
    obtain h where h: "\<not> used < off" "hde64_disasm (tail_at b off) = Some h" "hs_len h \<noteq> 0"
      "length_loop area b used (off + unat (hs_len h)) (length_step (area + of_nat off) (tail_at b off) h n) = Some l"
      using "1.prems"(1) False by (subst (asm) length_loop.simps) (auto split: if_splits option.splits)
    let ?e = "emit_step c (area + of_nat off) (tail_at b off) h" and ?k = "unat (hs_len h)"
    obtain rest where r: "emit_loop (c + of_nat (length ?e)) area b used (off + ?k) = Some rest" "bytes = ?e @ rest"
      using "1.prems"(2) False h(1-3) by (subst (asm) emit_loop.simps) (auto simp: Let_def)
    have le: "off + ?k \<le> used"
      using h(4) by (subst (asm) length_loop.simps) (auto split: if_splits)
    let ?n = "length_step (area + of_nat off) (tail_at b off) h n"
    have kn: "?k \<le> n" using le "1.prems"(3) by linarith
    have f: "length ?e + (n - ?k) \<le> ?n" by (rule emit_step_fits [OF h(2) kn])
    then have "length rest + (?n - (used - (off + ?k)) - ?J) \<le> l"
      using "1.IH" [OF False h(1,2,3) refl h(4) r(1)] le "1.prems"(3) by linarith
    then show ?thesis using f le "1.prems"(3) unfolding r(2) length_append by linarith
  qed
qed

section \<open>Whole instructions\<close>

text \<open>\<open>whole m used off\<close>: from \<open>off\<close> to \<open>used\<close> there are whole instructions of a legal length.\<close>

inductive whole :: "mem \<Rightarrow> nat \<Rightarrow> nat \<Rightarrow> bool" for m used where
  whole_end: "whole m used used"
| whole_step: "hde64_disasm (tail_at m off) = Some h \<Longrightarrow> hs_flags h AND F_ERROR_LENGTH = 0
    \<Longrightarrow> whole m used (off + unat (hs_len h)) \<Longrightarrow> whole m used off"

lemma disasm_len:
  assumes "hde64_disasm b = Some h"
  shows "hs_len h \<noteq> 0" "0 < unat (hs_len h)" "unat (hs_len h) \<le> 15"
  using hde64_disasm_spec [of b b] assms by (auto simp: agree_def hs_wf_def word_le_nat_alt)

lemma whole_le: "whole m used off \<Longrightarrow> off \<le> used"
  by (induction rule: whole.induct) auto

text \<open>The length loop of the hook always ends; it passes the required length by less than an instruction.\<close>

lemma used_loop_total: "off \<le> required + 14 \<Longrightarrow> \<exists>used. used_loop area required off = Some used \<and> required \<le> used \<and> used \<le> required + 14"
proof (induction area required off rule: used_loop.induct)
  case (1 area required off)
  obtain h where h: "hde64_disasm (tail_at area off) = Some h"
    using hde64_disasm_spec [of "tail_at area off" "tail_at area off"] by (auto simp: agree_def)
  have w: "MSGetInstructionWidthIntel (tail_at area off) = unat (hs_len h)" using h by (simp add: MSGetInstructionWidthIntel_def)
  show ?case
  proof (cases "off < required")
    case True
    then show ?thesis using "1.IH" [OF True w [symmetric]] disasm_len [OF h] w
      by (subst (1) used_loop.simps) simp
  next
    case False
    then show ?thesis using "1.prems" by (subst (1) used_loop.simps) simp
  qed
qed

text \<open>Whole instructions are the same ones in every copy of their bytes.\<close>

lemma whole_decode:
  assumes "hde64_disasm (tail_at m off) = Some h" "hs_flags h AND F_ERROR_LENGTH = 0" "off + unat (hs_len h) \<le> used"
    "\<And>i. i < used \<Longrightarrow> m' i = m i"
  shows "hde64_disasm (tail_at m' off) = Some h"
  using assms by (intro hde64_local_spec [OF assms(1,2)]) (simp add: tail_at_def)

lemma whole_copy:
  assumes "whole m used off" "\<And>i. i < used \<Longrightarrow> m' i = m i"
  shows "whole m' used off"
  using assms
proof (induction rule: whole.induct)
  case (whole_step off h)
  have "hde64_disasm (tail_at m' off) = Some h"
    by (rule whole_decode [OF whole_step.hyps(1,2) whole_le [OF whole_step.hyps(3)] whole_step.prems])
  then show ?case by (rule whole.whole_step [OF _ whole_step.hyps(2) whole_step.IH [OF whole_step.prems]])
qed (rule whole_end)

lemma whole_loops:
  assumes "whole m used off"
  shows "\<exists>l. length_loop area m used off n = Some l" "\<exists>bytes. emit_loop c area m used off = Some bytes"
proof -
  show "\<exists>l. length_loop area m used off n = Some l"
    using assms
  proof (induction arbitrary: n rule: whole.induct)
    case (whole_step off h)
    then show ?case using disasm_len [OF whole_step.hyps(1)] whole_le [OF whole_step.hyps(3)]
      by (subst length_loop.simps) simp
  qed (simp add: length_loop.simps)
  show "\<exists>bytes. emit_loop c area m used off = Some bytes"
    using assms
  proof (induction arbitrary: c rule: whole.induct)
    case (whole_step off h)
    then show ?case using disasm_len [OF whole_step.hyps(1)] whole_le [OF whole_step.hyps(3)]
      by (subst emit_loop.simps) (simp add: Let_def)
  qed (simp add: emit_loop.simps)
qed

lemma length_step_le:
  assumes "unat (hs_len h) \<le> 15"
  shows "length_step pc b h n \<le> n + 30"
proof -
  have z: "MSSizeOfPushPointer t \<le> 13" "blind_jump t \<le> 14" "MSSizeOfPop r \<le> 2" for t r
    using size_of_push(2) size_of_jump(2) by (simp_all add: MSSizeOfPop_def)
  have "n - k + MSSizeOfPushPointer t + MSSizeOfPop r + MSSizeOfMove64 \<le> n + 30" "n - k + MSSizeOfPushPointer t \<le> n + 30"
    "n + MSSizeOfSkip + blind_jump t \<le> n + 30" "n - k + blind_jump t \<le> n + 30"
    "n + unat (hs_len h) + blind_jump t \<le> n + 30" for k t r
    using z(1,2) [of t] z(3) [of r] assms unfolding MSSizeOfSkip_def MSSizeOfMove64_def by linarith+
  then show ?thesis unfolding length_step_def Let_def by simp
qed

lemma length_loop_le: "length_loop area b used off n = Some l \<Longrightarrow> l \<le> n + 30 * (used - off)"
proof (induction area b used off n rule: length_loop.induct)
  case (1 area b used off n)
  show ?case
  proof (cases "off = used")
    case True
    then show ?thesis using 1 by (simp add: length_loop.simps)
  next
    case False
    obtain h where h: "\<not> used < off" "hde64_disasm (tail_at b off) = Some h" "hs_len h \<noteq> 0"
      "length_loop area b used (off + unat (hs_len h)) (length_step (area + of_nat off) (tail_at b off) h n) = Some l"
      using "1.prems"(1) False by (subst (asm) length_loop.simps) (auto split: if_splits option.splits)
    have le: "off + unat (hs_len h) \<le> used"
      using h(4) by (subst (asm) length_loop.simps) (auto split: if_splits)
    note len = disasm_len(2,3) [OF h(2)]
    have "30 * (used - (off + unat (hs_len h))) + 30 \<le> 30 * (used - off)" using le len(1) by linarith
    then show ?thesis
      using "1.IH" [OF False h(1,2,3,4)] length_step_le [OF len(2), of "area + of_nat off" "tail_at b off" n] by linarith
  qed
qed

end
