(* ===== verification/HookX86.thy ===== *)
theory HookX86
  imports SubstrateX86
begin

text \<open>
  What the code written by \<open>SubstrateX86\<close> does: a machine for the instructions that the writers
  use, the effect of the jumps, calls and loads that are written, and the theorems about hooking a function.
\<close>

section \<open>The machine\<close>

text \<open>Instruction pointer, the sixteen general registers (number 4 is the stack pointer), memory.\<close>

record cpu =
  crip :: u64
  cgpr :: "nat \<Rightarrow> u64"
  cmem :: "u64 \<Rightarrow> u8"

definition bytes64 :: "u64 \<Rightarrow> u8 list" where
  "bytes64 w = bytes32 (ucast w) @ bytes32 (ucast (drop_bit 32 w))"

abbreviation fetch :: "cpu \<Rightarrow> mem" where
  "fetch c \<equiv> code_at (cmem c) (crip c)"

definition x86_push :: "u64 \<Rightarrow> cpu \<Rightarrow> cpu" where
  "x86_push v c = c\<lparr>cgpr := (cgpr c)(4 := cgpr c 4 - 8), cmem := store_bytes (cgpr c 4 - 8) (bytes64 v) (cmem c)\<rparr>"

definition x86_pop :: "nat \<Rightarrow> cpu \<Rightarrow> cpu" where
  "x86_pop r c = c\<lparr>cgpr := (cgpr c)(4 := cgpr c 4 + 8, r := read64 (cmem c) (cgpr c 4))\<rparr>"

definition x86_goto :: "u64 \<Rightarrow> cpu \<Rightarrow> cpu" where
  "x86_goto a c = c\<lparr>crip := a\<rparr>"

text \<open>\<open>taken\<close> tells whether a conditional jump is taken, by its opcode. The load is \<open>mov reg, [reg']\<close> of 64 bits
  with a base register, the forms with a SIB byte or relative to the instruction pointer excepted.\<close>

definition x86_step :: "(u8 \<Rightarrow> bool) \<Rightarrow> cpu \<Rightarrow> cpu option" where
  "x86_step taken c =
    (let b = fetch c; next = (\<lambda>n. crip c + n) in
     if b 0 = 0xe9 then Some (x86_goto (next 5 + rel32 b) c)
     else if b 0 = 0xeb then Some (x86_goto (next 2 + rel8 b) c)
     else if b 0 = 0xe8 then Some (x86_goto (next 5 + rel32 b) (x86_push (next 5) c))
     else if b 0 = 0xe3 \<or> b 0 AND 0xf0 = 0x70
     then Some (x86_goto (if taken (b 0) then next 2 + rel8 b else next 2) c)
     else if b 0 = 0x68 then Some (x86_goto (next 5) (x86_push (rel32 b) c))
     else if b 0 = 0xc7 \<and> b 1 = 0x44 \<and> b 2 = 0x24
     then Some (x86_goto (next 8)
            (c\<lparr>cmem := store_bytes (cgpr c 4 + scast (b 3)) (bytes32 (rd32 b 4)) (cmem c)\<rparr>))
     else if b 0 = 0xc3 then Some (x86_goto (read64 (cmem c) (cgpr c 4)) (c\<lparr>cgpr := (cgpr c)(4 := cgpr c 4 + 8)\<rparr>))
     else if b 0 AND 0xf8 = 0x58 then Some (x86_goto (next 1) (x86_pop (unat (b 0 AND 7)) c))
     else if b 0 = 0x41 \<and> b 1 AND 0xf8 = 0x58 then Some (x86_goto (next 2) (x86_pop (8 + unat (b 1 AND 7)) c))
     else if b 0 AND 0xfa = 0x48 \<and> b 1 = 0x8b \<and> b 2 AND 0xc0 = 0 \<and> b 2 AND 7 \<notin> {4, 5}
     then let reg = (if b 0 AND 4 = 0 then 0 else 8) + unat (drop_bit 3 (b 2 AND 0x3f));
              base = (if b 0 AND 1 = 0 then 0 else 8) + unat (b 2 AND 7)
          in Some (x86_goto (next 3) (c\<lparr>cgpr := (cgpr c)(reg := read64 (cmem c) (cgpr c base))\<rparr>))
     else None)"

definition steps :: "(u8 \<Rightarrow> bool) \<Rightarrow> cpu \<Rightarrow> cpu \<Rightarrow> bool" where
  "steps taken = rtranclp (\<lambda>c c'. x86_step taken c = Some c')"

lemma steps_refl [simp]: "steps taken c c"
  by (simp add: steps_def)

lemma steps_Cons: "x86_step taken c = Some c' \<Longrightarrow> steps taken c' c'' \<Longrightarrow> steps taken c c''"
  unfolding steps_def by (rule converse_rtranclp_into_rtranclp)

lemma steps_one: "x86_step taken c = Some c' \<Longrightarrow> steps taken c c'"
  by (rule steps_Cons) auto

lemma steps_trans: "steps taken c c' \<Longrightarrow> steps taken c' c'' \<Longrightarrow> steps taken c c''"
  unfolding steps_def by (rule rtranclp_trans)

section \<open>Bytes of words\<close>

lemma rd32_bytes:
  assumes "\<And>i. i < 4 \<Longrightarrow> m (p + i) = bytes32 w ! i"
  shows "rd32 m p = w"
proof -
  have "m p = ucast w" "m (p + 1) = ucast (drop_bit 8 w)" "m (p + 2) = ucast (drop_bit 16 w)" "m (p + 3) = ucast (drop_bit 24 w)"
    using assms [of 0] assms [of 1] assms [of 2] assms [of 3] by (simp_all add: bytes32_def)
  then have e: "rd32 m p = ucast (ucast (ucast w :: u8) OR push_bit 8 (ucast (ucast (drop_bit 8 w) :: u8)) :: u16) OR
      push_bit 16 (ucast (ucast (ucast (drop_bit 16 w) :: u8) OR push_bit 8 (ucast (ucast (drop_bit 24 w) :: u8)) :: u16))"
    by (simp add: rd32_def rd16_def numeral_3_eq_3)
  show ?thesis
    unfolding e
  proof (rule bit_word_eqI)
    fix n
    assume "n < LENGTH(32)"
    then consider "n < 8" | "8 \<le> n" "n < 16" | "16 \<le> n" "n < 24" | "24 \<le> n" "n < 32" by force
    then show "bit (ucast (ucast (ucast w :: u8) OR push_bit 8 (ucast (ucast (drop_bit 8 w) :: u8)) :: u16) OR
      push_bit 16 (ucast (ucast (ucast (drop_bit 16 w) :: u8) OR push_bit 8 (ucast (ucast (drop_bit 24 w) :: u8)) :: u16)) :: u32) n = bit w n"
      by cases (auto simp: bit_simps)
  qed
qed

lemma length_bytes64 [simp]: "length (bytes64 w) = 8"
  by (simp add: bytes64_def)

lemma rd64_bytes:
  assumes "\<And>i. i < 8 \<Longrightarrow> m (p + i) = bytes64 w ! i"
  shows "rd64 m p = w"
proof -
  have "rd32 m p = ucast w" by (rule rd32_bytes) (simp add: assms bytes64_def nth_append)
  moreover have "rd32 m (p + 4) = ucast (drop_bit 32 w)"
  proof (rule rd32_bytes)
    fix i :: nat
    assume "i < 4"
    then show "m (p + 4 + i) = bytes32 (ucast (drop_bit 32 w)) ! i"
      using assms [of "4 + i"] by (simp add: bytes64_def nth_append add.assoc)
  qed
  ultimately have e: "rd64 m p = ucast (ucast w :: u32) OR push_bit 32 (ucast (ucast (drop_bit 32 w) :: u32))"
    by (simp add: rd64_def)
  show ?thesis
    unfolding e
  proof (rule bit_word_eqI)
    fix n
    assume "n < LENGTH(64)"
    then consider "n < 32" | "32 \<le> n" "n < 64" by force
    then show "bit (ucast (ucast w :: u32) OR push_bit 32 (ucast (ucast (drop_bit 32 w) :: u32)) :: u64) n = bit w n"
      by cases (auto simp: bit_simps)
  qed
qed

lemma ucast_sext [simp]: "ucast (scast (w :: u32) :: u64) = w"
  by (rule bit_word_eqI) (auto simp: bit_simps)

lemma sext_low: "drop_bit 32 (t :: u64) = 0 \<Longrightarrow> \<not> bit t 31 \<Longrightarrow> scast (ucast t :: u32) = t"
proof (rule bit_word_eqI)
  fix n
  assume z: "drop_bit 32 t = 0" "\<not> bit t 31" and "n < LENGTH(64)"
  have "bit (drop_bit 32 t) (n - 32) = False" unfolding z(1) by simp
  then have "32 \<le> n \<Longrightarrow> \<not> bit t n" by (simp add: bit_drop_bit_eq)
  then show "bit (scast (ucast t :: u32) :: u64) n = bit t n" using z(2) \<open>n < LENGTH(64)\<close>
    by (cases "n < 32") (auto simp: bit_simps)
qed

section \<open>Code and stack\<close>

definition code_in :: "(u64 \<Rightarrow> u8) \<Rightarrow> u64 \<Rightarrow> u8 list \<Rightarrow> bool" where
  "code_in m a bs \<longleftrightarrow> (\<forall>i<length bs. m (a + of_nat i) = bs ! i)"

definition same_outside :: "u64 \<Rightarrow> nat \<Rightarrow> (u64 \<Rightarrow> u8) \<Rightarrow> (u64 \<Rightarrow> u8) \<Rightarrow> bool" where
  "same_outside lo n m m' \<longleftrightarrow> (\<forall>x. n \<le> unat (x - lo) \<longrightarrow> m' x = m x)"

definition clear_of :: "u64 \<Rightarrow> nat \<Rightarrow> u64 \<Rightarrow> nat \<Rightarrow> bool" where
  "clear_of lo n a len \<longleftrightarrow> (\<forall>i<len. n \<le> unat (a + of_nat i - lo))"

text \<open>\<open>ready k c bs\<close>: the code \<open>bs\<close> is about to run and lies outside of the \<open>k\<close> bytes below the stack pointer.
  \<open>arrives k c t\<close>: running from \<open>c\<close> leads to the address \<open>t\<close> with all registers and all memory unchanged,
  except for those \<open>k\<close> bytes.\<close>

definition ready :: "nat \<Rightarrow> cpu \<Rightarrow> u8 list \<Rightarrow> bool" where
  "ready k c bs \<longleftrightarrow> code_in (cmem c) (crip c) bs \<and> clear_of (cgpr c 4 - of_nat k) k (crip c) (length bs)"

definition arrives :: "(u8 \<Rightarrow> bool) \<Rightarrow> nat \<Rightarrow> cpu \<Rightarrow> u64 \<Rightarrow> bool" where
  "arrives taken k c t \<longleftrightarrow> (\<exists>c'. steps taken c c' \<and> crip c' = t \<and> cgpr c' = cgpr c \<and>
     same_outside (cgpr c 4 - of_nat k) k (cmem c) (cmem c'))"

lemma same_outside_refl [simp]: "same_outside lo n m m"
  by (simp add: same_outside_def)

lemma same_outside_trans: "same_outside lo n m m' \<Longrightarrow> same_outside lo n m' m'' \<Longrightarrow> same_outside lo n m m''"
  by (simp add: same_outside_def)

lemma unat_sub_off:
  fixes x a :: u64
  assumes "k \<le> unat (x - a)"
  shows "unat (x - (a + of_nat k)) = unat (x - a) - k"
proof -
  have k: "k < 2 ^ 64" using assms unsigned_less [of "x - a", where 'a = nat] by simp
  have e: "x - (a + of_nat k) = (x - a) - of_nat k" by simp
  have "(of_nat k :: u64) \<le> x - a" using assms k by (simp add: word_le_nat_alt unat_of_nat)
  then show ?thesis unfolding e using k by (simp only: unat_sub unat_of_nat) simp
qed

lemma store_same:
  assumes "off + length bs \<le> n"
  shows "same_outside lo n m (store_bytes (lo + of_nat off) bs m)"
  unfolding same_outside_def
proof (intro allI impI)
  fix x
  assume "n \<le> unat (x - lo)"
  then have "unat (x - (lo + of_nat off)) = unat (x - lo) - off" using assms by (intro unat_sub_off) simp
  moreover have "\<not> unat (x - lo) - off < length bs" using assms \<open>n \<le> unat (x - lo)\<close> by linarith
  ultimately show "store_bytes (lo + of_nat off) bs m x = m x" by (simp add: store_bytes_def)
qed

lemma code_in_same:
  "code_in m a bs \<Longrightarrow> clear_of lo n a (length bs) \<Longrightarrow> same_outside lo n m m' \<Longrightarrow> code_in m' a bs"
  by (simp add: code_in_def clear_of_def same_outside_def)

lemma code_in_append:
  "code_in m a (xs @ ys) \<longleftrightarrow> code_in m a xs \<and> code_in m (a + of_nat (length xs)) ys"
proof
  assume l: "code_in m a (xs @ ys)"
  have "m (a + of_nat (length xs) + of_nat i) = ys ! i" if "i < length ys" for i
    using l [unfolded code_in_def, rule_format, of "length xs + i"] that by (simp add: add.assoc)
  moreover have "m (a + of_nat i) = xs ! i" if "i < length xs" for i
    using l [unfolded code_in_def, rule_format, of i] that by (simp add: nth_append)
  ultimately show "code_in m a xs \<and> code_in m (a + of_nat (length xs)) ys" by (simp add: code_in_def)
next
  assume r: "code_in m a xs \<and> code_in m (a + of_nat (length xs)) ys"
  show "code_in m a (xs @ ys)"
    unfolding code_in_def
  proof (intro allI impI)
    fix i
    assume "i < length (xs @ ys)"
    then show "m (a + of_nat i) = (xs @ ys) ! i"
      using r [unfolded code_in_def, THEN conjunct1, rule_format, of i] r [unfolded code_in_def, THEN conjunct2, rule_format, of "i - length xs"]
      by (cases "i < length xs") (auto simp: nth_append of_nat_diff)
  qed
qed

lemma clear_of_append:
  "clear_of lo n a (k + l) \<longleftrightarrow> clear_of lo n a k \<and> clear_of lo n (a + of_nat k) l"
proof
  assume c: "clear_of lo n a (k + l)"
  have "n \<le> unat (a + of_nat k + of_nat i - lo)" if "i < l" for i
    using c [unfolded clear_of_def, rule_format, of "k + i"] that by (simp add: algebra_simps)
  then show "clear_of lo n a k \<and> clear_of lo n (a + of_nat k) l" using c by (simp add: clear_of_def)
next
  assume c: "clear_of lo n a k \<and> clear_of lo n (a + of_nat k) l"
  show "clear_of lo n a (k + l)"
    unfolding clear_of_def
  proof (intro allI impI)
    fix i
    assume "i < k + l"
    then show "n \<le> unat (a + of_nat i - lo)"
      using c [unfolded clear_of_def, THEN conjunct1, rule_format, of i] c [unfolded clear_of_def, THEN conjunct2, rule_format, of "i - k"]
      by (cases "i < k") (auto simp: of_nat_diff)
  qed
qed

text \<open>A smaller part of the stack that ends at the same place.\<close>

lemma unat_sub_less:
  fixes x sp :: u64
  assumes "k \<le> n" "n \<le> unat (x - (sp - of_nat n))"
  shows "k \<le> unat (x - (sp - of_nat k))"
proof -
  have "unat (x - ((sp - of_nat n) + of_nat (n - k))) = unat (x - (sp - of_nat n)) - (n - k)"
    by (rule unat_sub_off) (use assms in simp)
  then show ?thesis using assms by (simp add: of_nat_diff)
qed

lemma ready_mono: "ready n c bs \<Longrightarrow> k \<le> n \<Longrightarrow> ready k c bs"
  unfolding ready_def clear_of_def using unat_sub_less by blast

lemma same_outside_mono:
  "same_outside (sp - of_nat k) k m m' \<Longrightarrow> k \<le> n \<Longrightarrow> same_outside (sp - of_nat n) n m m'"
  unfolding same_outside_def using unat_sub_less by blast

lemma ready_append: "ready k c (xs @ ys) \<Longrightarrow> ready k c xs"
  by (simp add: ready_def code_in_append clear_of_append)

lemma ready_rest:
  assumes "ready k c (xs @ ys)" "crip c' = crip c + of_nat (length xs)" "cgpr c' 4 = cgpr c 4"
    "same_outside (cgpr c 4 - of_nat k) k (cmem c) (cmem c')"
  shows "ready k c' ys"
  using assms code_in_same [OF _ _ assms(4)] by (simp add: ready_def code_in_append clear_of_append)

lemma ready_fetch: "ready k c bs \<Longrightarrow> i < length bs \<Longrightarrow> fetch c i = bs ! i"
  by (simp add: ready_def code_in_def code_at_def)

section \<open>Pushes and jumps\<close>

lemma unat_of_nat64: "i < 2 ^ 64 \<Longrightarrow> unat (of_nat i :: u64) = i"
  by (simp add: unat_of_nat)

lemma store_at: "i < length bs \<Longrightarrow> length bs < 2 ^ 64 \<Longrightarrow> store_bytes a bs m (a + of_nat i) = bs ! i"
  by (simp add: store_bytes_def unat_of_nat64)

lemma read64_store [simp]: "read64 (store_bytes a (bytes64 v) m) a = v"
  unfolding read64_def by (rule rd64_bytes) (simp add: code_at_def store_at)

lemma store_upper:
  assumes "length xs = 4" "length ys = 4" "length zs = 4"
  shows "store_bytes (a + 4) ys (store_bytes a (xs @ zs) m) = store_bytes a (xs @ ys) m"
proof
  fix x
  have o: "4 \<le> unat (x - a) \<Longrightarrow> unat (x - (a + 4)) = unat (x - a) - 4" using unat_sub_off [of 4 x a] by simp
  have u: "unat (x - a) < 4 \<Longrightarrow> \<not> unat (x - (a + 4)) < 4"
  proof
    assume l: "unat (x - a) < 4" "unat (x - (a + 4)) < 4"
    have "x - (a + 4) = (x - a) - 4" by simp
    moreover have "\<not> (4 :: u64) \<le> x - a" using l(1) by (simp add: word_le_nat_alt)
    ultimately have "unat (x - (a + 4)) = 2 ^ 64 + unat (x - a) - 4" by (simp only: unat_sub_if' word_le_nat_alt) simp
    then show False using l by simp
  qed
  show "store_bytes (a + 4) ys (store_bytes a (xs @ zs) m) x = store_bytes a (xs @ ys) m x"
    using o u assms unfolding store_bytes_def by (cases "unat (x - a) < 4") (auto simp: nth_append)
qed

lemma ready_rd32: "ready k c (xs @ bytes32 w @ ys) \<Longrightarrow> rd32 (fetch c) (length xs) = w"
  by (rule rd32_bytes) (simp add: ready_fetch nth_append)

text \<open>The immediate of \<open>push\<close> is sign-extended: without a second instruction for the upper half the bit 31
  has to be clear.\<close>

definition push_ok :: "u64 \<Rightarrow> bool" where
  "push_ok t \<longleftrightarrow> drop_bit 32 t \<noteq> 0 \<or> \<not> bit t 31"

lemma cpu_push:
  assumes "ready 8 c (MSPushPointer t)" "push_ok t"
  shows "steps taken c (x86_goto (crip c + of_nat (MSSizeOfPushPointer t)) (x86_push t c))"
proof -
  let ?sp = "cgpr c 4 - 8" and ?w = "ucast t :: u32" and ?h = "ucast (drop_bit 32 t) :: u32"
  obtain rest where m: "MSPushPointer t = 0x68 # bytes32 ?w @ rest"
    "rest = (if ?h \<noteq> 0 then [0xc7, 0x44, 0x24, 0x04] @ bytes32 ?h else [])"
    by (simp add: MSPushPointer_def Let_def)
  have r: "rd32 (fetch c) 1 = ?w" using ready_rd32 [of 8 c "[0x68]" ?w rest] assms(1) m(1) by simp
  let ?c1 = "x86_goto (crip c + 5) (x86_push (scast ?w) c)"
  have s1: "x86_step taken c = Some ?c1"
    using r ready_fetch [OF assms(1), of 0] m(1) by (simp add: x86_step_def Let_def rel32_def)
  show ?thesis
  proof (cases "?h = 0")
    case True
    then have "drop_bit 32 t = 0" by (simp add: high_zero_iff)
    then have "scast ?w = t" "MSSizeOfPushPointer t = 5" using assms(2) sext_low [of t] by (simp_all add: push_ok_def MSSizeOfPushPointer_def)
    then show ?thesis using steps_one [OF s1] by simp
  next
    case False
    have n: "MSSizeOfPushPointer t = 13" using False by (simp add: high_zero_iff MSSizeOfPushPointer_def)
    have m': "MSPushPointer t = (0x68 # bytes32 ?w) @ ([0xc7, 0x44, 0x24, 0x04] @ bytes32 ?h)" using m False by simp
    have same: "same_outside ?sp 8 (cmem c) (cmem ?c1)"
      using store_same [of 0 "bytes64 (scast ?w)" 8 ?sp "cmem c"] by (simp add: x86_goto_def x86_push_def)
    have rd: "code_in (cmem ?c1) (crip ?c1) ([0xc7, 0x44, 0x24, 0x04] @ bytes32 ?h)"
      using assms(1) same code_in_same unfolding m' ready_def code_in_append clear_of_append length_append
      by (fastforce simp: x86_goto_def)
    have f: "fetch ?c1 i = ([0xc7, 0x44, 0x24, 0x04] @ bytes32 ?h) ! i" if "i < 8" for i
      using rd that by (simp add: code_in_def code_at_def)
    have f4: "fetch ?c1 0 = 0xc7" "fetch ?c1 1 = 0x44" "fetch ?c1 2 = 0x24" "fetch ?c1 3 = 0x04"
      using f [of 0] f [of 1] f [of 2] f [of 3] by simp_all
    have r4: "rd32 (fetch ?c1) 4 = ?h"
    proof (rule rd32_bytes)
      show "fetch ?c1 (4 + i) = bytes32 ?h ! i" if "i < 4" for i using f [of "4 + i"] that by (simp add: nth_append)
    qed
    let ?c2 = "x86_goto (crip c + 13) (x86_push t c)"
    have "store_bytes (?sp + 4) (bytes32 ?h) (store_bytes ?sp (bytes64 (scast ?w)) (cmem c)) = store_bytes ?sp (bytes64 t) (cmem c)"
      using store_upper [of "bytes32 ?w" "bytes32 ?h" "bytes32 (ucast (drop_bit 32 (scast ?w :: u64)))" ?sp "cmem c"]
      by (simp add: bytes64_def)
    then have "x86_step taken ?c1 = Some ?c2"
      using f4 r4 by (simp add: x86_step_def Let_def) (simp add: x86_goto_def x86_push_def)
    then show ?thesis using s1 n by (auto intro: steps_Cons steps_one)
  qed
qed

lemma MSIs32BitOffset_target: "MSIs32BitOffset t s \<Longrightarrow> s + scast (ucast (t - s) :: u32) = t"
  by (simp add: MSIs32BitOffset_def Let_def)

lemma jump_near:
  assumes "ready k c (0xe9 # bytes32 w)"
  shows "x86_step taken c = Some (x86_goto (crip c + 5 + scast w) c)"
  using ready_fetch [OF assms, of 0] ready_rd32 [of k c "[0xe9]" w "[]"] assms
  by (simp add: x86_step_def Let_def rel32_def)

definition jump_ok :: "u64 \<Rightarrow> u64 \<Rightarrow> bool" where
  "jump_ok t current \<longleftrightarrow> MSIs32BitOffset t (current + 5) \<or> push_ok t"

lemma cpu_jump:
  assumes "ready 8 c (MSWriteJump (crip c) t)" "jump_ok t (crip c)"
  shows "arrives taken 8 c t"
proof (cases "MSIs32BitOffset t (crip c + 5)")
  case True
  then have "x86_step taken c = Some (x86_goto t c)"
    using assms(1) jump_near [of 8 c "ucast (t - (crip c + 5))"] MSIs32BitOffset_target [OF True]
    by (simp add: MSWriteJump_def MSWriteSkip_def)
  then show ?thesis unfolding arrives_def by (intro exI [of _ "x86_goto t c"]) (auto simp: x86_goto_def intro: steps_one)
next
  case False
  let ?n = "MSSizeOfPushPointer t" and ?sp = "cgpr c 4 - 8"
  let ?c1 = "x86_goto (crip c + of_nat ?n) (x86_push t c)"
  have m: "MSWriteJump (crip c) t = MSPushPointer t @ [0xc3]" using False by (simp add: MSWriteJump_def)
  have p: "steps taken c ?c1" using assms False unfolding m by (intro cpu_push) (auto simp: jump_ok_def dest: ready_append)
  have same: "same_outside ?sp 8 (cmem c) (cmem ?c1)"
    using store_same [of 0 "bytes64 t" 8 ?sp "cmem c"] by (simp add: x86_goto_def x86_push_def)
  have "code_in (cmem ?c1) (crip ?c1) [0xc3]"
    using assms(1) same code_in_same unfolding m ready_def code_in_append clear_of_append length_append
    by (fastforce simp: x86_goto_def)
  then have "fetch ?c1 0 = 0xc3" by (simp add: code_in_def code_at_def)
  then have "x86_step taken ?c1 = Some (?c1\<lparr>crip := t, cgpr := cgpr c\<rparr>)"
    by (simp add: x86_step_def Let_def) (simp add: x86_goto_def x86_push_def fun_eq_iff)
  then have "steps taken c (?c1\<lparr>crip := t, cgpr := cgpr c\<rparr>)" using p by (auto intro: steps_trans steps_one)
  then show ?thesis using same unfolding arrives_def by fastforce
qed

section \<open>Calls, conditional branches and loads\<close>

lemma arrives_step:
  assumes "x86_step taken c = Some (x86_goto a c)" "arrives taken k (x86_goto a c) t"
  shows "arrives taken k c t"
proof -
  obtain c' where c': "steps taken (x86_goto a c) c'" "crip c' = t" "cgpr c' = cgpr c"
    "same_outside (cgpr c 4 - of_nat k) k (cmem c) (cmem c')"
    using assms(2) unfolding arrives_def by (auto simp: x86_goto_def)
  then show ?thesis using steps_Cons [OF assms(1) c'(1)] unfolding arrives_def by blast
qed

lemma arrives_refl: "crip c = t \<Longrightarrow> arrives taken k c t"
  unfolding arrives_def by (intro exI [of _ c]) simp

lemma ready_goto: "ready k c (xs @ ys) \<Longrightarrow> ready k (x86_goto (crip c + of_nat (length xs)) c) ys"
  by (erule ready_rest) (simp_all add: x86_goto_def)

lemma small_sext: "n \<le> 14 \<Longrightarrow> scast (of_nat n :: u8) = (of_nat n :: u64)" for n :: nat
proof -
  assume "n \<le> 14"
  then have "n = 0 \<or> n = 1 \<or> n = 2 \<or> n = 3 \<or> n = 4 \<or> n = 5 \<or> n = 6 \<or> n = 7 \<or> n = 8 \<or> n = 9 \<or> n = 10 \<or> n = 11 \<or> n = 12 \<or> n = 13 \<or> n = 14"
    by presburger
  then show ?thesis by auto
qed

lemma small_sext32: "n \<le> 14 \<Longrightarrow> scast (ucast (of_nat n :: u64) :: u32) = (of_nat n :: u64)" for n :: nat
proof -
  assume "n \<le> 14"
  then have "n = 0 \<or> n = 1 \<or> n = 2 \<or> n = 3 \<or> n = 4 \<or> n = 5 \<or> n = 6 \<or> n = 7 \<or> n = 8 \<or> n = 9 \<or> n = 10 \<or> n = 11 \<or> n = 12 \<or> n = 13 \<or> n = 14"
    by presburger
  then show ?thesis by auto
qed

lemma cpu_cond:
  assumes "ready 8 c em" "em = [op, 2, 0xeb, of_nat (MSSizeOfJump False t (crip c + 4))] @ MSWriteJump (crip c + 4) t"
    "op = 0xe3 \<or> op AND 0xf0 = 0x70" "jump_ok t (crip c + 4)"
  shows "arrives taken 8 c (if taken op then t else crip c + of_nat (length em))"
proof -
  let ?J = "MSSizeOfJump False t (crip c + 4)"
  have f: "fetch c 0 = op" "fetch c 1 = 2" "fetch c 2 = 0xeb" "fetch c 3 = of_nat ?J"
    using ready_fetch [OF assms(1), of 0] ready_fetch [OF assms(1), of 1] ready_fetch [OF assms(1), of 2] ready_fetch [OF assms(1), of 3]
    by (simp_all add: assms(2) numeral_3_eq_3)
  have op: "op \<noteq> 0xe9" "op \<noteq> 0xeb" "op \<noteq> 0xe8" using assms(3) by auto
  show ?thesis
  proof (cases "taken op")
    case True
    have s: "x86_step taken c = Some (x86_goto (crip c + 4) c)"
      using f(1,2) op assms(3) True by (auto simp: x86_step_def Let_def rel8_def) (simp_all add: add.commute)
    have "ready 8 (x86_goto (crip c + 4) c) (MSWriteJump (crip c + 4) t)"
      using ready_goto [of 8 c "[op, 2, 0xeb, of_nat ?J]"] assms(1) by (simp add: assms(2))
    then have "arrives taken 8 (x86_goto (crip c + 4) c) t" using assms(4) by (intro cpu_jump) (simp_all add: x86_goto_def)
    then show ?thesis using arrives_step [OF s] True by simp
  next
    case False
    let ?c1 = "x86_goto (crip c + 2) c"
    have s: "x86_step taken c = Some ?c1"
      using f(1,2) op assms(3) False by (auto simp: x86_step_def Let_def)
    have e: "fetch ?c1 0 = 0xeb" "fetch ?c1 1 = of_nat ?J"
      using f(3,4) by (simp_all add: x86_goto_def code_at_def add.assoc)
    have "x86_step taken ?c1 = Some (x86_goto (crip c + 4 + of_nat ?J) ?c1)"
      using e small_sext [of ?J] size_of_jump(2) [of False t "crip c + 4"]
      by (simp add: x86_step_def Let_def rel8_def) (simp add: x86_goto_def)
    then have "arrives taken 8 ?c1 (crip c + 4 + of_nat ?J)"
      by (rule arrives_step) (simp add: arrives_refl x86_goto_def)
    then have "arrives taken 8 c (crip c + 4 + of_nat ?J)" by (rule arrives_step [OF s])
    then show ?thesis using False by (simp add: assms(2) add.assoc)
  qed
qed

text \<open>A call: the target is reached with the return address on the stack, and the code at the return address
  continues behind the sequence.\<close>

definition calls :: "(u8 \<Rightarrow> bool) \<Rightarrow> cpu \<Rightarrow> u8 list \<Rightarrow> u64 \<Rightarrow> bool" where
  "calls taken c em t \<longleftrightarrow> (\<exists>c' ret. steps taken c c' \<and> crip c' = t \<and> cgpr c' = (cgpr c)(4 := cgpr c 4 - 8) \<and>
     read64 (cmem c') (cgpr c' 4) = ret \<and> same_outside (cgpr c 4 - 16) 16 (cmem c) (cmem c') \<and>
     (\<forall>r. crip r = ret \<longrightarrow> code_in (cmem r) (crip c) em \<longrightarrow>
        x86_step taken r = Some (x86_goto (crip c + of_nat (length em)) r)))"

lemma read64_same:
  assumes "same_outside lo n m m'" "clear_of lo n a 8"
  shows "read64 m' a = read64 m a"
proof -
  have "code_at m' a i = code_at m a i" if "i < 8" for i
    using assms that by (simp add: same_outside_def clear_of_def code_at_def)
  then show ?thesis by (simp add: read64_def rd64_def rd32_def rd16_def)
qed

lemma stack_above: "clear_of (sp - 16) 8 (sp - 8) 8"
  unfolding clear_of_def
proof (intro allI impI)
  fix i :: nat
  assume "i < 8"
  have "sp - 8 + of_nat i - (sp - 16) = of_nat (8 + i)" by simp
  then show "8 \<le> unat (sp - 8 + of_nat i - (sp - 16))" using \<open>i < 8\<close> unat_of_nat64 [of "8 + i"] by simp
qed

lemma cpu_call:
  assumes "ready 16 c em" "j = crip c + 10"
    "em = 0xe8 # bytes32 5 @ MSWriteSkip (of_nat (MSSizeOfJump False t j)) @ MSWriteJump j t" "jump_ok t j"
  shows "calls taken c em t"
proof -
  let ?J = "MSSizeOfJump False t j" and ?sp = "cgpr c 4"
  let ?call = "0xe8 # bytes32 5" and ?skip = "MSWriteSkip (of_nat ?J)"
  have em: "em = ?call @ ?skip @ MSWriteJump j t" using assms(3) by simp
  have f: "fetch c 0 = 0xe8" using ready_fetch [OF assms(1), of 0] by (simp add: em)
  have r: "rd32 (fetch c) 1 = 5" using ready_rd32 [of 16 c "[0xe8]" 5] assms(1) by (simp add: assms(3))
  let ?c1 = "x86_goto j (x86_push (crip c + 5) c)"
  have s: "x86_step taken c = Some ?c1" using f r by (simp add: x86_step_def Let_def rel32_def assms(2)) (simp add: add.commute)
  have same1: "same_outside (?sp - 16) 16 (cmem c) (cmem ?c1)"
    using store_same [of 8 "bytes64 (crip c + 5)" 16 "?sp - 16" "cmem c"] by (simp add: x86_goto_def x86_push_def)
  have all: "code_in (cmem ?c1) (crip c) em" "clear_of (?sp - 16) 16 (crip c) (length em)"
    using assms(1) code_in_same [OF _ _ same1] by (simp_all add: ready_def)
  have "clear_of (?sp - 16) 16 j (length (MSWriteJump j t))"
    using all(2) unfolding em length_append clear_of_append by (simp add: assms(2) add.assoc)
  then have "clear_of (?sp - 16) 8 j (length (MSWriteJump j t))" by (auto simp: clear_of_def)
  moreover have "code_in (cmem ?c1) j (MSWriteJump j t)"
    using all(1) unfolding em code_in_append by (simp add: assms(2) add.assoc)
  ultimately have "ready 8 ?c1 (MSWriteJump j t)" by (simp add: ready_def x86_goto_def x86_push_def)
  then have "arrives taken 8 ?c1 t" using assms(4) by (intro cpu_jump) (simp_all add: x86_goto_def)
  then obtain c2 where c2: "steps taken ?c1 c2" "crip c2 = t" "cgpr c2 = cgpr ?c1" "same_outside (?sp - 16) 8 (cmem ?c1) (cmem c2)"
    unfolding arrives_def by (auto simp: x86_goto_def x86_push_def)
  have "read64 (cmem c2) (?sp - 8) = read64 (cmem ?c1) (?sp - 8)" by (rule read64_same [OF c2(4) stack_above])
  then have ret: "read64 (cmem c2) (cgpr c2 4) = crip c + 5" using c2(3) by (simp add: x86_goto_def x86_push_def)
  have same2: "same_outside (?sp - 16) 16 (cmem c) (cmem c2)"
    using same1 c2(4) by (auto simp: same_outside_def)
  have cont: "x86_step taken q = Some (x86_goto (crip c + of_nat (length em)) q)"
    if q: "crip q = crip c + 5" "code_in (cmem q) (crip c) em" for q
  proof -
    have ci: "code_in (cmem q) (crip q) (0xe9 # bytes32 (ucast (of_nat ?J :: u64)))"
      using q unfolding em code_in_append by (simp add: MSWriteSkip_def)
    have f: "fetch q 0 = 0xe9" using ci [unfolded code_in_def, rule_format, of 0] by (simp add: code_at_def)
    have "fetch q (1 + i) = bytes32 (ucast (of_nat ?J :: u64)) ! i" if "i < 4" for i
      using ci [unfolded code_in_def, rule_format, of "1 + i"] that by (simp add: code_at_def)
    then have "rd32 (fetch q) 1 = ucast (of_nat ?J :: u64)" by (rule rd32_bytes)
    then have "x86_step taken q = Some (x86_goto (crip q + 5 + of_nat ?J) q)"
      using f small_sext32 [of ?J] size_of_jump(2) [of False t j] by (simp add: x86_step_def Let_def rel32_def)
    then show ?thesis using q(1) by (simp add: em add.assoc)
  qed
  have "steps taken c c2" by (rule steps_Cons [OF s c2(1)])
  moreover have "cgpr c2 = (cgpr c)(4 := ?sp - 8)" using c2(3) by (simp add: x86_goto_def x86_push_def)
  ultimately show ?thesis unfolding calls_def using c2(2) ret same2 cont by blast
qed

text \<open>A load relative to the instruction pointer: push the address, pop it into the register, load from there.\<close>

lemma cpu_pop:
  assumes "code_in (cmem c) (crip c) (MSWritePop r)" "unat r < 16"
  shows "x86_step taken c = Some (x86_goto (crip c + of_nat (MSSizeOfPop r)) (x86_pop (unat r) c))"
proof -
  have f: "i < length (MSWritePop r) \<Longrightarrow> fetch c i = MSWritePop r ! i" for i
    using assms(1) by (simp add: code_in_def code_at_def)
  have "unat r = 0 \<or> unat r = 1 \<or> unat r = 2 \<or> unat r = 3 \<or> unat r = 4 \<or> unat r = 5 \<or> unat r = 6 \<or> unat r = 7 \<or>
    unat r = 8 \<or> unat r = 9 \<or> unat r = 10 \<or> unat r = 11 \<or> unat r = 12 \<or> unat r = 13 \<or> unat r = 14 \<or> unat r = 15"
    using assms(2) by presburger
  then have "r \<in> {0, 1, 2, 3, 4, 5, 6, 7, 8, 9, 10, 11, 12, 13, 14, 15}" by (auto simp: word_unat_eq_iff)
  then show ?thesis using f [of 0] f [of 1]
    by (elim insertE emptyE) (simp_all add: MSWritePop_def MSSizeOfPop_def x86_step_def Let_def)
qed

lemma cpu_move:
  assumes "code_in (cmem c) (crip c) (MSWriteMove64 r r)" "unat r < 16" "unat r \<notin> {4, 5, 12, 13}"
  shows "x86_step taken c = Some (x86_goto (crip c + 3) (c\<lparr>cgpr := (cgpr c)(unat r := read64 (cmem c) (cgpr c (unat r)))\<rparr>))"
proof -
  have f: "i < 3 \<Longrightarrow> fetch c i = MSWriteMove64 r r ! i" for i
    using assms(1) by (simp add: code_in_def code_at_def MSSizeOfMove64_def)
  have "unat r = 0 \<or> unat r = 1 \<or> unat r = 2 \<or> unat r = 3 \<or> unat r = 6 \<or> unat r = 7 \<or>
    unat r = 8 \<or> unat r = 9 \<or> unat r = 10 \<or> unat r = 11 \<or> unat r = 14 \<or> unat r = 15"
    using assms(2,3) by simp presburger
  then have "r \<in> {0, 1, 2, 3, 6, 7, 8, 9, 10, 11, 14, 15}" by (auto simp: word_unat_eq_iff)
  then show ?thesis using f [of 0] f [of 1] f [of 2]
    by (elim insertE emptyE, simp_all add: MSWriteMove64_def x86_step_def Let_def) (simp add: numeral_2_eq_2)
qed

definition loads :: "(u8 \<Rightarrow> bool) \<Rightarrow> cpu \<Rightarrow> nat \<Rightarrow> u64 \<Rightarrow> u64 \<Rightarrow> bool" where
  "loads taken c r a t \<longleftrightarrow> (\<exists>c'. steps taken c c' \<and> crip c' = t \<and> cgpr c' = (cgpr c)(r := read64 (cmem c) a) \<and>
     same_outside (cgpr c 4 - 8) 8 (cmem c) (cmem c'))"

lemma cpu_load:
  assumes "ready 8 c em" "em = MSPushPointer a @ MSWritePop r @ MSWriteMove64 r r" "push_ok a"
    "unat r < 16" "unat r \<notin> {4, 5, 12, 13}" "clear_of (cgpr c 4 - 8) 8 a 8"
  shows "loads taken c (unat r) a (crip c + of_nat (length em))"
proof -
  let ?sp = "cgpr c 4" and ?n = "MSSizeOfPushPointer a" and ?r = "unat r"
  let ?c1 = "x86_goto (crip c + of_nat ?n) (x86_push a c)"
  have s1: "steps taken c ?c1"
    using assms(1,3) unfolding assms(2) by (intro cpu_push) (auto dest: ready_append)
  have same: "same_outside (?sp - 8) 8 (cmem c) (cmem ?c1)"
    using store_same [of 0 "bytes64 a" 8 "?sp - 8" "cmem c"] by (simp add: x86_goto_def x86_push_def)
  have ci: "code_in (cmem ?c1) (crip c) em" using assms(1) code_in_same [OF _ _ same] by (simp add: ready_def)
  have p: "code_in (cmem ?c1) (crip ?c1) (MSWritePop r)"
    using ci unfolding assms(2) code_in_append by (simp add: x86_goto_def)
  let ?c2 = "x86_goto (crip ?c1 + of_nat (MSSizeOfPop r)) (x86_pop ?r ?c1)"
  have s2: "x86_step taken ?c1 = Some ?c2" by (rule cpu_pop [OF p assms(4)])
  have g2: "cgpr ?c2 = (cgpr c)(?r := a)" using assms(5) by (auto simp: x86_goto_def x86_push_def x86_pop_def fun_eq_iff)
  have m2: "cmem ?c2 = cmem ?c1" by (simp add: x86_goto_def x86_pop_def)
  have q: "code_in (cmem ?c2) (crip ?c2) (MSWriteMove64 r r)"
    using ci unfolding assms(2) code_in_append m2 by (simp add: x86_goto_def add.assoc)
  let ?c3 = "x86_goto (crip ?c2 + 3) (?c2\<lparr>cgpr := (cgpr ?c2)(?r := read64 (cmem ?c2) (cgpr ?c2 ?r))\<rparr>)"
  have s3: "x86_step taken ?c2 = Some ?c3" by (rule cpu_move [OF q assms(4,5)])
  have s: "steps taken c ?c3" using s1 s2 s3 by (blast intro: steps_trans steps_one)
  have "read64 (cmem ?c1) a = read64 (cmem c) a" by (rule read64_same [OF same assms(6)])
  then have "cgpr ?c3 = (cgpr c)(?r := read64 (cmem c) a)" unfolding g2 m2 by (simp add: x86_goto_def)
  moreover have "crip ?c3 = crip c + of_nat (length em)" by (simp add: assms(2) x86_goto_def MSSizeOfMove64_def add.assoc)
  moreover have "cmem ?c3 = cmem ?c1" using m2 by (simp add: x86_goto_def)
  ultimately show ?thesis unfolding loads_def using s same by metis
qed

section \<open>The copy does what the instructions did\<close>

text \<open>The register of a load relative to the instruction pointer, from its REX and ModRM bytes.\<close>

definition load_reg :: "mem \<Rightarrow> nat" where
  "load_reg b = (if b 0 = 0x4c then 8 else 0) + unat (drop_bit 3 (b 2 AND 0x3f))"

text \<open>What the bytes \<open>em\<close> at \<open>current\<close> have to do for the instruction \<open>b\<close> of length \<open>len\<close> that was at \<open>pc\<close>.
  Branches lead to the targets that the instruction had at \<open>pc\<close>, calls return behind the copy, a load relative to
  the instruction pointer reads the word it read at \<open>pc\<close>, and everything else is copied. Addresses
  that \<open>push\<close> cannot express and loads into registers that need another encoding are excepted.\<close>

definition intel_right :: "u64 \<Rightarrow> mem \<Rightarrow> nat \<Rightarrow> bool \<Rightarrow> u64 \<Rightarrow> u8 list \<Rightarrow> bool" where
  "intel_right pc b len load current em \<longleftrightarrow>
    (let next = current + of_nat (length em);
         run = (\<lambda>k P. \<forall>taken c. ready k c em \<longrightarrow> crip c = current \<longrightarrow> P taken c) in
     if load
     then let a = pc + 7 + scast (rd32 b 3) in
       rip_load b \<longrightarrow> load_reg b \<notin> {4, 5, 12, 13} \<longrightarrow> push_ok a \<longrightarrow>
       run 8 (\<lambda>taken c. clear_of (cgpr c 4 - 8) 8 a 8 \<longrightarrow> loads taken c (load_reg b) a next)
     else if b 0 = 0xe8 \<and> rel32 b = 0
     then push_ok (pc + 5) \<longrightarrow> run 8 (\<lambda>taken c. steps taken c (x86_goto next (x86_push (pc + 5) c)))
     else if b 0 = 0xe8
     then let t = pc + 5 + rel32 b in jump_ok t (current + 10) \<longrightarrow> run 16 (\<lambda>taken c. calls taken c em t)
     else if b 0 = 0xeb
     then let t = pc + 2 + rel8 b in jump_ok t current \<longrightarrow> run 8 (\<lambda>taken c. arrives taken 8 c t)
     else if b 0 = 0xe9
     then let t = pc + 5 + rel32 b in jump_ok t current \<longrightarrow> run 8 (\<lambda>taken c. arrives taken 8 c t)
     else if b 0 = 0xe3 \<or> b 0 AND 0xf0 = 0x70
     then let t = pc + 2 + rel8 b in jump_ok t (current + 4) \<longrightarrow>
       run 8 (\<lambda>taken c. arrives taken 8 c (if taken (b 0) then t else next))
     else em = code_bytes b len)"

definition is_load :: "hde64s \<Rightarrow> bool" where
  "is_load h \<longleftrightarrow> rip_relative h \<and> hs_opcode h = 0x8b"

lemma rip_reg_load:
  assumes "rip_load b" "hde64_disasm b = Some h"
  shows "unat (rip_reg h) = load_reg b" "load_reg b < 16" "rip_destiny pc h = pc + 7 + scast (rd32 b 3)"
proof -
  obtain h' where h': "hde64_disasm b = Some h'" "hs_len h' = 7" "disp h' = rd32 b 3" "modrm_reg h' = drop_bit 3 (b 2 AND 0x3f)"
    "rex_r h' = (if b 0 = 0x4c then 1 else 0)" using rip_load_decode [OF assms(1)] by blast
  then have h: "hs_len h = 7" "disp h = rd32 b 3" "modrm_reg h = drop_bit 3 (b 2 AND 0x3f)" "rex_r h = (if b 0 = 0x4c then 1 else 0)"
    using assms(2) by simp_all
  show "rip_destiny pc h = pc + 7 + scast (rd32 b 3)" using h by (simp add: rip_destiny_def)
  have le: "unat (drop_bit 3 (b 2 AND 0x3f)) \<le> 7" using byte_fields(2) [of "b 2"] by (simp only: word_le_nat_alt) simp
  then show "load_reg b < 16" by (simp add: load_reg_def)
  let ?k = "unat (modrm_reg h)"
  have "?k = 0 \<or> ?k = 1 \<or> ?k = 2 \<or> ?k = 3 \<or> ?k = 4 \<or> ?k = 5 \<or> ?k = 6 \<or> ?k = 7" using le h(3) by simp presburger
  then have "modrm_reg h \<in> {0, 1, 2, 3, 4, 5, 6, 7}" by (auto simp: word_unat_eq_iff)
  then have "unat (rip_reg h) = (if b 0 = 0x4c then 8 else 0) + unat (modrm_reg h)"
    using h(4) unfolding rip_reg_def by (elim insertE emptyE) simp_all
  then show "unat (rip_reg h) = load_reg b" by (simp only: load_reg_def h(3))
qed

lemma emit_step_right:
  assumes "hde64_disasm b = Some h"
  shows "intel_right pc b (unat (hs_len h)) (is_load h) current (emit_step current pc b h)"
proof (cases "is_load h")
  case True
  have e: "emit_step current pc b h = MSPushPointer (rip_destiny pc h) @ MSWritePop (rip_reg h) @ MSWriteMove64 (rip_reg h) (rip_reg h)"
    using True by (simp add: emit_step_def Let_def is_load_def)
  show ?thesis
    unfolding intel_right_def Let_def
    using cpu_load [OF _ e] rip_reg_load(1,2) [OF _ assms] rip_reg_load(3) [OF _ assms, of pc] True by auto
next
  case False
  note d = emit_step_def intel_right_def Let_def
  note l = branch_len [OF assms, unfolded branch_defs]
  show ?thesis
  proof (cases "rip_relative h")
    case True
    then have "emit_step current pc b h = code_bytes b (unat (hs_len h))" using False by (simp add: emit_step_def is_load_def Let_def)
    moreover have "b 0 \<notin> {0xe8, 0xe9, 0xeb, 0xe3}" "b 0 AND 0xf0 \<noteq> 0x70" using True l by auto
    ultimately show ?thesis using False unfolding intel_right_def Let_def by simp
  next
    case nr: False
    consider "b 0 = 0xe8" "rel32 b = 0" | "b 0 = 0xe8" "rel32 b \<noteq> 0" | "b 0 = 0xeb" | "b 0 = 0xe9"
      | "b 0 \<notin> {0xe8, 0xe9, 0xeb}" "b 0 = 0xe3 \<or> b 0 AND 0xf0 = 0x70"
      | "b 0 \<notin> {0xe8, 0xe9, 0xeb, 0xe3}" "b 0 AND 0xf0 \<noteq> 0x70" by auto
    then show ?thesis
    proof cases
      case 1
      then have "emit_step current pc b h = MSPushPointer (pc + 5)"
        using nr l by (simp add: emit_step_def branch_destiny_def Let_def)
      then show ?thesis using 1 False cpu_push [of _ "pc + 5"] by (auto simp: intel_right_def Let_def)
    next
      case 2
      let ?t = "pc + 5 + rel32 b" and ?j = "current + 10"
      have "emit_step current pc b h = 0xe8 # bytes32 5 @ MSWriteSkip (of_nat (MSSizeOfJump False ?t ?j)) @ MSWriteJump ?j ?t"
        using nr l 2 by (simp add: emit_step_def branch_destiny_def Let_def MSSizeOfSkip_def add.assoc)
      then show ?thesis using 2 False cpu_call unfolding intel_right_def Let_def by auto
    next
      case 3
      then have "emit_step current pc b h = MSWriteJump current (pc + 2 + rel8 b)"
        using nr l by (simp add: emit_step_def branch_destiny_def Let_def)
      then show ?thesis using 3 False cpu_jump by (auto simp: intel_right_def Let_def)
    next
      case 4
      then have "emit_step current pc b h = MSWriteJump current (pc + 5 + rel32 b)"
        using nr l by (simp add: emit_step_def branch_destiny_def Let_def)
      then show ?thesis using 4 False cpu_jump by (auto simp: intel_right_def Let_def)
    next
      case 5
      let ?t = "pc + 2 + rel8 b"
      have e: "emit_step current pc b h = [b 0, 2, 0xeb, of_nat (MSSizeOfJump False ?t (current + 4))] @ MSWriteJump (current + 4) ?t"
        using nr l 5 by (auto simp: emit_step_def branch_destiny_def Let_def add.assoc)
      have "arrives taken 8 c (if taken (b 0) then ?t else current + of_nat (length (emit_step current pc b h)))"
        if "ready 8 c (emit_step current pc b h)" "crip c = current" "jump_ok ?t (current + 4)" for taken c
        by (rule cpu_cond [OF that(1), of "b 0" ?t taken, unfolded that(2), OF e 5(2) that(3)])
      then show ?thesis using 5 False unfolding intel_right_def Let_def by auto
    next
      case 6
      then show ?thesis using nr False by (simp add: d)
    qed
  qed
qed

inductive intel_copy :: "u64 \<Rightarrow> mem \<Rightarrow> nat \<Rightarrow> nat \<Rightarrow> u64 \<Rightarrow> u8 list \<Rightarrow> bool" for area b used where
  copy_end: "em = MSWriteJump current (area + of_nat used) \<Longrightarrow>
    (\<And>taken c. ready 8 c em \<Longrightarrow> crip c = current \<Longrightarrow> jump_ok (area + of_nat used) current \<Longrightarrow> arrives taken 8 c (area + of_nat used)) \<Longrightarrow>
    intel_copy area b used used current em"
| copy_step: "hde64_disasm (tail_at b off) = Some h \<Longrightarrow>
    intel_right (area + of_nat off) (tail_at b off) (unat (hs_len h)) (is_load h) current em \<Longrightarrow>
    intel_copy area b used (off + unat (hs_len h)) (current + of_nat (length em)) rest \<Longrightarrow>
    intel_copy area b used off current (em @ rest)"

lemma emit_loop_right: "emit_loop current area b used off = Some bytes \<Longrightarrow> intel_copy area b used off current bytes"
proof (induction current area b used off arbitrary: bytes rule: emit_loop.induct)
  case (1 current area b used off)
  show ?case
  proof (cases "off = used")
    case True
    then have e: "bytes = MSWriteJump current (area + of_nat used)" using "1.prems" by (simp add: emit_loop.simps)
    show ?thesis unfolding True by (rule copy_end [OF e]) (auto simp: e intro: cpu_jump)
  next
    case False
    obtain h where h: "\<not> used < off" "hde64_disasm (tail_at b off) = Some h" "hs_len h \<noteq> 0"
      using "1.prems" False by (subst (asm) emit_loop.simps) (auto split: if_splits option.splits)
    let ?e = "emit_step current (area + of_nat off) (tail_at b off) h"
    obtain rest where r: "emit_loop (current + of_nat (length ?e)) area b used (off + unat (hs_len h)) = Some rest" "bytes = ?e @ rest"
      using "1.prems" False h by (subst (asm) emit_loop.simps) (auto simp: Let_def)
    show ?thesis
      unfolding r(2) by (rule copy_step [OF h(2) emit_step_right [OF h(2)] "1.IH" [OF False h(1,2,3) refl r(1)]])
  qed
qed

section \<open>Hooking a function\<close>

text \<open>The copy depends on the bytes of the whole instructions only.\<close>

lemma emit_step_local:
  assumes "hde64_disasm b = Some h" "\<And>i. i < unat (hs_len h) \<Longrightarrow> b' i = b i"
  shows "emit_step c pc b' h = emit_step c pc b h"
proof -
  note l = branch_len [OF assms(1), unfolded branch_defs]
  have 0: "b' 0 = b 0" using assms(2) [of 0] disasm_len(2) [OF assms(1)] by simp
  have cb: "code_bytes b' (unat (hs_len h)) = code_bytes b (unat (hs_len h))" using assms(2) by (simp add: code_bytes_def)
  have r32: "b 0 = 0xe8 \<or> b 0 = 0xe9 \<Longrightarrow> rel32 b' = rel32 b"
  proof -
    assume "b 0 = 0xe8 \<or> b 0 = 0xe9"
    then have "unat (hs_len h) = 5" using l(1) by auto
    then show "rel32 b' = rel32 b" using assms(2) by (simp add: rel32_def rd32_def rd16_def)
  qed
  have r8: "b 0 = 0xeb \<or> b 0 = 0xe3 \<or> b 0 AND 0xf0 = 0x70 \<Longrightarrow> rel8 b' = rel8 b"
  proof -
    assume "b 0 = 0xeb \<or> b 0 = 0xe3 \<or> b 0 AND 0xf0 = 0x70"
    then have "unat (hs_len h) = 2" using l(2) by auto
    then show "rel8 b' = rel8 b" using assms(2) by (simp add: rel8_def)
  qed
  show ?thesis unfolding emit_step_def Let_def 0 cb using r32 r8 by (simp cong: if_cong)
qed

lemma emit_loop_local:
  assumes "whole m used off" "\<And>i. i < used \<Longrightarrow> m' i = m i"
  shows "emit_loop c area m' used off = emit_loop c area m used off"
  using assms
proof (induction arbitrary: c rule: whole.induct)
  case (whole_step off h)
  note d = whole_decode [OF whole_step.hyps(1,2) whole_le [OF whole_step.hyps(3)] whole_step.prems]
  have "off + unat (hs_len h) \<le> used" by (rule whole_le [OF whole_step.hyps(3)])
  then have "emit_step c pc (tail_at m' off) h = emit_step c pc (tail_at m off) h" for pc
    using whole_step.prems by (intro emit_step_local [OF whole_step.hyps(1)]) (simp add: tail_at_def)
  then show ?case
    using whole_step.IH [OF whole_step.prems] d whole_step.hyps(1)
    by (subst (1 2) emit_loop.simps) (simp add: Let_def)
qed (simp add: emit_loop.simps)

lemma page_covers:
  assumes "xe_page e = 4096" "i < n" "n \<le> 2 ^ 16" "unat a + n \<le> 2 ^ 64"
  shows "unat (a + of_nat i - page_base e a) < unat (page_width e a (of_nat n))"
  unfolding page_base_def page_width_def
  by (rule page_range_covers) (use assms in simp_all)

text \<open>The environment: pages of 4096 bytes, \<open>mprotect\<close> and \<open>mmap\<close> succeed, and the new buffer is apart from the
  function.\<close>

definition intel_hook_ok :: "x86_env \<Rightarrow> u64 \<Rightarrow> u64 \<Rightarrow> x86_state \<Rightarrow> bool" where
  "intel_hook_ok e symbol buffer s \<longleftrightarrow>
     xe_page e = 4096 \<and> (\<forall>a n. xe_mprotect_ok e a n) \<and> (\<forall>a n. xe_mprotect_rx_ok e a n)
     \<and> symbol \<noteq> 0 \<and> unat symbol + 28 \<le> 2 ^ 64 \<and> (\<forall>n. xe_mmap e (xmaps s) n = Some buffer)
     \<and> clear_of symbol 28 buffer 1024"

definition jumps_already :: "mem \<Rightarrow> bool" where
  "jumps_already b \<longleftrightarrow> b 0 = 0xe9 \<or> b 0 = 0xff \<and> b 1 = 0x25"

lemma code_in_store: "length bs < 2 ^ 64 \<Longrightarrow> code_in (store_bytes a bs m) a bs"
  by (simp add: code_in_def store_at)

lemma intel_hook_spec:
  assumes "intel_hook_ok e symbol buffer s"
    and "used_loop (code_at (xmem s) symbol) (MSSizeOfJump False replace symbol) 0 = Some used"
    and "whole (code_at (xmem s) symbol) used 0" "\<not> jumps_already (code_at (xmem s) symbol)"
  shows "\<exists>s' bytes len. SubstrateHookFunctionIntel e symbol replace True s = Some (Some buffer, s')
     \<and> emit_loop buffer symbol (code_at (xmem s) symbol) used 0 = Some bytes
     \<and> xmaps s' = (buffer, len) # xmaps s \<and> length bytes \<le> len
     \<and> code_in (xmem s') buffer bytes
     \<and> code_in (xmem s') symbol (MSWriteJump symbol replace @ replicate (used - MSSizeOfJump False replace symbol) 0x90)
     \<and> (\<forall>x. used \<le> unat (x - symbol) \<longrightarrow> length bytes \<le> unat (x - buffer) \<longrightarrow> xmem s' x = xmem s x)"
proof -
  let ?m = "code_at (xmem s) symbol" and ?req = "MSSizeOfJump False replace symbol"
  let ?b = "backup_of e s symbol used"
  let ?patch = "intel_patch symbol replace (used - ?req)"
  note ok = assms(1) [unfolded intel_hook_ok_def]
  have u: "?req \<le> used" "used \<le> ?req + 14" using used_loop_total [of 0 ?req ?m] assms(2) by auto
  have u28: "used \<le> 28" using u(2) size_of_jump(2) [of False replace symbol] by simp
  have req: "5 \<le> ?req" by (rule size_of_jump(1))
  have b: "?b i = ?m i" if "i < used" for i using that by (simp add: backup_of_def code_at_def)
  have w: "whole ?b used 0" by (rule whole_copy [OF assms(3) b])
  let ?n = "used + blind_jump (symbol + of_nat used)"
  obtain len where len: "length_loop symbol ?b used 0 ?n = Some len" using whole_loops(1) [OF w] by blast
  obtain bytes where bytes: "emit_loop buffer symbol ?b used 0 = Some bytes" using whole_loops(2) [OF w] by blast
  have bytes': "emit_loop buffer symbol ?m used 0 = Some bytes" using emit_loop_local [OF assms(3) b] bytes by simp
  have fits: "length bytes \<le> len" using emit_loop_fits [OF len bytes] by simp
  have "len \<le> ?n + 30 * used" using length_loop_le [OF len] by simp
  then have len1024: "len \<le> 1024" using u28 size_of_jump(2) [of True "symbol + of_nat used" 0] by linarith
  have nj: "?b 0 \<noteq> 0xe9" "\<not> (?b 0 = 0xff \<and> ?b 1 = 0x25)"
    using assms(4) b [of 0] b [of 1] u(1) req by (auto simp: jumps_already_def)
  have lp: "length ?patch = used" using u(1) by (simp add: intel_patch_def)
  define s2 where "s2 = s\<lparr>xmaps := (buffer, len) # xmaps s, xmem := store_bytes buffer bytes (xmem s)\<rparr>"
  define s3 where "s3 = make_writable e symbol used s2"
  have s3: "xmem s3 = xmem s2" "xmaps s3 = xmaps s2" by (simp_all add: s3_def make_writable_def Let_def)
  have "xrwx s3 (symbol + of_nat i)" if i: "i < used" for i
    using page_covers [of e i used symbol] ok i u28 by (simp add: s3_def make_writable_def Let_def)
  then have wr: "write_code symbol ?patch s3 = Some (s3\<lparr>xmem := store_bytes symbol ?patch (xmem s3)\<rparr>)"
    using lp by (simp add: write_code_def)
  define s' where "s' = s3\<lparr>xmem := store_bytes symbol ?patch (xmem s3)\<rparr>"
  have run: "SubstrateHookFunctionIntel e symbol replace True s = Some (Some buffer, s')"
    using ok assms(2) nj len bytes fits wr
    unfolding SubstrateHookFunctionIntel_def Let_def by (auto simp: s2_def [symmetric] s3_def [symmetric] s'_def)
  have mem: "xmem s' = store_bytes symbol ?patch (store_bytes buffer bytes (xmem s))" by (simp add: s'_def s3 s2_def)
  have "clear_of symbol 28 buffer (length bytes)" using ok fits len1024 by (auto simp: clear_of_def)
  moreover have "same_outside symbol 28 (store_bytes buffer bytes (xmem s)) (xmem s')"
    unfolding mem using store_same [of 0 ?patch 28 symbol] lp u28 by simp
  ultimately have cb: "code_in (xmem s') buffer bytes"
    using code_in_same [OF code_in_store] fits len1024 by simp
  have cp: "code_in (xmem s') symbol ?patch" unfolding mem using lp u28 by (intro code_in_store) simp
  have frame: "xmem s' x = xmem s x" if "used \<le> unat (x - symbol)" "length bytes \<le> unat (x - buffer)" for x
    using that lp unfolding mem by (simp add: store_bytes_def)
  have "xmaps s' = (buffer, len) # xmaps s" by (simp add: s'_def s3 s2_def)
  then show ?thesis using run bytes' fits cb cp frame unfolding intel_patch_def by blast
qed

text \<open>The example: a conditional jump and a load relative to the instruction pointer, hooked by a near function.\<close>

definition x86_demo_env :: x86_env where
  "x86_demo_env = \<lparr>xe_page = 4096, xe_mprotect_ok = (\<lambda>_ _. True), xe_mprotect_rx_ok = (\<lambda>_ _. True),
     xe_mmap = (\<lambda>_ _. Some 0x100000), xe_stack = (\<lambda>_. 0)\<rparr>"

definition x86_demo :: x86_state where
  "x86_demo = \<lparr>xmem = store_bytes 0x1000 [0x74, 0x10, 0x48, 0x8b, 0x05, 0x00, 0x01, 0x00, 0x00] (\<lambda>_. 0x90),
     xrwx = (\<lambda>_. False), xmaps = []\<rparr>"

abbreviation "x86_demo_code \<equiv> code_at (xmem x86_demo) 0x1000"

lemma x86_demo_bytes:
  "x86_demo_code 0 = 0x74" "x86_demo_code 1 = 0x10" "x86_demo_code 2 = 0x48" "x86_demo_code 3 = 0x8b" "x86_demo_code 4 = 0x05"
  by (simp_all add: code_at_def x86_demo_def store_bytes_def)

lemma x86_demo_decode:
  "\<exists>h. hde64_disasm (tail_at x86_demo_code 0) = Some h \<and> hs_len h = 2 \<and> hs_flags h AND F_ERROR_LENGTH = 0"
  "\<exists>h. hde64_disasm (tail_at x86_demo_code 2) = Some h \<and> hs_len h = 7 \<and> hs_flags h AND F_ERROR_LENGTH = 0"
proof -
  have t: "tail_at x86_demo_code 0 0 = 0x74" "tail_at x86_demo_code 2 0 = 0x48" "tail_at x86_demo_code 2 1 = 0x8b" "tail_at x86_demo_code 2 2 = 0x05"
    using x86_demo_bytes by (simp_all add: tail_at_def numeral_2_eq_2 [symmetric] numeral_3_eq_3 [symmetric])
  have "short_branch (tail_at x86_demo_code 0 0)" "rip_load (tail_at x86_demo_code 2)"
    using t by (simp_all add: short_branch_def rip_load_def)
  then show "\<exists>h. hde64_disasm (tail_at x86_demo_code 0) = Some h \<and> hs_len h = 2 \<and> hs_flags h AND F_ERROR_LENGTH = 0"
    "\<exists>h. hde64_disasm (tail_at x86_demo_code 2) = Some h \<and> hs_len h = 7 \<and> hs_flags h AND F_ERROR_LENGTH = 0"
    using short_branch_decode [of "tail_at x86_demo_code 0"] rip_load_decode [of "tail_at x86_demo_code 2"] by blast+
qed

lemma x86_demo_ok:
  "intel_hook_ok x86_demo_env 0x1000 0x100000 x86_demo"
  "used_loop x86_demo_code (MSSizeOfJump False 0x2000 0x1000) 0 = Some 9"
  "whole x86_demo_code 9 0" "\<not> jumps_already x86_demo_code"
proof -
  have "28 \<le> unat (0x100000 + of_nat i - 0x1000 :: u64)" if "i < 1024" for i
  proof -
    have "(0x100000 + of_nat i - 0x1000 :: u64) = of_nat (1044480 + i)" by simp
    then show ?thesis using that unat_of_nat64 [of "1044480 + i"] by simp
  qed
  then show "intel_hook_ok x86_demo_env 0x1000 0x100000 x86_demo"
    by (simp add: intel_hook_ok_def x86_demo_env_def x86_demo_def clear_of_def)
  obtain h0 h2 where h: "hde64_disasm (tail_at x86_demo_code 0) = Some h0" "hs_len h0 = 2" "hs_flags h0 AND F_ERROR_LENGTH = 0"
    "hde64_disasm (tail_at x86_demo_code 2) = Some h2" "hs_len h2 = 7" "hs_flags h2 AND F_ERROR_LENGTH = 0"
    using x86_demo_decode by blast
  have r: "MSSizeOfJump False 0x2000 0x1000 = 5"
    by (simp add: MSSizeOfJump_def MSIs32BitOffset_def MSSizeOfSkip_def Let_def)
  have "used_loop x86_demo_code 5 9 = Some 9" by (simp add: used_loop.simps)
  then have "used_loop x86_demo_code 5 2 = Some 9"
    using h by (subst used_loop.simps) (simp add: MSGetInstructionWidthIntel_def)
  then show "used_loop x86_demo_code (MSSizeOfJump False 0x2000 0x1000) 0 = Some 9"
    unfolding r using h by (subst used_loop.simps) (simp add: MSGetInstructionWidthIntel_def numeral_2_eq_2 [symmetric])
  have "whole x86_demo_code 9 (2 + unat (hs_len h2))" using h(5) whole_end [of x86_demo_code 9] by simp
  then have "whole x86_demo_code 9 2" by (rule whole_step [OF h(4,6)])
  then have "whole x86_demo_code 9 (0 + unat (hs_len h0))" using h(2) by (simp add: numeral_2_eq_2 [symmetric])
  then show "whole x86_demo_code 9 0" by (rule whole_step [OF h(1,3)])
  show "\<not> jumps_already x86_demo_code" using x86_demo_bytes by (simp add: jumps_already_def)
qed

text \<open>C28. Hooking a fresh x86-64 function hands out the buffer with the relocated instructions, which fit
  into the length that was computed and mapped for them, and patches whole instructions of the function with a
  jump to the replacement and \<open>nop\<close>s: a thread that calls the function arrives at the replacement with its
  registers and its memory unchanged, but for the eight bytes below its stack pointer. No other byte of memory changes.\<close>

theorem hook_intel_installs:
  assumes "intel_hook_ok e symbol buffer s"
    and "used_loop (code_at (xmem s) symbol) (MSSizeOfJump False replace symbol) 0 = Some used"
    and "whole (code_at (xmem s) symbol) used 0" "\<not> jumps_already (code_at (xmem s) symbol)"
    and "jump_ok replace symbol"
  shows "\<exists>s' bytes len. SubstrateHookFunctionIntel e symbol replace True s = Some (Some buffer, s')
     \<and> xmaps s' = (buffer, len) # xmaps s \<and> length bytes \<le> len \<and> code_in (xmem s') buffer bytes
     \<and> code_in (xmem s') symbol (MSWriteJump symbol replace @ replicate (used - MSSizeOfJump False replace symbol) 0x90)
     \<and> (\<forall>taken c. cmem c = xmem s' \<longrightarrow> crip c = symbol \<longrightarrow> clear_of (cgpr c 4 - 8) 8 symbol used \<longrightarrow> arrives taken 8 c replace)
     \<and> (\<forall>x. used \<le> unat (x - symbol) \<longrightarrow> length bytes \<le> unat (x - buffer) \<longrightarrow> xmem s' x = xmem s x)"
proof -
  obtain s' bytes len where h: "SubstrateHookFunctionIntel e symbol replace True s = Some (Some buffer, s')"
    "xmaps s' = (buffer, len) # xmaps s" "length bytes \<le> len" "code_in (xmem s') buffer bytes"
    and p: "code_in (xmem s') symbol (MSWriteJump symbol replace @ replicate (used - MSSizeOfJump False replace symbol) 0x90)"
    and f: "\<forall>x. used \<le> unat (x - symbol) \<longrightarrow> length bytes \<le> unat (x - buffer) \<longrightarrow> xmem s' x = xmem s x"
    using intel_hook_spec [OF assms(1-4)] by blast
  have "MSSizeOfJump False replace symbol \<le> used" 
    using used_loop_total [of 0 "MSSizeOfJump False replace symbol" "code_at (xmem s) symbol"] assms(2) by auto
  then have "arrives taken 8 c replace"
    if "cmem c = xmem s'" "crip c = symbol" "clear_of (cgpr c 4 - 8) 8 symbol used" for taken c
    using that p assms(5) by (intro cpu_jump) (auto simp: ready_def code_in_append clear_of_def)
  then show ?thesis using h p f by blast
qed


theorem hook_intel_installs_witness:
  "\<exists>s' bytes len. SubstrateHookFunctionIntel x86_demo_env 0x1000 0x2000 True x86_demo = Some (Some 0x100000, s')
     \<and> xmaps s' = [(0x100000, len)] \<and> length bytes \<le> len \<and> code_in (xmem s') 0x100000 bytes
     \<and> code_in (xmem s') 0x1000 [0xe9, 0xfb, 0x0f, 0x00, 0x00, 0x90, 0x90, 0x90, 0x90]"
proof -
  have d: "MSIs32BitOffset 0x2000 (0x1000 + 5)" by (simp add: MSIs32BitOffset_def Let_def)
  then have "jump_ok 0x2000 0x1000" by (simp add: jump_ok_def)
  note h = hook_intel_installs [OF x86_demo_ok this]
  have "MSSizeOfJump False 0x2000 0x1000 = 5" using d by (simp add: MSSizeOfJump_def MSSizeOfSkip_def)
  moreover have "MSWriteJump 0x1000 0x2000 = [0xe9, 0xfb, 0x0f, 0x00, 0x00]"
    using d by (simp add: MSWriteJump_def MSWriteSkip_def bytes32_def)
  moreover have "replicate 4 (0x90 :: u8) = [0x90, 0x90, 0x90, 0x90]" by (simp add: numeral_eq_Suc)
  ultimately have "MSWriteJump 0x1000 0x2000 @ replicate (9 - MSSizeOfJump False 0x2000 0x1000) 0x90
      = [0xe9, 0xfb, 0x0f, 0x00, 0x00, 0x90, 0x90, 0x90, 0x90]" by simp
  then show ?thesis using h unfolding x86_demo_def x86_state.simps by metis
qed


section \<open>Functions that are not hooked, addresses that are missed\<close>

text \<open>A function that starts with a near jump, for instance one that is hooked already, is left as it is: the
  replacement is not installed. The displacement is taken as unsigned, so that the result is the target of the jump for
  forward jumps only.\<close>

lemma hook_intel_again_ignored:
  assumes "symbol \<noteq> 0" "xmem s symbol = 0xe9"
  shows "SubstrateHookFunctionIntel e symbol replace True s = Some (Some (symbol + 5 + ucast (rd32 (code_at (xmem s) symbol) 1)), s)"
proof -
  let ?m = "code_at (xmem s) symbol"
  obtain used where u: "used_loop ?m (MSSizeOfJump False replace symbol) 0 = Some used" "MSSizeOfJump False replace symbol \<le> used"
    using used_loop_total [of 0 "MSSizeOfJump False replace symbol" ?m] by auto
  then have "5 \<le> used" using size_of_jump(1) [of False replace symbol] by simp
  then have b: "backup_of e s symbol used i = ?m i" if "i < 5" for i using that by (simp add: backup_of_def code_at_def)
  have "rd32 (backup_of e s symbol used) 1 = rd32 ?m 1" using b by (simp add: rd32_def rd16_def)
  moreover have "backup_of e s symbol used 0 = 0xe9" using b [of 0] assms(2) by (simp add: code_at_def)
  ultimately show ?thesis using assms(1) u(1) by (simp add: SubstrateHookFunctionIntel_def Let_def)
qed

text \<open>A push of an address between 2 GB and 4 GB leaves the sign-extended address on the stack.\<close>

lemma push_sign_extends:
  "\<not> push_ok 0x80001000" "MSPushPointer 0x80001000 = [0x68, 0x00, 0x10, 0x00, 0x80]"
  "rel32 (\<lambda>i. [0x68, 0x00, 0x10, 0x00, 0x80] ! i) = 0xffffffff80001000"
  by (simp_all add: push_ok_def MSPushPointer_def bytes32_def rel32_def rd32_def rd16_def numeral_3_eq_3)

text \<open>The load through the base register 5 (\<open>rbp\<close>, and \<open>r13\<close> likewise) has the encoding of a load relative to the
  instruction pointer, whose displacement are the next bytes of the copy.\<close>

lemma move_rbp_misencoded: "rip_load (\<lambda>i. (MSWriteMove64 5 5 @ rest) ! i)" "rip_load (\<lambda>i. (MSWriteMove64 13 5 @ rest) ! i) = False"
  by (simp_all add: MSWriteMove64_def rip_load_def)

end
