(* ===== verification/NativeCrash.thy ===== *)
theory NativeCrash
  imports Prelude
begin

text \<open>
  The crash handler of the application (\<open>app/src/main/cpp/native_crash_cache.cpp\<close>): the installation of
  the signal handler, what happens at a fault, and the name of a thread. The kernel's table of signal actions
  is part of the state; the answers of the allocator and of \<open>sigaltstack\<close> are parameters.
\<close>

section \<open>Signal actions\<close>

definition SIGFPE :: int where "SIGFPE = 8"
definition SIGSEGV :: int where "SIGSEGV = 11"
definition SIGALRM :: int where "SIGALRM = 14"

datatype crash_handler = SIG_DFL | MyHandler | MyHandlerB | Foreign nat

record crash_action =
  ca_handler :: crash_handler
  ca_onstack :: bool
  ca_siginfo :: bool

record crash_state =
  actions :: "int \<Rightarrow> crash_action"
  crash_stack :: "u32 option"
  alarm_in :: "nat option"
  sa_old :: crash_action

definition set_action :: "int \<Rightarrow> crash_action \<Rightarrow> crash_state \<Rightarrow> crash_state" where
  "set_action sig a s = s\<lparr>actions := (actions s)(sig := a)\<rparr>"

definition default_action :: crash_action where
  "default_action = \<lparr>ca_handler = SIG_DFL, ca_onstack = False, ca_siginfo = False\<rparr>"

text \<open>\<open>signal(sig, SIG_DFL)\<close> and \<open>alarm\<close>.\<close>

definition signal_dfl :: "int \<Rightarrow> crash_state \<Rightarrow> crash_state" where
  "signal_dfl sig = set_action sig default_action"

definition alarm :: "nat \<Rightarrow> crash_state \<Rightarrow> crash_state" where
  "alarm n s = s\<lparr>alarm_in := Some n\<rparr>"

text \<open>The handler that is installed; the answer of its call of \<open>dladdr\<close>, on an uninitialised address, is not used.\<close>

definition my_handler :: "int \<Rightarrow> crash_state \<Rightarrow> crash_state" where
  "my_handler code s = alarm 8 (signal_dfl SIGALRM (signal_dfl code s))"

definition my_handler_b :: "int \<Rightarrow> crash_state \<Rightarrow> crash_state" where
  "my_handler_b code s = alarm 8 (signal_dfl SIGALRM (signal_dfl code (set_action SIGSEGV (sa_old s) s)))"

text \<open>\<open>sigaltstack\<close> with a block of \<open>SIGSTKSZ\<close> bytes from \<open>malloc\<close>; a failure is only logged.\<close>

definition init_stack :: "u32 option \<Rightarrow> bool \<Rightarrow> crash_state \<Rightarrow> crash_state" where
  "init_stack block sigaltstack_ok s =
     (case block of None \<Rightarrow> s | Some p \<Rightarrow> if sigaltstack_ok then s\<lparr>crash_stack := Some p\<rparr> else s)"

definition init_sigaction :: "crash_state \<Rightarrow> crash_state" where
  "init_sigaction s =
     set_action SIGSEGV \<lparr>ca_handler = MyHandler, ca_onstack = True, ca_siginfo = True\<rparr>
       (s\<lparr>sa_old := actions s SIGSEGV\<rparr>)"

definition initCrash :: "u32 option \<Rightarrow> bool \<Rightarrow> crash_state \<Rightarrow> int \<times> crash_state" where
  "initCrash block sigaltstack_ok s = (0, init_sigaction (init_stack block sigaltstack_ok s))"

text \<open>A faulting instruction is executed again when its handler returns: the handlers that run within \<open>n\<close>
  deliveries, and whether the process is killed. Handlers of other libraries change nothing here.\<close>

definition run_handler :: "crash_handler \<Rightarrow> int \<Rightarrow> crash_state \<Rightarrow> crash_state" where
  "run_handler h sig s =
     (case h of MyHandler \<Rightarrow> my_handler sig s | MyHandlerB \<Rightarrow> my_handler_b sig s | _ \<Rightarrow> s)"

fun faults :: "nat \<Rightarrow> int \<Rightarrow> crash_state \<Rightarrow> crash_handler list \<times> bool" where
  "faults 0 sig s = ([], False)"
| "faults (Suc n) sig s =
     (let h = ca_handler (actions s sig) in
      if h = SIG_DFL then ([], True)
      else case faults n sig (run_handler h sig s) of (hs, killed) \<Rightarrow> (h # hs, killed))"

lemma signals_distinct [simp]: "SIGALRM \<noteq> SIGSEGV" "SIGFPE \<noteq> SIGSEGV"
  by (simp_all add: SIGALRM_def SIGSEGV_def SIGFPE_def)

lemma init_sigaction_fields [simp]:
  "ca_handler (actions (init_sigaction s) SIGSEGV) = MyHandler" "sa_old (init_sigaction s) = actions s SIGSEGV"
  "sig \<noteq> SIGSEGV \<Longrightarrow> actions (init_sigaction s) sig = actions s sig"
  by (simp_all add: init_sigaction_def set_action_def)

lemma handler_resets: "actions (my_handler sig s) sig = default_action" "actions (my_handler_b sig s) sig = default_action"
  by (simp_all add: my_handler_def my_handler_b_def alarm_def signal_dfl_def set_action_def)

text \<open>After \<open>initCrash\<close> a segmentation fault runs the handler once and then ends the process by the default
  action, whatever was installed before; the action that was saved in \<open>sa_old\<close> is never run.\<close>

theorem crash_runs_once:
  "faults (Suc (Suc n)) SIGSEGV (snd (initCrash block ok s)) = ([MyHandler], True)"
  "sa_old (snd (initCrash block ok s)) = actions s SIGSEGV"
  by (simp_all add: initCrash_def run_handler_def handler_resets default_action_def init_stack_def split: option.splits)

text \<open>The other handler puts the saved action back and resets it again at once: the handler of another library is
  lost all the same. A second \<open>initCrash\<close> saves the handler of the first as the old action.\<close>

lemma saved_action_lost:
  "ca_handler (actions s SIGSEGV) = MyHandlerB \<Longrightarrow> faults (Suc (Suc n)) SIGSEGV s = ([MyHandlerB], True)"
  "ca_handler (sa_old (init_sigaction (init_sigaction s))) = MyHandler"
  by (simp_all add: run_handler_def handler_resets default_action_def)

section \<open>Descriptions of signals\<close>

definition print_sig :: "int \<Rightarrow> int \<Rightarrow> string" where
  "print_sig sign code =
     (if sign = SIGFPE
      then if code = 1 then ''Integer divide by zero''
        else if code = 2 then ''Integer overflow''
        else if code = 3 then ''Floating-point divide by zero''
        else if code = 4 then ''Floating-point overflow''
        else if code = 5 then ''Floating-point underflow''
        else if code = 6 then ''Floating-point inexact result''
        else if code = 7 then ''Invalid floating-point operation''
        else if code = 8 then ''Subscript out of range''
        else ''Floating-point''
      else if sign = SIGSEGV
      then if code = 1 then ''Address not mapped to object''
        else if code = 2 then ''Invalid permissions for mapped object''
        else ''Segmentation violation''
      else ''None'')"

section \<open>The name of a thread\<close>

text \<open>\<open>calloc\<close> gives zeroed blocks of 80 and 100 bytes or fails; \<open>snprintf\<close> is given \<open>PATH_MAX\<close> instead of 80.
  \<open>fgets\<close> takes at most 99 bytes, up to and including a newline. \<open>below\<close> is the byte in front of the block \<open>line\<close>,
  which the code reads, and may clear, when the line is empty.\<close>

definition THREAD_NAME_LENGTH :: nat where "THREAD_NAME_LENGTH = 100"

definition comm_path :: "int \<Rightarrow> string" where
  "comm_path tid = ''proc/'' @ show_int tid @ ''/comm''"

definition fgets :: "nat \<Rightarrow> u8 list \<Rightarrow> u8 list" where
  "fgets n content =
     (let t = take (n - 1) content in if 10 \<in> set t then takeWhile (\<lambda>c. c \<noteq> 10) t @ [10] else t)"

definition strlen :: "u8 list \<Rightarrow> nat" where
  "strlen buf = length (takeWhile (\<lambda>c. c \<noteq> 0) buf)"

text \<open>Results: \<open>None\<close> is a fault or an overrun of the 80 bytes; else the returned block, if any, and the byte
  \<open>below\<close> afterwards.\<close>

definition getThreadName ::
  "bool \<Rightarrow> bool \<Rightarrow> (string \<Rightarrow> u8 list option) \<Rightarrow> u8 \<Rightarrow> int \<Rightarrow> (u8 list option \<times> u8) option" where
  "getThreadName path_ok line_ok fopen below tid =
     (if tid \<le> 1 then Some (None, below)
      else if \<not> path_ok \<or> 80 \<le> length (comm_path tid) then None
      else let zeros = replicate THREAD_NAME_LENGTH 0 in
      case fopen (comm_path tid) of
        Some content \<Rightarrow>
          if \<not> line_ok then None
          else let got = fgets THREAD_NAME_LENGTH content;
                   line = (if content = [] then zeros
                           else got @ [0] @ drop (length got + 1) zeros);
                   len = strlen line
               in if len = 0 then Some (Some line, if below = 10 then 0 else below)
                  else Some (Some (if line ! (len - 1) = 10 then line[len - 1 := 0] else line), below)
      | None \<Rightarrow>
          if \<not> line_ok then Some (None, below)
          else Some (Some zeros, if below = 10 then 0 else below))"

lemma takeWhile_shorter: "x \<in> set t \<Longrightarrow> length (takeWhile (\<lambda>c. c \<noteq> x) t) < length t"
  by (induction t) auto

lemma fgets_length: "length (fgets n c) \<le> n - 1"
  using takeWhile_shorter [of 10 "take (n - 1) c"] by (auto simp: fgets_def Let_def)

lemma fgets_zero: "0 \<notin> set c \<Longrightarrow> 0 \<notin> set (fgets n c)"
  by (auto simp: fgets_def Let_def dest!: set_takeWhileD in_set_takeD)

lemma takeWhile_nul: "0 \<notin> set xs \<Longrightarrow> takeWhile (\<lambda>c. c \<noteq> 0) (xs @ 0 # ys) = (xs :: u8 list)"
  by (induction xs) auto

lemma strlen_line: "0 \<notin> set got \<Longrightarrow> strlen (got @ 0 # rest) = length got"
  by (simp add: strlen_def takeWhile_nul)

lemma comm_path_fits: "length (comm_path (sint (tid :: u32))) < 80"
  using show_int_length [of tid] by (simp add: comm_path_def)

text \<open>For a thread whose name file has a line without NUL bytes the returned block holds the line without its
  newline, cut at 99 bytes and terminated, and the heap around it is untouched.\<close>

theorem thread_name_correct:
  assumes "1 < sint (tid :: u32)" "fopen (comm_path (sint tid)) = Some content" "content \<noteq> []" "0 \<notin> set content"
  shows "\<exists>block. getThreadName True True fopen below (sint tid) = Some (Some block, below) \<and> length block = 100 \<and>
    takeWhile (\<lambda>c. c \<noteq> 0) block = takeWhile (\<lambda>c. c \<noteq> 10) (take 99 content)"
proof -
  let ?got = "fgets 100 content" and ?t = "take 99 content"
  let ?line = "?got @ [0] @ drop (length ?got + 1) (replicate 100 0)"
  let ?name = "takeWhile (\<lambda>c. c \<noteq> 10) ?t"
  have g: "length ?got \<le> 99" using fgets_length [of 100 content] by simp
  have z: "0 \<notin> set ?got" by (rule fgets_zero [OF assms(4)])
  have len: "strlen ?line = length ?got" using strlen_line [OF z] by simp
  have "?got \<noteq> []" using assms(3) by (auto simp: fgets_def Let_def)
  then have r: "getThreadName True True fopen below (sint tid) =
      Some (Some (if ?line ! (length ?got - 1) = 10 then ?line[length ?got - 1 := 0] else ?line), below)"
    using assms(1-3) comm_path_fits [of tid] len by (simp add: getThreadName_def THREAD_NAME_LENGTH_def Let_def)
  have nz: "0 \<notin> set ?name" using assms(4) by (auto dest!: set_takeWhileD in_set_takeD)
  show ?thesis
  proof (cases "10 \<in> set ?t")
    case True
    then have got: "?got = ?name @ [10]" by (simp add: fgets_def Let_def)
    then have "?line ! (length ?got - 1) = 10" by (simp add: nth_append)
    moreover have "?line[length ?got - 1 := 0] = ?name @ 0 # 0 # drop (length ?got + 1) (replicate 100 0)"
      unfolding got by (simp add: list_update_append)
    moreover have "takeWhile (\<lambda>c. c \<noteq> 0) (?name @ 0 # 0 # drop (length ?got + 1) (replicate 100 0)) = ?name"
      by (rule takeWhile_nul [OF nz])
    ultimately show ?thesis using r g got by simp
  next
    case False
    then have got: "?got = ?t" "?name = ?t" by (auto simp: fgets_def Let_def takeWhile_eq_all_conv)
    then have "?line ! (length ?got - 1) \<noteq> 10"
      using False \<open>?got \<noteq> []\<close> nth_mem [of "length ?got - 1" ?got] by (auto simp: nth_append)
    moreover have "takeWhile (\<lambda>c. c \<noteq> 0) ?line = ?got"
      using takeWhile_nul [OF z] by simp
    ultimately show ?thesis using r g got(1) unfolding got(2) by simp
  qed
qed

text \<open>Without the file, or with an empty one, the byte in front of the block is read, and cleared when it is a newline.\<close>

lemma thread_name_underflow:
  assumes "1 < sint (tid :: u32)" "fopen (comm_path (sint tid)) \<in> {None, Some []}"
  shows "getThreadName True True fopen 10 (sint tid) = Some (Some (replicate 100 0), 0)"
  using assms comm_path_fits [of tid] by (auto simp: getThreadName_def THREAD_NAME_LENGTH_def strlen_def Let_def)

end
