(* ===== verification/Spec2Isabelle.thy ===== *)
theory Spec2Isabelle
  imports SigmuxRcu HookClients AllocTracker MapMd5 Utf8 HookX86 NativeCrash
begin

text \<open>
  Verification of the native (C and C++) code of the Android collection.

  The program. The repository is an Android application with several native libraries:
  \<^item> \<open>atracehook\<close> (and its copy in \<open>ThreadHook\<close>) redirects calls of imported functions by patching
    the GOT slots of loaded libraries. \<open>linker.cpp\<close> is the interface; it finds the slots with the
    ELF reader \<open>elfSharedLibData.cpp\<close> over the cache of libraries \<open>sharedlibs.cpp\<close>, records every
    slot and its chain of hooks in \<open>hooks.cpp\<close>, lets \<open>trampoline.cpp\<close> build the code that a slot
    points to, and writes the slot under the guard of \<open>sig_safe_write.c\<close>, which catches a fault
    with the signal multiplexer \<open>sigmux.c\<close>, whose registrations are protected by the phaser of
    \<open>phaser.c\<close>. Its clients are the system tracer \<open>ATraceLogger.cpp\<close> and the thread hook
    \<open>threadHook.cpp\<close>.
  \<^item> \<open>alloctrack\<close> follows Java allocations: \<open>allocTracker.cpp\<close> finds the functions of the runtime with
    \<open>dlopen.c\<close> and rewrites their code with the inline hooking of \<open>Substrate\<close>, whose variant for x86-64
    measures instructions with the length disassembler \<open>hde64.c\<close>. Names of classes come through
    the string conversion \<open>utf8.cpp\<close> of \<open>fbjni\<close>.
  \<^item> \<open>app\<close> signs request parameters, \<open>map_md5.cpp\<close> over the digest of \<open>md5.cpp\<close>, and installs a
    crash handler, \<open>native_crash_cache.cpp\<close>.

  Theories, bottom up. Definitions keep the names of the functions and fields they model.
  \<^item> \<open>Prelude\<close>: names of the machine integers, word facts, runs of a labelled step relation,
    decimal numbers, pages.
  \<^item> \<open>Phaser\<close> (\<open>phaser.c\<close>, \<open>phaser.h\<close>): the functions run alone, and the interleaving of any
    number of readers with one drainer at the granularity of the atomic operations
    (\<open>phaser_step\<close>). Lemmas: the invariant of the interleaving, the grace period of a drain, the
    refinement of an abstract grace-period machine, no lost wake-up, progress.
  \<^item> \<open>Sigmux\<close> (\<open>sigmux.c\<close>, \<open>sigmux.h\<close>): the multiplexer without interference: its circular list
    in a store of nodes, the saved actions, the kernel's table of actions, and the outcomes of a
    handler (return, jump, abort). Lemmas: the list behind the links, dispatch against the
    declarative order of the registrations, initialisation and its errors, the saved action as
    \<open>sigaction\<close>. \<open>SigmuxRcu\<close> runs handlers and one writer concurrently over the abstract
    grace periods and shows that no freed registration is used.
  \<^item> \<open>SigSafeWrite\<close> (\<open>sig_safe_write.c\<close>): guarded operations as clients of the multiplexer; a
    faulting operation is a value of \<open>op_result\<close>.
  \<^item> \<open>Hooks\<close> (\<open>hooks.cpp\<close>, \<open>hooks.h\<close>): the registry with shared run lists; \<open>add\<close> and \<open>remove\<close>
    refine updates of an abstract map from slots to chains.
  \<^item> \<open>Trampoline\<close> (\<open>trampoline.cpp\<close>, \<open>trampoline_arm.c\<close>): the allocator of executable memory, the
    layout of a trampoline, the per-thread stack of active hooks behind \<open>CALL_PREV\<close>, and the
    passes of the ARM code.
  \<^item> \<open>ElfSharedLibData\<close> (\<open>elfSharedLibData.cpp\<close>, \<open>.h\<close>) and \<open>SharedLibs\<close> (\<open>sharedlibs.cpp\<close>,
    \<open>link.cpp\<close>): dynamic section, GNU and System V hash lookups, relocations; the cache and its
    refresh.
  \<^item> \<open>Linker\<close> (\<open>linker.cpp\<close>, \<open>linker.h\<close>): all of the above in one state; hooking and unhooking one
    or all libraries. \<open>HookClients\<close> (\<open>ATraceLogger.cpp\<close>, \<open>threadHook.cpp\<close>): the tracer's word of enabled
    tags through repeated enabling and restoring, the chains of its two hooks, and the errors that
    are not reported.
  \<^item> \<open>NdkDlopen\<close> (\<open>dlopen.c\<close>): the machine code by which a library of the system is opened from an address
    inside the system, run on a small ARM machine.
  \<^item> \<open>Substrate\<close> (\<open>SubstratePosixMemory.cpp\<close>, \<open>CydiaSubstrate.h\<close>, \<open>SubstrateARM.hpp\<close>): code memory and the
    permission to write it. \<open>SubstrateArm\<close> and \<open>SubstrateThumb\<close> (\<open>SubstrateHook.cpp\<close>): length, relocation
    and patch for each of the two instruction sets, and the choice between them in
    \<open>MSHookFunction\<close>. Lemmas: the copy stays within its buffer, the patch leads to the replacement, the ARM copy
    runs as the original did; \<open>ThumbTargets\<close> gives every relocated Thumb branch and literal
    load the target it had.
  \<^item> \<open>Hde64\<close> (\<open>hde64.c\<close>, \<open>hde64.h\<close>, \<open>table64.h\<close>): the disassembler in the phases of its code;
    \<open>Hde64Local\<close>: its result depends on the bytes of the instruction only, and what it is for branches and loads.
  \<^item> \<open>SubstrateX86\<close> (\<open>SubstrateHook.cpp\<close>, \<open>SubstrateX86.hpp\<close>, \<open>Buffer.hpp\<close>): the hook for x86-64, with the
    lemmas on the room it computes; \<open>HookX86\<close>: a machine for the instructions it writes, on which the patch and
    every kind of relocated instruction do what they should.
  \<^item> \<open>AllocTracker\<close> (\<open>allocTracker.cpp\<close>, \<open>alloctracker.h\<close>, \<open>lock.cpp\<close>): the counters and dumps of the recorded
    allocations, the reports of the old runtime, the installation of the hooks through \<open>MSHookFunction\<close>
    and \<open>ndk_dlopen\<close>, and the interleaving of two threads at the lock of a dump.
  \<^item> \<open>Md5\<close> (\<open>md5.cpp\<close>, \<open>md5.h\<close>) against RFC 1321, and \<open>MapMd5\<close> (\<open>map_md5.cpp\<close>).
  \<^item> \<open>Utf8\<close> (\<open>utf8.cpp\<close>, \<open>fbjni.cpp\<close>) against the Unicode encodings.
  \<^item> \<open>NativeCrash\<close> (\<open>native_crash_cache.cpp\<close>): the signal actions through installation and fault, the
    name of a thread.

  Conventions and bounds. Machine integers are words of the 32-bit ABIs, except for the x86-64 hook, whose
  addresses have 64 bits. What the code asks of the system (kernel, allocator, \<open>dladdr\<close>, \<open>mprotect\<close>,
  files, the Java virtual machine) is a parameter of the definitions. Errors, aborts and faults are values. A loop
  that may not end is a \<open>partial_function (option)\<close>, so that \<open>None\<close> means that it does not return
  (the walks of hash chains and dynamic tables, which are shown to return when the tables are
  terminated); other loops are recursive over lists or counters, or have a measure. The loops of the x86-64 hook
  that compare for equality with their end are \<open>None\<close> when they miss it, which whole instructions exclude. The
  phaser admits up to \<open>2 ^ 31 - 1\<close> readers on a counter, as the code does; MD5 takes single updates of up to
  \<open>2 ^ 32 - 64\<close> bytes, the limit from which its unsigned loop bound wraps; the disassembler is
  shown to read no more than 40 bytes; the copy of an x86-64 function takes at most 1024 bytes for at most 28
  replaced ones.

  Not modelled: the copy of the linker in \<open>ThreadHook\<close>, which has the same files; inline assembly
  (\<open>linux_syscall_support.h\<close>, \<open>trampoline_x86.c\<close>) and the variants of \<open>dlopen.c\<close> for other
  processors than ARM; the 32-bit variant of the x86 hook and those of its writers that nothing calls; the third-party
  wrappers of \<open>fbjni\<close> and \<open>lyra\<close>, which pass calls on to the virtual machine and the unwinder; the vendored
  crash reporter \<open>breakpad\<close>; the thread that is to report crashes to Java, which faults at its first
  call; registration tables, logging and debug output; the code in Java and Kotlin. What remains of the
  native code of the repository itself is glue of these kinds.
\<close>

end
